(* ===== verification/Prelude.thy ===== *)
theory Prelude
  imports Complex_Main "HOL-Library.Word" "HOL-Library.Product_Lexorder" "HOL-Library.Multiset"
begin

text \<open>
  The shared layer of the development: the machine integers of the Rust code and the
  standard-library arithmetic the code calls on them, the iterator operations
  (\<open>min_by\<close>, sums), and the generic contract of a transition system.  Nothing here
  models a file of the repository; the components import it.

  The model follows the release profile of Cargo.toml (no overflow checks, no debug
  assertions), so \<open>+\<close> on words wraps.  Where the code depends on the absence of
  wrap-around, the component proves that it cannot happen.
\<close>

section \<open>Machine integers\<close>

type_synonym u8 = "8 word"
type_synonym u16 = "16 word"
type_synonym u32 = "32 word"
type_synonym u64 = "64 word"

text \<open>\<open>i64\<close> counters are 64-bit words too; \<open>sint\<close> reads them as two's complement.\<close>

type_synonym i64 = "64 word"

text \<open>\<open>usize\<close> values are lengths and small counts: naturals.\<close>

type_synonym usize = nat

text \<open>
  A \<open>Uuid\<close> is its 16 bytes; its derived order is the byte-wise lexicographic one, which
  is the numeric order of the big-endian 128-bit value.
\<close>

type_synonym uuid = "128 word"

text \<open>
  An \<open>Instant\<close> is a reading of the monotonic clock in nanoseconds.  \<open>duration_since\<close>
  and \<open>elapsed\<close> saturate at zero, as subtraction of naturals does.
\<close>

type_synonym instant = nat

definition millis_since :: "instant \<Rightarrow> instant \<Rightarrow> u64" where
  "millis_since now t = word_of_nat ((now - t) div 1000000)"

definition saturating_sub :: "'a::len word \<Rightarrow> 'a word \<Rightarrow> 'a word" where
  "saturating_sub a b = (if a < b then 0 else a - b)"

definition saturating_add :: "'a::len word \<Rightarrow> 'a word \<Rightarrow> 'a word" where
  "saturating_add a b = (if unat a + unat b < 2 ^ LENGTH('a) then a + b else - 1)"

definition abs_diff :: "'a::len word \<Rightarrow> 'a word \<Rightarrow> 'a word" where
  "abs_diff a b = (if a < b then b - a else a - b)"

definition checked_div :: "'a::len word \<Rightarrow> 'a word \<Rightarrow> 'a word option" where
  "checked_div a b = (if b = 0 then None else Some (a div b))"

named_theorems unat_arith_simps "reading word operations of the code as natural numbers"

lemma unat_saturating_sub [unat_arith_simps]:
  "unat (saturating_sub a b) = unat a - unat b"
  by (auto simp: saturating_sub_def word_less_nat_alt unat_sub_if')

lemma unat_minus_one_max: "unat (- 1 :: 'a::len word) = 2 ^ LENGTH('a) - 1"
  by (simp add: unsigned_minus_1_eq_mask mask_eq_exp_minus_1)

lemma unat_saturating_add [unat_arith_simps]:
  fixes a b :: "'a::len word"
  shows "unat (saturating_add a b) = min (unat a + unat b) (2 ^ LENGTH('a) - 1)"
  by (auto simp: saturating_add_def unat_word_ariths unat_minus_one_max min_def)

lemma unat_abs_diff [unat_arith_simps]:
  "unat (abs_diff a b) = (if unat a < unat b then unat b - unat a else unat a - unat b)"
  by (auto simp: abs_diff_def word_less_nat_alt unat_sub_if')

lemma unat_min [unat_arith_simps]: "unat (min a b) = min (unat a) (unat (b :: 'a::len word))"
  by (simp add: min_def word_le_nat_alt)

lemma unat_max [unat_arith_simps]: "unat (max a b) = max (unat a) (unat (b :: 'a::len word))"
  by (simp add: max_def word_le_nat_alt)

lemma abs_diff_commute: "abs_diff a b = abs_diff b a"
  by (rule word_unat_eq_iff [THEN iffD2]) (simp add: unat_abs_diff)

lemma unat_add_no_wrap:
  fixes a b :: "'a::len word"
  shows "unat a + unat b < 2 ^ LENGTH('a) \<Longrightarrow> unat (a + b) = unat a + unat b"
  by (simp add: unat_word_ariths)

lemma unat_sum_list_le:
  fixes xs :: "'a::len word list"
  shows "unat (sum_list xs) \<le> sum_list (map unat xs)"
proof (induction xs)
  case Nil
  then show ?case by simp
next
  case (Cons x xs)
  have "unat (x + sum_list xs) \<le> unat x + unat (sum_list xs)"
    by (simp add: unat_word_ariths)
  with Cons show ?case by simp
qed

lemma unat_sum_list_no_wrap:
  fixes xs :: "'a::len word list"
  shows "sum_list (map unat xs) < 2 ^ LENGTH('a) \<Longrightarrow> unat (sum_list xs) = sum_list (map unat xs)"
proof (induction xs)
  case Nil
  then show ?case by simp
next
  case (Cons x xs)
  then have "unat (sum_list xs) = sum_list (map unat xs)" by simp
  with Cons.prems show ?case by (simp add: unat_add_no_wrap)
qed

lemma sum_list_map_bound:
  fixes f :: "'b \<Rightarrow> nat"
  shows "(\<And>x. x \<in> set xs \<Longrightarrow> f x \<le> b) \<Longrightarrow> sum_list (map f xs) \<le> length xs * b"
  by (induction xs) (auto simp: add_mono)

section \<open>Iterators\<close>

text \<open>
  \<open>Iterator::min_by\<close> with a comparator that compares keys lexicographically: a left fold
  that keeps the earlier of two elements unless the later one is strictly smaller.
\<close>

definition min_by :: "('a \<Rightarrow> 'k::linorder) \<Rightarrow> 'a list \<Rightarrow> 'a option" where
  "min_by key xs =
     (case xs of
        [] \<Rightarrow> None
      | y # ys \<Rightarrow> Some (foldl (\<lambda>best x. if key x < key best then x else best) y ys))"

lemma foldl_min_by:
  fixes key :: "'a \<Rightarrow> 'k::linorder"
  defines "m \<equiv> \<lambda>y ys. foldl (\<lambda>best x. if key x < key best then x else best) y ys"
  shows "m y ys \<in> set (y # ys) \<and> (\<forall>x \<in> set (y # ys). key (m y ys) \<le> key x)"
  unfolding m_def
proof (induction ys arbitrary: y)
  case Nil
  then show ?case by simp
next
  case (Cons z zs)
  show ?case
  proof (cases "key z < key y")
    case True
    with Cons [of z] show ?thesis by (force simp: not_less)
  next
    case False
    with Cons [of y] show ?thesis by (fastforce simp: not_less)
  qed
qed

lemma min_by_None [simp]: "min_by key xs = None \<longleftrightarrow> xs = []"
  by (simp add: min_by_def split: list.split)

lemma min_by_Some:
  assumes "min_by key xs = Some x"
  shows "x \<in> set xs" and "\<forall>y \<in> set xs. key x \<le> key y"
  using assms foldl_min_by [of key] by (auto simp: min_by_def split: list.splits)

text \<open>With distinct keys the minimum depends only on the set of elements, not on their order.\<close>

lemma min_by_cong_set:
  fixes key :: "'a \<Rightarrow> 'k::linorder"
  assumes "set xs = set ys" and inj: "inj_on key (set xs)"
  shows "min_by key xs = min_by key ys"
proof (cases "min_by key xs")
  case None
  with assms(1) show ?thesis by auto
next
  case (Some x)
  with assms(1) have "ys \<noteq> []" using min_by_Some(1) by fastforce
  then obtain y where y: "min_by key ys = Some y" by (cases "min_by key ys") auto
  from min_by_Some [OF Some] min_by_Some [OF y] assms(1)
  have "key x = key y" and "x \<in> set xs" and "y \<in> set xs"
    by (auto intro: order.antisym)
  with inj have "x = y" by (simp add: inj_on_def)
  with Some y show ?thesis by simp
qed

lemma min_by_unique:
  assumes "x \<in> set xs" and "\<And>y. y \<in> set xs \<Longrightarrow> y \<noteq> x \<Longrightarrow> key x < key y"
  shows "min_by key xs = Some x"
proof -
  from assms(1) obtain y where y: "min_by key xs = Some y"
    by (cases "min_by key xs") auto
  have "y = x"
  proof (rule ccontr)
    assume "y \<noteq> x"
    with assms(2) min_by_Some(1) [OF y] have "key x < key y" by blast
    moreover from min_by_Some(2) [OF y] assms(1) have "key y \<le> key x" by blast
    ultimately show False by simp
  qed
  with y show ?thesis by simp
qed

text \<open>
  \<open>sort_unstable_by\<close>: when no two elements have the same key, the result is the only
  sorted permutation, so instability is not observable and \<open>sort_key\<close> is its model.
\<close>

lemma sort_key_unique:
  fixes key :: "'a \<Rightarrow> 'k::linorder"
  assumes "mset ys = mset xs" and "sorted (map key ys)" and "inj_on key (set xs)"
  shows "ys = sort_key key xs"
  by (rule sort_key_inj_key_eq [symmetric]) (use assms in auto)

section \<open>Transition systems\<close>

text \<open>
  States reachable from an initial state by steps, and the contract of an invariant:
  it holds initially and every step keeps it.
\<close>

inductive reach :: "('s \<Rightarrow> bool) \<Rightarrow> ('s \<Rightarrow> 's \<Rightarrow> bool) \<Rightarrow> 's \<Rightarrow> bool"
  for init :: "'s \<Rightarrow> bool" and step :: "'s \<Rightarrow> 's \<Rightarrow> bool"
  where
  reach_init: "init s \<Longrightarrow> reach init step s"
| reach_step: "reach init step s \<Longrightarrow> step s t \<Longrightarrow> reach init step t"

locale inductive_invariant =
  fixes init :: "'s \<Rightarrow> bool" and step :: "'s \<Rightarrow> 's \<Rightarrow> bool" and inv :: "'s \<Rightarrow> bool"
  assumes inv_init: "init s \<Longrightarrow> inv s"
    and inv_step: "inv s \<Longrightarrow> step s t \<Longrightarrow> inv t"
begin

lemma reachable_inv: "reach init step s \<Longrightarrow> inv s"
  by (induction rule: reach.induct) (auto intro: inv_init inv_step)

lemma inv_steps: "step\<^sup>*\<^sup>* s t \<Longrightarrow> inv s \<Longrightarrow> inv t"
  by (induction rule: rtranclp_induct) (auto intro: inv_step)

end

end
