(* ===== verification/Models.thy ===== *)
theory Models
  imports Prelude
begin

text \<open>
  Model of src/src/models/mod.rs: the player with its atomic lifecycle word, the snapshot,
  team and match records, and the request and response bodies of the HTTP layer.

  An atomic field is a record field; an atomic operation is a function from the player to
  the player it leaves (and the value the caller sees).  Memory orderings have no counterpart
  in this sequentially consistent reading.  Clock readings are arguments: \<open>now\<close> is what
  \<open>Instant::now()\<close> returned at that call.
\<close>

section \<open>Player state constants\<close>

definition WAITING :: u8 where "WAITING = 0"
definition CLAIMED :: u8 where "CLAIMED = 1"
definition MATCHED :: u8 where "MATCHED = 2"
definition EVICTED :: u8 where "EVICTED = 3"

lemmas player_state_defs = WAITING_def CLAIMED_def MATCHED_def EVICTED_def

lemma player_states_distinct [simp]:
  "WAITING \<noteq> CLAIMED" "CLAIMED \<noteq> WAITING" "WAITING \<noteq> MATCHED" "MATCHED \<noteq> WAITING"
  "WAITING \<noteq> EVICTED" "EVICTED \<noteq> WAITING" "CLAIMED \<noteq> MATCHED" "MATCHED \<noteq> CLAIMED"
  "CLAIMED \<noteq> EVICTED" "EVICTED \<noteq> CLAIMED" "MATCHED \<noteq> EVICTED" "EVICTED \<noteq> MATCHED"
  by (simp_all add: player_state_defs)

section \<open>Player\<close>

record player =
  p_id :: uuid
  p_skill_rating :: u32
  p_join_timestamp :: instant
  p_state :: u8
  p_claimed_by :: u64
  p_claim_timestamp :: u64
  p_matched_at :: "instant option"

definition player_new :: "instant \<Rightarrow> uuid \<Rightarrow> u32 \<Rightarrow> player" where
  "player_new now i rating =
     \<lparr>p_id = i, p_skill_rating = rating, p_join_timestamp = now, p_state = WAITING,
      p_claimed_by = 0, p_claim_timestamp = 0, p_matched_at = None\<rparr>"

text \<open>\<open>AtomicU8::compare_exchange\<close> on the state word: did it succeed, and the player after it.\<close>

definition compare_exchange :: "u8 \<Rightarrow> u8 \<Rightarrow> player \<Rightarrow> bool \<times> player" where
  "compare_exchange current new p =
     (if p_state p = current then (True, p\<lparr>p_state := new\<rparr>) else (False, p))"

definition is_waiting :: "player \<Rightarrow> bool" where
  "is_waiting p \<longleftrightarrow> p_state p = WAITING"

definition try_claim :: "u64 \<Rightarrow> u64 \<Rightarrow> player \<Rightarrow> bool \<times> player" where
  "try_claim worker_id now_ms p =
     (case compare_exchange WAITING CLAIMED p of
        (True, p') \<Rightarrow> (True, p'\<lparr>p_claimed_by := worker_id, p_claim_timestamp := now_ms\<rparr>)
      | (False, p') \<Rightarrow> (False, p'))"

definition release_claim :: "player \<Rightarrow> player" where
  "release_claim p =
     snd (compare_exchange CLAIMED WAITING (p\<lparr>p_claimed_by := 0, p_claim_timestamp := 0\<rparr>))"

definition mark_matched :: "instant \<Rightarrow> player \<Rightarrow> player" where
  "mark_matched now p = snd (compare_exchange CLAIMED MATCHED (p\<lparr>p_matched_at := Some now\<rparr>))"

definition try_evict :: "player \<Rightarrow> bool \<times> player" where
  "try_evict p = compare_exchange WAITING EVICTED p"

definition wait_ms :: "instant \<Rightarrow> player \<Rightarrow> u64" where
  "wait_ms now p = millis_since now (p_join_timestamp p)"

definition matched_wait_ms :: "player \<Rightarrow> u64 option" where
  "matched_wait_ms p = map_option (\<lambda>m. millis_since m (p_join_timestamp p)) (p_matched_at p)"

lemmas player_op_defs =
  compare_exchange_def try_claim_def release_claim_def mark_matched_def try_evict_def

section \<open>Snapshots, teams, matches\<close>

record player_snapshot =
  ps_id :: uuid
  ps_skill_rating :: u32
  ps_wait_ms :: u64

definition snapshot_capture :: "instant \<Rightarrow> player \<Rightarrow> player_snapshot" where
  "snapshot_capture now p =
     \<lparr>ps_id = p_id p, ps_skill_rating = p_skill_rating p,
      ps_wait_ms = (case matched_wait_ms p of Some w \<Rightarrow> w | None \<Rightarrow> wait_ms now p)\<rparr>"

text \<open>
  \<open>f32\<close>: the code computes one non-negative quotient of small integers.  A finite value is
  the rational it denotes; rounding is to 24 significant bits, ties to even.  The values that
  occur (between 1/5 and \<open>2\<^sup>3\<^sup>2\<close>, and zero) are far from the subnormal and overflow ranges.
\<close>

datatype f32 = NaN | Finite rat

fun ilog2 :: "nat \<Rightarrow> nat" where
  "ilog2 n = (if n < 2 then 0 else Suc (ilog2 (n div 2)))"

declare ilog2.simps [simp del]

definition pow2 :: "int \<Rightarrow> rat" where
  "pow2 e = (if 0 \<le> e then 2 ^ nat e else 1 / 2 ^ nat (- e))"

definition exponent_of :: "rat \<Rightarrow> int" where
  "exponent_of x =
     (if 1 \<le> x then int (ilog2 (nat \<lfloor>x\<rfloor>))
      else let m = nat \<lceil>1 / x\<rceil>; k = ilog2 m in - int (if 2 ^ k = m then k else Suc k))"

definition round_half_even :: "rat \<Rightarrow> int" where
  "round_half_even x =
     (let f = \<lfloor>x\<rfloor>; r = x - of_int f
      in if r < 1 / 2 then f else if 1 / 2 < r then f + 1 else if even f then f else f + 1)"

definition f32_round :: "rat \<Rightarrow> rat" where
  "f32_round x =
     (if x \<le> 0 then 0
      else let e = exponent_of x - 23 in of_int (round_half_even (x / pow2 e)) * pow2 e)"

definition f32_div :: "rat \<Rightarrow> rat \<Rightarrow> f32" where
  "f32_div a b = (if b = 0 then NaN else Finite (f32_round (a / b)))"

record team =
  tm_players :: "player_snapshot list"
  tm_total_rating :: u32
  tm_avg_rating :: f32

definition team_new :: "player_snapshot list \<Rightarrow> team" where
  "team_new players =
     (let total = sum_list (map ps_skill_rating players)
      in \<lparr>tm_players = players, tm_total_rating = total,
          tm_avg_rating = f32_div (f32_round (of_nat (unat total)))
                                  (f32_round (of_nat (length players)))\<rparr>)"

record match_record =
  m_match_id :: uuid
  m_team_a :: team
  m_team_b :: team
  m_team_delta :: u32
  m_skill_spread :: u32
  m_avg_wait_ms :: u64
  m_max_wait_ms :: u64
  m_formed_at_unix :: u64

definition match_new ::
    "u64 \<Rightarrow> uuid \<Rightarrow> team \<Rightarrow> team \<Rightarrow> u32 \<Rightarrow> u64 \<Rightarrow> u64 \<Rightarrow> match_record" where
  "match_new now_unix_secs match_id team_a team_b skill_spread avg_wait max_wait =
     \<lparr>m_match_id = match_id, m_team_a = team_a, m_team_b = team_b,
      m_team_delta = abs_diff (tm_total_rating team_a) (tm_total_rating team_b),
      m_skill_spread = skill_spread, m_avg_wait_ms = avg_wait, m_max_wait_ms = max_wait,
      m_formed_at_unix = now_unix_secs\<rparr>"

definition match_players :: "match_record \<Rightarrow> player_snapshot list" where
  "match_players m = tm_players (m_team_a m) @ tm_players (m_team_b m)"

section \<open>Request and response bodies\<close>

record enqueue_request =
  eq_id :: uuid
  eq_skill_rating :: u32

record enqueue_response =
  er_player_id :: uuid
  er_status :: string
  er_queue_depth :: usize

record health_response =
  hr_status :: string
  hr_players_waiting :: i64
  hr_uptime_secs :: u64

record matches_response =
  mr_matches :: "match_record list"
  mr_total_matches_formed :: u64

record error_response =
  err_error :: string
  err_code :: string

definition error_response_new :: "string \<Rightarrow> string \<Rightarrow> error_response" where
  "error_response_new err code = \<lparr>err_error = err, err_code = code\<rparr>"

end
