(* ===== verification/Lifecycle.thy ===== *)
theory Lifecycle
  imports Models
begin

text \<open>
  The lifecycle of one player under any sequence of the operations the tasks of the service perform
  on it, taken as indivisible: the worker's claim, release and match, the cancel handler's evict,
  and the Reaper's reset (src/src/workers/mod.rs).  The abstract machine is the transition
  table of docs/architecture.md; the operations are shown to refine it, and the facts that
  the matcher and the concurrent model rest on are derived here.
\<close>

section \<open>The operations as one alphabet\<close>

text \<open>
  Each operation is one step here, although the source makes several accesses: \<open>try_claim\<close> stores owner
  and time after its compare-and-swap, \<open>release_claim\<close> and \<open>mark_matched\<close> store before theirs, and the
  Reaper makes the player available first and clears the two claim fields in two later stores, between
  which other tasks see a waiting player whose claim fields are still set.  So everything in this theory is
  about a player whom whole operations use, none of which overlaps another.  Theory Atomic has every
  one of these accesses as a step of its own.

  \<open>reaper_reset\<close> is the Reaper's compare-and-swap with the two stores that follow a success.
\<close>

definition reaper_reset :: "player \<Rightarrow> bool \<times> player" where
  "reaper_reset p =
     (case compare_exchange CLAIMED WAITING p of
        (True, p') \<Rightarrow> (True, p'\<lparr>p_claimed_by := 0, p_claim_timestamp := 0\<rparr>)
      | (False, p') \<Rightarrow> (False, p'))"

datatype player_op =
    Try_claim u64 u64
  | Release_claim
  | Mark_matched instant
  | Try_evict
  | Reaper_reset

text \<open>The flag is the success of the operation's compare-and-swap.\<close>

fun apply_op :: "player_op \<Rightarrow> player \<Rightarrow> bool \<times> player" where
  "apply_op (Try_claim w now_ms) p = try_claim w now_ms p"
| "apply_op Release_claim p = (p_state p = CLAIMED, release_claim p)"
| "apply_op (Mark_matched now) p = (p_state p = CLAIMED, mark_matched now p)"
| "apply_op Try_evict p = try_evict p"
| "apply_op Reaper_reset p = reaper_reset p"

fun run_ops :: "player_op list \<Rightarrow> player \<Rightarrow> bool list \<times> player" where
  "run_ops [] p = ([], p)"
| "run_ops (x # xs) p =
     (let (ok, p') = apply_op x p; (oks, q) = run_ops xs p' in (ok # oks, q))"

named_theorems player_step "what each operation does to a player, branch by branch"

lemma try_claim_step [player_step]:
  "try_claim w t p =
     (if p_state p = WAITING
      then (True, p\<lparr>p_state := CLAIMED, p_claimed_by := w, p_claim_timestamp := t\<rparr>)
      else (False, p))"
  by (simp add: try_claim_def compare_exchange_def)

lemma release_claim_step [player_step]:
  "release_claim p =
     (if p_state p = CLAIMED
      then p\<lparr>p_state := WAITING, p_claimed_by := 0, p_claim_timestamp := 0\<rparr>
      else p\<lparr>p_claimed_by := 0, p_claim_timestamp := 0\<rparr>)"
  by (simp add: release_claim_def compare_exchange_def)

lemma mark_matched_step [player_step]:
  "mark_matched now p =
     (if p_state p = CLAIMED then p\<lparr>p_state := MATCHED, p_matched_at := Some now\<rparr>
      else p\<lparr>p_matched_at := Some now\<rparr>)"
  by (simp add: mark_matched_def compare_exchange_def)

lemma try_evict_step [player_step]:
  "try_evict p = (if p_state p = WAITING then (True, p\<lparr>p_state := EVICTED\<rparr>) else (False, p))"
  by (simp add: try_evict_def compare_exchange_def)

lemma reaper_reset_step [player_step]:
  "reaper_reset p =
     (if p_state p = CLAIMED
      then (True, p\<lparr>p_state := WAITING, p_claimed_by := 0, p_claim_timestamp := 0\<rparr>)
      else (False, p))"
  by (simp add: reaper_reset_def compare_exchange_def)

section \<open>The documented state machine\<close>

inductive lifecycle :: "u8 \<Rightarrow> u8 \<Rightarrow> bool" where
  worker_claims: "lifecycle WAITING CLAIMED"
| cancelled: "lifecycle WAITING EVICTED"
| rolled_back_or_recovered: "lifecycle CLAIMED WAITING"
| matched: "lifecycle CLAIMED MATCHED"

inductive_simps lifecycle_from_matched: "lifecycle MATCHED s"
inductive_simps lifecycle_from_evicted: "lifecycle EVICTED s"
inductive_simps lifecycle_from_waiting: "lifecycle WAITING s"
inductive_simps lifecycle_from_claimed: "lifecycle CLAIMED s"

lemmas lifecycle_from [simp] =
  lifecycle_from_matched lifecycle_from_evicted lifecycle_from_waiting lifecycle_from_claimed

lemma apply_op_lifecycle:
  "if fst (apply_op x p) then lifecycle (p_state p) (p_state (snd (apply_op x p)))
   else p_state (snd (apply_op x p)) = p_state p"
  by (cases x) (auto simp: player_step intro: lifecycle.intros)

lemma apply_op_immutable [simp]:
  "p_id (snd (apply_op x p)) = p_id p"
  "p_skill_rating (snd (apply_op x p)) = p_skill_rating p"
  "p_join_timestamp (snd (apply_op x p)) = p_join_timestamp p"
  by (cases x; simp add: player_step)+

lemma run_ops_Cons [simp]:
  "run_ops (x # xs) p =
     (fst (apply_op x p) # fst (run_ops xs (snd (apply_op x p))),
      snd (run_ops xs (snd (apply_op x p))))"
  by (simp add: split_beta)

declare run_ops.simps(2) [simp del]

lemma run_ops_induct_inv:
  assumes "\<And>x p. P p \<Longrightarrow> P (snd (apply_op x p))" and "P p"
  shows "P (snd (run_ops xs p))"
  using assms(2) by (induction xs arbitrary: p) (simp_all add: assms(1))

lemma terminal_run:
  assumes "s = MATCHED \<or> s = EVICTED" and "p_state (p :: player) = s"
  shows "p_state (snd (run_ops xs p)) = s"
proof (rule run_ops_induct_inv [where P = "\<lambda>p. p_state p = s"])
  fix x and p :: player
  assume "p_state p = s"
  with assms(1) apply_op_lifecycle [of x p] show "p_state (snd (apply_op x p)) = s"
    by (auto split: if_splits)
qed (rule assms(2))

section \<open>Exclusive claims\<close>

fun is_claim :: "player_op \<Rightarrow> bool" where
  "is_claim (Try_claim w t) = True"
| "is_claim _ = False"

fun returns_to_waiting :: "player_op \<Rightarrow> bool" where
  "returns_to_waiting Release_claim = True"
| "returns_to_waiting Reaper_reset = True"
| "returns_to_waiting _ = False"

text \<open>How many operations of a kind succeeded in a run.\<close>

definition successes :: "(player_op \<Rightarrow> bool) \<Rightarrow> player_op list \<Rightarrow> player \<Rightarrow> nat" where
  "successes kind xs p = length (filter (\<lambda>(x, ok). kind x \<and> ok) (zip xs (fst (run_ops xs p))))"

lemma successes_Nil [simp]: "successes kind [] p = 0"
  by (simp add: successes_def)

lemma successes_Cons [simp]:
  "successes kind (x # xs) p =
     (if kind x \<and> fst (apply_op x p) then 1 else 0) + successes kind xs (snd (apply_op x p))"
  by (simp add: successes_def)

lemma claims_bounded:
  "successes is_claim xs p \<le> successes returns_to_waiting xs p + (if p_state p = WAITING then 1 else 0)"
proof (induction xs arbitrary: p)
  case Nil
  then show ?case by simp
next
  case (Cons x xs)
  from Cons [of "snd (apply_op x p)"] show ?case
    by (cases x) (auto simp: player_step split: if_splits)
qed

lemma claims_only_first_wins:
  assumes "p_state p = WAITING" and "\<forall>x \<in> set xs. is_claim x"
  shows "fst (run_ops (Try_claim w t # xs) p) = True # replicate (length xs) False"
    and "p_claimed_by (snd (run_ops (Try_claim w t # xs) p)) = w"
proof -
  have lost: "fst (run_ops xs q) = replicate (length xs) False \<and> snd (run_ops xs q) = q"
    if "p_state q = CLAIMED" for q
    using that assms(2)
  proof (induction xs)
    case (Cons x xs)
    then show ?case by (cases x) (simp_all add: player_step)
  qed simp
  show "fst (run_ops (Try_claim w t # xs) p) = True # replicate (length xs) False"
    and "p_claimed_by (snd (run_ops (Try_claim w t # xs) p)) = w"
    using assms(1) by (simp_all add: player_step lost)
qed

section \<open>Consistency of the claim fields\<close>

definition player_ok :: "player \<Rightarrow> bool" where
  "player_ok p \<longleftrightarrow>
     p_state p \<in> {WAITING, CLAIMED, MATCHED, EVICTED} \<and>
     (p_state p \<in> {WAITING, EVICTED} \<longrightarrow> p_claimed_by p = 0 \<and> p_claim_timestamp p = 0) \<and>
     (p_state p = MATCHED \<longrightarrow> p_matched_at p \<noteq> None)"

lemma player_ok_new: "player_ok (player_new now i r)"
  by (simp add: player_ok_def player_new_def)

lemma player_ok_apply_op: "player_ok p \<Longrightarrow> player_ok (snd (apply_op x p))"
  by (cases x) (auto simp: player_ok_def player_step)

definition player_init :: "player \<Rightarrow> bool" where
  "player_init p \<longleftrightarrow> (\<exists>now i r. p = player_new now i r)"

definition player_next :: "player \<Rightarrow> player \<Rightarrow> bool" where
  "player_next p q \<longleftrightarrow> (\<exists>x. q = snd (apply_op x p))"

interpretation one_player: inductive_invariant player_init player_next player_ok
  by unfold_locales (auto simp: player_init_def player_next_def player_ok_new player_ok_apply_op)

section \<open>Properties\<close>

text \<open>
  C18: Every operation a task performs on a player either fails its compare-and-swap and leaves
  the state word alone, or makes one of the transitions of the documented table; id, rating and
  join time never change.
\<close>
theorem player_refines_lifecycle:
  "(p_state (snd (apply_op x p)) = p_state p \<or>
    lifecycle (p_state p) (p_state (snd (apply_op x p)))) \<and>
   p_id (snd (apply_op x p)) = p_id p \<and>
   p_skill_rating (snd (apply_op x p)) = p_skill_rating p \<and>
   p_join_timestamp (snd (apply_op x p)) = p_join_timestamp p"
  using apply_op_lifecycle [of x p] by (auto split: if_splits)

text \<open>
  However many workers race for one waiting player, only the first claim to execute
  succeeds, every later one fails, and the player records the winner.
\<close>
theorem one_claim_winner:
  assumes "p_state p = WAITING" and "\<forall>x \<in> set xs. is_claim x"
  shows "fst (run_ops (Try_claim w t # xs) p) = True # replicate (length xs) False \<and>
         p_claimed_by (snd (run_ops (Try_claim w t # xs) p)) = w"
  using claims_only_first_wins [OF assms] by blast

theorem one_claim_winner_witness:
  "fst (run_ops (Try_claim 7 99 # [Try_claim 8 99, Try_claim 9 100]) (player_new 5 1 1000)) =
     True # replicate (length [Try_claim 8 99, Try_claim 9 100]) False \<and>
   p_claimed_by (snd (run_ops (Try_claim 7 99 # [Try_claim 8 99, Try_claim 9 100])
     (player_new 5 1 1000))) = 7"
  by (rule one_claim_winner) (simp_all add: player_new_def)

text \<open>
  In any interleaving of operations on one player the successful claims exceed the
  successful returns to the queue (rollbacks and Reaper resets) by at most one, so two claims
  can only both succeed with a return between them.
\<close>
theorem claims_need_returns:
  "successes is_claim xs p \<le> successes returns_to_waiting xs p + 1"
  using claims_bounded [of xs p] by (simp split: if_splits)

text \<open>Matched and evicted are terminal: no sequence of operations leaves them.\<close>
theorem matched_and_evicted_terminal:
  assumes "p_state p = MATCHED \<or> p_state p = EVICTED"
  shows "p_state (snd (run_ops xs p)) = p_state p"
  using assms by (intro terminal_run) auto

theorem matched_and_evicted_terminal_witness:
  "p_state (snd (run_ops [Release_claim, Reaper_reset, Try_claim 1 1]
     ((player_new 0 1 1000)\<lparr>p_state := MATCHED\<rparr>))) =
   p_state ((player_new 0 1 1000)\<lparr>p_state := MATCHED\<rparr>)"
  by (rule matched_and_evicted_terminal) simp

text \<open>
  C40: A player whom whole operations use one after the other, each with its compare-and-swap and its
  stores as one step, is between any two of them in one of the four states, carries no claim fields
  while waiting or evicted, and has its match time once matched.  (Between the accesses of one
  operation this does not hold: the Reaper clears the fields of a player who waits already.)
\<close>
theorem reachable_player_ok:
  assumes "reach player_init player_next p"
  shows "player_ok p"
  using assms by (rule one_player.reachable_inv)

theorem reachable_player_ok_witness:
  "player_ok (snd (apply_op (Mark_matched 9) (snd (apply_op (Try_claim 1 5) (player_new 3 1 1000)))))"
proof (rule reachable_player_ok)
  have "reach player_init player_next (player_new 3 1 1000)"
    by (rule reach_init) (auto simp: player_init_def)
  then show "reach player_init player_next
      (snd (apply_op (Mark_matched 9) (snd (apply_op (Try_claim 1 5) (player_new 3 1 1000)))))"
    by (meson player_next_def reach_step)
qed

end
