(* ===== verification/Containers.thy ===== *)
theory Containers
  imports Prelude "HOL-Library.AList"
begin

text \<open>
  The two map types of the player pool.

  \<open>BTreeMap\<close> belongs to the standard library and is modelled: an association list in strictly
  ascending key order.  \<open>DashMap\<close> is a third-party crate, so it is a parameter: a record of the
  operations the pool calls.  Both meet one contract, the locale \<open>keyed_map\<close>, whose laws are
  what their documentation promises: what a lookup returns after an insertion or a removal, and
  that iteration visits every entry exactly once, in an order the contract leaves open.
\<close>

section \<open>The contract\<close>

locale keyed_map =
  fixes invar :: "'m \<Rightarrow> bool"
    and new :: "'m"
    and get :: "'m \<Rightarrow> 'k \<Rightarrow> 'v option"
    and insert :: "'k \<Rightarrow> 'v \<Rightarrow> 'm \<Rightarrow> 'm"
    and remove :: "'k \<Rightarrow> 'm \<Rightarrow> 'm"
    and iter :: "'m \<Rightarrow> ('k \<times> 'v) list"
  assumes invar_new: "invar new"
    and invar_insert: "invar m \<Longrightarrow> invar (insert k v m)"
    and invar_remove: "invar m \<Longrightarrow> invar (remove k m)"
    and get_new: "get new = (\<lambda>_. None)"
    and get_insert: "invar m \<Longrightarrow> get (insert k v m) = (get m)(k \<mapsto> v)"
    and get_remove: "invar m \<Longrightarrow> get (remove k m) = (get m)(k := None)"
    and distinct_iter: "invar m \<Longrightarrow> distinct (map fst (iter m))"
    and map_of_iter: "invar m \<Longrightarrow> map_of (iter m) = get m"
begin

lemma set_iter: "invar m \<Longrightarrow> (k, v) \<in> set (iter m) \<longleftrightarrow> get m k = Some v"
  using distinct_iter [of m] by (simp add: map_of_iter [symmetric])

lemma set_iter_conv: "invar m \<Longrightarrow> set (iter m) = {(k, v). get m k = Some v}"
  using set_iter by auto

lemma dom_iter: "invar m \<Longrightarrow> fst ` set (iter m) = dom (get m)"
  by (simp add: map_of_iter [symmetric] dom_map_of_conv_image_fst)

lemma finite_dom: "invar m \<Longrightarrow> finite (dom (get m))"
  by (simp flip: dom_iter)

lemma distinct_iter_entries: "invar m \<Longrightarrow> distinct (iter m)"
  using distinct_iter distinct_map by blast

lemma length_iter: "invar m \<Longrightarrow> length (iter m) = card (dom (get m))"
  by (metis distinct_card distinct_iter dom_iter image_set length_map)

lemma iter_new: "iter new = []"
  using map_of_iter [OF invar_new] by (simp add: get_new)

lemma length_iter_insert:
  assumes "invar m" and "get m k = None"
  shows "length (iter (insert k v m)) = Suc (length (iter m))"
proof -
  have "k \<notin> dom (get m)" using assms(2) by auto
  with assms finite_dom [OF assms(1)] show ?thesis
    by (simp add: length_iter invar_insert get_insert)
qed

lemma length_iter_remove:
  assumes "invar m" and "get m k = Some v"
  shows "Suc (length (iter (remove k m))) = length (iter m)"
proof -
  have "k \<in> dom (get m)" using assms(2) by auto
  from card_Suc_Diff1 [OF finite_dom [OF assms(1)] this] show ?thesis
    by (simp only: length_iter invar_remove get_remove assms(1) dom_fun_upd simp_thms if_True)
qed

end

section \<open>BTreeMap\<close>

type_synonym ('k, 'v) btree = "('k \<times> 'v) list"

definition bt_ok :: "('k::linorder, 'v) btree \<Rightarrow> bool" where
  "bt_ok m \<longleftrightarrow> sorted_wrt (<) (map fst m)"

lemma bt_unique:
  assumes "map_of m = map_of m'" and "bt_ok m" and "bt_ok m'"
  shows "m = m'"
proof (rule map_sorted_distinct_set_unique [where f = fst])
  have distinct: "distinct (map fst m)" "distinct (map fst m')"
    using assms(2,3) by (simp_all add: bt_ok_def strict_sorted_iff)
  then show "set m = set m'"
    using assms(1) by (metis (no_types, opaque_lifting) map_of_eq_Some_iff subsetI subset_antisym surj_pair)
  show "inj_on fst (set m \<union> set m')" using distinct \<open>set m = set m'\<close> by (simp add: distinct_map)
qed (use assms(2,3) in \<open>simp_all add: bt_ok_def strict_sorted_iff\<close>)

fun bt_insert :: "'k::linorder \<Rightarrow> 'v \<Rightarrow> ('k, 'v) btree \<Rightarrow> ('k, 'v) btree" where
  "bt_insert k v [] = [(k, v)]"
| "bt_insert k v ((k', v') # m) =
     (if k < k' then (k, v) # (k', v') # m
      else if k = k' then (k, v) # m
      else (k', v') # bt_insert k v m)"

fun bt_remove :: "'k::linorder \<Rightarrow> ('k, 'v) btree \<Rightarrow> ('k, 'v) btree" where
  "bt_remove k [] = []"
| "bt_remove k ((k', v') # m) =
     (if k < k' then (k', v') # m else if k = k' then m else (k', v') # bt_remove k m)"

text \<open>\<open>BTreeMap::range(lower..=upper)\<close> panics when the bounds are reversed.\<close>

definition bt_range :: "'k::linorder \<Rightarrow> 'k \<Rightarrow> ('k, 'v) btree \<Rightarrow> ('k, 'v) btree option" where
  "bt_range lower upper m =
     (if upper < lower then None else Some (filter (\<lambda>(k, _). lower \<le> k \<and> k \<le> upper) m))"

lemma bt_ok_Nil [simp]: "bt_ok []"
  by (simp add: bt_ok_def)

lemma bt_ok_Cons [simp]: "bt_ok ((k, v) # m) \<longleftrightarrow> (\<forall>e \<in> set m. k < fst e) \<and> bt_ok m"
  by (simp add: bt_ok_def)

lemma bt_keys_above:
  assumes "bt_ok ((k', v') # m)" and "k < k'"
  shows "\<forall>e \<in> set ((k', v') # m). k < fst e"
  using assms by (auto intro: less_trans)

lemma set_bt_insert:
  "bt_ok m \<Longrightarrow> set (bt_insert k v m) = insert (k, v) {e \<in> set m. fst e \<noteq> k}"
proof (induction k v m rule: bt_insert.induct)
  case (2 k v k' v' m)
  consider "k < k'" | "k = k'" | "k' < k" by (rule linorder_cases)
  then show ?case
  proof cases
    case 1
    with bt_keys_above [OF "2.prems" this] show ?thesis by force
  next
    case 2
    with \<open>bt_ok ((k', v') # m)\<close> show ?thesis by force
  next
    case 3
    then have "\<not> k < k'" "k \<noteq> k'" by auto
    with 2 show ?thesis by auto
  qed
qed simp

lemma set_bt_remove: "bt_ok m \<Longrightarrow> set (bt_remove k m) = {e \<in> set m. fst e \<noteq> k}"
proof (induction k m rule: bt_remove.induct)
  case (2 k k' v' m)
  consider "k < k'" | "k = k'" | "k' < k" by (rule linorder_cases)
  then show ?case
  proof cases
    case 1
    with bt_keys_above [OF "2.prems" this] show ?thesis by force
  next
    case 2
    with \<open>bt_ok ((k', v') # m)\<close> show ?thesis by force
  next
    case 3
    then have "\<not> k < k'" "k \<noteq> k'" by auto
    with 2 show ?thesis by auto
  qed
qed simp

lemma bt_ok_insert: "bt_ok m \<Longrightarrow> bt_ok (bt_insert k v m)"
  by (induction k v m rule: bt_insert.induct) (auto simp: set_bt_insert)

lemma bt_ok_remove: "bt_ok m \<Longrightarrow> bt_ok (bt_remove k m)"
  by (induction k m rule: bt_remove.induct) (auto simp: set_bt_remove)

lemma bt_ok_distinct: "bt_ok m \<Longrightarrow> distinct (map fst m)"
  by (auto simp: bt_ok_def strict_sorted_iff)

lemma map_of_bt_insert: "bt_ok m \<Longrightarrow> map_of (bt_insert k v m) = (map_of m)(k \<mapsto> v)"
  by (induction k v m rule: bt_insert.induct) (auto simp: fun_eq_iff)

lemma map_of_not_key: "\<forall>e \<in> set m. k < fst e \<Longrightarrow> map_of m (k :: 'k::linorder) = None"
  by (induction m) auto

lemma map_of_bt_remove: "bt_ok m \<Longrightarrow> map_of (bt_remove k m) = (map_of m)(k := None)"
proof (induction k m rule: bt_remove.induct)
  case (2 k k' v' m)
  have "k < k' \<Longrightarrow> map_of m k = None" using 2 by (intro map_of_not_key) auto
  moreover have "map_of m k' = None" using 2 by (intro map_of_not_key) auto
  ultimately show ?case using 2 by (auto simp: fun_eq_iff)
qed (simp add: fun_eq_iff)

interpretation btree: keyed_map bt_ok "[]" map_of bt_insert bt_remove "\<lambda>m. m"
  by unfold_locales
    (auto simp: bt_ok_insert bt_ok_remove map_of_bt_insert map_of_bt_remove bt_ok_distinct)

lemma bt_ok_filter: "bt_ok m \<Longrightarrow> bt_ok (filter P m)"
  by (simp add: bt_ok_def sorted_wrt_map sorted_wrt_filter)

lemma bt_range_Some:
  assumes "bt_range lower upper m = Some es" and "bt_ok m"
  shows "bt_ok es" and "set es = {e \<in> set m. lower \<le> fst e \<and> fst e \<le> upper}"
  using assms by (auto simp: bt_range_def bt_ok_filter split: if_splits)

section \<open>DashMap\<close>

text \<open>The operations of the crate that the pool calls, on an abstract map type.\<close>

record ('m, 'k, 'v) dash_ops =
  dm_new :: 'm
  dm_get :: "'m \<Rightarrow> 'k \<Rightarrow> 'v option"
  dm_insert :: "'k \<Rightarrow> 'v \<Rightarrow> 'm \<Rightarrow> 'm"
  dm_remove :: "'k \<Rightarrow> 'm \<Rightarrow> 'm"
  dm_iter :: "'m \<Rightarrow> ('k \<times> 'v) list"
  dm_len :: "'m \<Rightarrow> nat"

text \<open>
  The named hypothesis on the crate: its map obeys the contract and \<open>len\<close> counts the entries.
  The crate maintains its own invariant, so there is no invariant for callers to establish.
\<close>

definition dashmap :: "('m, 'k, 'v) dash_ops \<Rightarrow> bool" where
  "dashmap D \<longleftrightarrow>
     keyed_map (\<lambda>_. True) (dm_new D) (dm_get D) (dm_insert D) (dm_remove D) (dm_iter D) \<and>
     (\<forall>m. dm_len D m = length (dm_iter D m))"

lemma dashmap_keyed_map:
  "dashmap D \<Longrightarrow>
     keyed_map (\<lambda>_. True) (dm_new D) (dm_get D) (dm_insert D) (dm_remove D) (dm_iter D)"
  by (simp add: dashmap_def)

text \<open>The laws of the contract, read on the operations of the crate.\<close>

lemmas dashmap_get_new = keyed_map.get_new [OF dashmap_keyed_map]
lemmas dashmap_get_insert = keyed_map.get_insert [OF dashmap_keyed_map TrueI]
lemmas dashmap_get_remove = keyed_map.get_remove [OF dashmap_keyed_map TrueI]
lemmas dashmap_set_iter = keyed_map.set_iter [OF dashmap_keyed_map TrueI]
lemmas dashmap_distinct_iter = keyed_map.distinct_iter_entries [OF dashmap_keyed_map TrueI]
lemmas dashmap_length_iter = keyed_map.length_iter [OF dashmap_keyed_map TrueI]
lemmas dashmap_finite_dom = keyed_map.finite_dom [OF dashmap_keyed_map TrueI]
lemmas dashmap_iter_new = keyed_map.iter_new [OF dashmap_keyed_map]

lemma dashmap_len: "dashmap D \<Longrightarrow> dm_len D m = card (dom (dm_get D m))"
  by (simp add: dashmap_length_iter [symmetric]) (simp add: dashmap_def)

text \<open>
  Two instances that differ in the order of iteration, so that the hypothesis can be seen to
  hold and results can be seen not to depend on the order.
\<close>

definition dash_alist :: "(('k \<times> 'v) list, 'k, 'v) dash_ops" where
  "dash_alist =
     \<lparr>dm_new = [], dm_get = map_of, dm_insert = AList.update, dm_remove = AList.delete,
      dm_iter = AList.clearjunk, dm_len = (\<lambda>m. length (AList.clearjunk m))\<rparr>"

definition dash_alist_rev :: "(('k \<times> 'v) list, 'k, 'v) dash_ops" where
  "dash_alist_rev =
     \<lparr>dm_new = [], dm_get = map_of, dm_insert = AList.update, dm_remove = AList.delete,
      dm_iter = (\<lambda>m. rev (AList.clearjunk m)), dm_len = (\<lambda>m. length (AList.clearjunk m))\<rparr>"

interpretation alist: keyed_map "\<lambda>_. True" "[]" map_of AList.update AList.delete AList.clearjunk
  by unfold_locales
    (auto simp: update_conv' delete_conv' distinct_clearjunk map_of_clearjunk fun_eq_iff)

interpretation alist_rev: keyed_map "\<lambda>_. True" "[]" map_of AList.update AList.delete
    "\<lambda>m. rev (AList.clearjunk m)"
proof unfold_locales
  fix m :: "('a \<times> 'b) list"
  have distinct: "distinct (map fst (AList.clearjunk m))" by (rule distinct_clearjunk)
  then show "distinct (map fst (rev (AList.clearjunk m)))" by (simp add: rev_map [symmetric])
  show "map_of (rev (AList.clearjunk m)) = map_of m"
    unfolding map_of_clearjunk [of m, symmetric]
    by (rule map_of_inject_set [THEN iffD2]) (use distinct in \<open>auto simp: rev_map [symmetric]\<close>)
qed (simp_all add: update_conv' delete_conv')

lemma dashmap_dash_alist [simp]: "dashmap dash_alist"
  using alist.keyed_map_axioms by (simp add: dashmap_def dash_alist_def)

lemma dashmap_dash_alist_rev [simp]: "dashmap dash_alist_rev"
  using alist_rev.keyed_map_axioms by (simp add: dashmap_def dash_alist_rev_def)

end
