(* ===== verification/Config.thy ===== *)
theory Config
  imports Prelude
begin

text \<open>
  Model of src/src/config/mod.rs: the configuration record, the parser of one environment
  variable and the loader with its cross-field validation.

  The environment is the map \<open>std::env::var\<close> reads after \<open>dotenvy::dotenv()\<close> has run (an
  external call): \<open>None\<close> where it returns an error.  A string is its list of code points up to
  U+00FF.  The integer types the loader parses are described by a tag with the type's width and
  name; a parsed value is a natural below \<open>2 ^ bits\<close>.
\<close>

section \<open>Parsing unsigned integers\<close>

datatype uint_ty = U16 | U32 | U64 | Usize

fun ty_bits :: "uint_ty \<Rightarrow> nat" where
  "ty_bits U16 = 16" | "ty_bits U32 = 32" | "ty_bits U64 = 64" | "ty_bits Usize = 64"

fun ty_name :: "uint_ty \<Rightarrow> string" where
  "ty_name U16 = ''u16''" | "ty_name U32 = ''u32''" | "ty_name U64 = ''u64''" | "ty_name Usize = ''usize''"

datatype parse_int_error = Empty | InvalidDigit | PosOverflow

fun parse_int_error_display :: "parse_int_error \<Rightarrow> string" where
  "parse_int_error_display Empty = ''cannot parse integer from empty string''"
| "parse_int_error_display InvalidDigit = ''invalid digit found in string''"
| "parse_int_error_display PosOverflow = ''number too large to fit in target type''"

definition digit_value :: "char \<Rightarrow> nat option" where
  "digit_value c =
     (let n = of_char c :: nat in if 48 \<le> n \<and> n \<le> 57 then Some (n - 48) else None)"

definition digit_char :: "nat \<Rightarrow> char" where
  "digit_char d = char_of (48 + d)"

text \<open>The checked loop of \<open>from_str_radix\<close>: an invalid digit is noticed before an overflow.\<close>

fun parse_digits :: "nat \<Rightarrow> nat \<Rightarrow> string \<Rightarrow> parse_int_error + nat" where
  "parse_digits bits acc [] = Inr acc"
| "parse_digits bits acc (c # cs) =
     (case digit_value c of
        None \<Rightarrow> Inl InvalidDigit
      | Some d \<Rightarrow> if 2 ^ bits \<le> acc * 10 + d then Inl PosOverflow
                  else parse_digits bits (acc * 10 + d) cs)"

definition parse_uint :: "nat \<Rightarrow> string \<Rightarrow> parse_int_error + nat" where
  "parse_uint bits s =
     (case s of
        [] \<Rightarrow> Inl Empty
      | [c] \<Rightarrow> if c = CHR ''+'' \<or> c = CHR ''-'' then Inl InvalidDigit else parse_digits bits 0 s
      | c # cs \<Rightarrow> if c = CHR ''+'' then parse_digits bits 0 cs else parse_digits bits 0 s)"

fun show_nat :: "nat \<Rightarrow> string" where
  "show_nat n = (if n < 10 then [digit_char n] else show_nat (n div 10) @ [digit_char (n mod 10)])"

declare show_nat.simps [simp del]

text \<open>Code points below 256 with the White\_Space property.\<close>

definition is_whitespace :: "char \<Rightarrow> bool" where
  "is_whitespace c =
     (let n = of_char c :: nat in (9 \<le> n \<and> n \<le> 13) \<or> n = 32 \<or> n = 133 \<or> n = 160)"

definition trim :: "string \<Rightarrow> string" where
  "trim s = rev (dropWhile is_whitespace (rev (dropWhile is_whitespace s)))"

section \<open>The configuration\<close>

datatype config_error =
    Missing string string
  | Invalid string string string
  | Constraint string

record config =
  server_port :: u16
  worker_count :: usize
  worker_tick_ms :: u64
  stale_claim_timeout_ms :: u64
  relaxation_stage_1_ms :: u64
  relaxation_stage_2_ms :: u64
  relaxation_stage_3_ms :: u64
  relaxation_stage_4_ms :: u64
  relaxation_stage_1_delta :: u32
  relaxation_stage_2_delta :: u32
  relaxation_stage_3_delta :: u32
  relaxation_stage_4_delta :: u32
  relaxation_stage_5_delta :: u32

type_synonym env = "string \<Rightarrow> string option"

definition parse_env_range ::
    "env \<Rightarrow> uint_ty \<Rightarrow> string \<Rightarrow> nat \<Rightarrow> nat \<Rightarrow> nat \<Rightarrow> config_error + nat" where
  "parse_env_range env ty name lo hi dflt =
     (case env name of
        None \<Rightarrow> Inr dflt
      | Some raw \<Rightarrow>
          (case parse_uint (ty_bits ty) (trim raw) of
             Inl e \<Rightarrow> Inl (Invalid name (''a valid '' @ ty_name ty)
                         (raw @ '' ('' @ parse_int_error_display e @ '')''))
           | Inr value \<Rightarrow>
               if value < lo \<or> value > hi
               then Inl (Invalid name (''a value between '' @ show_nat lo @ '' and '' @ show_nat hi)
                          (show_nat value))
               else Inr value))"

definition and_then :: "'e + 'a \<Rightarrow> ('a \<Rightarrow> 'e + 'b) \<Rightarrow> 'e + 'b" where
  "and_then r f = (case r of Inl e \<Rightarrow> Inl e | Inr x \<Rightarrow> f x)"

lemma and_then_simps [simp]: "and_then (Inl e) f = Inl e" "and_then (Inr x) f = f x"
  by (simp_all add: and_then_def)

lemma and_then_Inr_iff: "and_then r f = Inr y \<longleftrightarrow> (\<exists>x. r = Inr x \<and> f x = Inr y)"
  by (cases r) auto

lemma and_then_Inl_iff: "and_then r f = Inl e \<longleftrightarrow> r = Inl e \<or> (\<exists>x. r = Inr x \<and> f x = Inl e)"
  by (cases r) auto

definition show_word :: "'a::len word \<Rightarrow> string" where
  "show_word w = show_nat (unat w)"

text \<open>
  \<open>Display\<close>: the output is UTF-8, so \<open>\<plusminus>\<close> is two characters here and \<open>\<infinity>\<close> three.
\<close>

fun config_error_display :: "config_error \<Rightarrow> string" where
  "config_error_display (Missing var what) =
     ''Missing environment variable '' @ [CHR 0x27] @ var @ [CHR 0x27] @ '': '' @ what"
| "config_error_display (Invalid var expected actual) =
     ''Invalid value for '' @ [CHR 0x27] @ var @ [CHR 0x27] @ '': expected '' @ expected @
     '', got '' @ [CHR 0x27] @ actual @ [CHR 0x27]"
| "config_error_display (Constraint what) = ''Configuration constraint violated: '' @ what"

definition stage_display :: "u64 \<Rightarrow> u32 \<Rightarrow> string" where
  "stage_display ms delta = show_word ms @ ''ms/'' @ [CHR 0xC2, CHR 0xB1] @ show_word delta"

definition config_display :: "config \<Rightarrow> string" where
  "config_display c =
     ''Config { port='' @ show_word (server_port c) @ '', workers='' @ show_nat (worker_count c) @
     '', tick='' @ show_word (worker_tick_ms c) @ ''ms, stale_timeout='' @
     show_word (stale_claim_timeout_ms c) @ ''ms, relaxation=['' @
     stage_display (relaxation_stage_1_ms c) (relaxation_stage_1_delta c) @ '', '' @
     stage_display (relaxation_stage_2_ms c) (relaxation_stage_2_delta c) @ '', '' @
     stage_display (relaxation_stage_3_ms c) (relaxation_stage_3_delta c) @ '', '' @
     stage_display (relaxation_stage_4_ms c) (relaxation_stage_4_delta c) @ '', '' @
     [CHR 0xE2, CHR 0x88, CHR 0x9E] @ ''/'' @ [CHR 0xC2, CHR 0xB1] @
     show_word (relaxation_stage_5_delta c) @ ''] }''"

definition order_violation :: "string \<Rightarrow> 'a::len word \<Rightarrow> string \<Rightarrow> string \<Rightarrow> 'a word \<Rightarrow> string" where
  "order_violation a x rel b y =
     a @ '' ('' @ show_word x @ '') must be '' @ rel @ '' '' @ b @ '' ('' @ show_word y @ '')''"

definition validate :: "config \<Rightarrow> config_error + unit" where
  "validate c =
     (if relaxation_stage_1_ms c \<ge> relaxation_stage_2_ms c then
        Inl (Constraint (order_violation ''RELAXATION_STAGE_1_MS'' (relaxation_stage_1_ms c)
          ''less than'' ''RELAXATION_STAGE_2_MS'' (relaxation_stage_2_ms c)))
      else if relaxation_stage_2_ms c \<ge> relaxation_stage_3_ms c then
        Inl (Constraint (order_violation ''RELAXATION_STAGE_2_MS'' (relaxation_stage_2_ms c)
          ''less than'' ''RELAXATION_STAGE_3_MS'' (relaxation_stage_3_ms c)))
      else if relaxation_stage_3_ms c \<ge> relaxation_stage_4_ms c then
        Inl (Constraint (order_violation ''RELAXATION_STAGE_3_MS'' (relaxation_stage_3_ms c)
          ''less than'' ''RELAXATION_STAGE_4_MS'' (relaxation_stage_4_ms c)))
      else if relaxation_stage_1_delta c > relaxation_stage_2_delta c then
        Inl (Constraint (order_violation ''RELAXATION_STAGE_1_DELTA'' (relaxation_stage_1_delta c)
          ''<='' ''RELAXATION_STAGE_2_DELTA'' (relaxation_stage_2_delta c)))
      else if relaxation_stage_2_delta c > relaxation_stage_3_delta c then
        Inl (Constraint (order_violation ''RELAXATION_STAGE_2_DELTA'' (relaxation_stage_2_delta c)
          ''<='' ''RELAXATION_STAGE_3_DELTA'' (relaxation_stage_3_delta c)))
      else if relaxation_stage_3_delta c > relaxation_stage_4_delta c then
        Inl (Constraint (order_violation ''RELAXATION_STAGE_3_DELTA'' (relaxation_stage_3_delta c)
          ''<='' ''RELAXATION_STAGE_4_DELTA'' (relaxation_stage_4_delta c)))
      else if relaxation_stage_4_delta c > relaxation_stage_5_delta c then
        Inl (Constraint (order_violation ''RELAXATION_STAGE_4_DELTA'' (relaxation_stage_4_delta c)
          ''<='' ''RELAXATION_STAGE_5_DELTA'' (relaxation_stage_5_delta c)))
      else if stale_claim_timeout_ms c \<le> worker_tick_ms c then
        Inl (Constraint (order_violation ''STALE_CLAIM_TIMEOUT_MS'' (stale_claim_timeout_ms c)
          ''greater than'' ''WORKER_TICK_MS'' (worker_tick_ms c) @
          ''. Otherwise the Reaper may reset claims that are still in progress.''))
      else Inr ())"

text \<open>
  \<open>Config::from_env\<close>: thirteen fallible fields in the order the source has them, each with its
  type, range and default, then the validation.
\<close>

definition from_env :: "env \<Rightarrow> config_error + config" where
  "from_env env =
     and_then (parse_env_range env U16 ''SERVER_PORT'' 1024 65535 8080) (\<lambda>port.
     and_then (parse_env_range env Usize ''WORKER_COUNT'' 1 64 4) (\<lambda>workers.
     and_then (parse_env_range env U64 ''WORKER_TICK_MS'' 10 10000 50) (\<lambda>tick.
     and_then (parse_env_range env U64 ''STALE_CLAIM_TIMEOUT_MS'' 100 30000 500) (\<lambda>stale.
     and_then (parse_env_range env U64 ''RELAXATION_STAGE_1_MS'' 1 300000 5000) (\<lambda>m1.
     and_then (parse_env_range env U64 ''RELAXATION_STAGE_2_MS'' 1 300000 15000) (\<lambda>m2.
     and_then (parse_env_range env U64 ''RELAXATION_STAGE_3_MS'' 1 300000 30000) (\<lambda>m3.
     and_then (parse_env_range env U64 ''RELAXATION_STAGE_4_MS'' 1 300000 60000) (\<lambda>m4.
     and_then (parse_env_range env U32 ''RELAXATION_STAGE_1_DELTA'' 0 10000 50) (\<lambda>d1.
     and_then (parse_env_range env U32 ''RELAXATION_STAGE_2_DELTA'' 0 10000 100) (\<lambda>d2.
     and_then (parse_env_range env U32 ''RELAXATION_STAGE_3_DELTA'' 0 10000 200) (\<lambda>d3.
     and_then (parse_env_range env U32 ''RELAXATION_STAGE_4_DELTA'' 0 10000 400) (\<lambda>d4.
     and_then (parse_env_range env U32 ''RELAXATION_STAGE_5_DELTA'' 0 10000 9999) (\<lambda>d5.
     let config =
       \<lparr>server_port = word_of_nat port, worker_count = workers,
        worker_tick_ms = word_of_nat tick, stale_claim_timeout_ms = word_of_nat stale,
        relaxation_stage_1_ms = word_of_nat m1, relaxation_stage_2_ms = word_of_nat m2,
        relaxation_stage_3_ms = word_of_nat m3, relaxation_stage_4_ms = word_of_nat m4,
        relaxation_stage_1_delta = word_of_nat d1, relaxation_stage_2_delta = word_of_nat d2,
        relaxation_stage_3_delta = word_of_nat d3, relaxation_stage_4_delta = word_of_nat d4,
        relaxation_stage_5_delta = word_of_nat d5\<rparr>
     in and_then (validate config) (\<lambda>_. Inr config))))))))))))))"

definition default_config :: config where
  "default_config =
     \<lparr>server_port = 8080, worker_count = 4, worker_tick_ms = 50, stale_claim_timeout_ms = 500,
      relaxation_stage_1_ms = 5000, relaxation_stage_2_ms = 15000,
      relaxation_stage_3_ms = 30000, relaxation_stage_4_ms = 60000,
      relaxation_stage_1_delta = 50, relaxation_stage_2_delta = 100,
      relaxation_stage_3_delta = 200, relaxation_stage_4_delta = 400,
      relaxation_stage_5_delta = 9999\<rparr>"

section \<open>Well-formed configurations\<close>

definition config_ok :: "config \<Rightarrow> bool" where
  "config_ok c \<longleftrightarrow>
     1024 \<le> unat (server_port c) \<and>
     1 \<le> worker_count c \<and> worker_count c \<le> 64 \<and>
     10 \<le> unat (worker_tick_ms c) \<and> unat (worker_tick_ms c) \<le> 10000 \<and>
     100 \<le> unat (stale_claim_timeout_ms c) \<and> unat (stale_claim_timeout_ms c) \<le> 30000 \<and>
     1 \<le> unat (relaxation_stage_1_ms c) \<and> unat (relaxation_stage_4_ms c) \<le> 300000 \<and>
     relaxation_stage_1_ms c < relaxation_stage_2_ms c \<and>
     relaxation_stage_2_ms c < relaxation_stage_3_ms c \<and>
     relaxation_stage_3_ms c < relaxation_stage_4_ms c \<and>
     relaxation_stage_1_delta c \<le> relaxation_stage_2_delta c \<and>
     relaxation_stage_2_delta c \<le> relaxation_stage_3_delta c \<and>
     relaxation_stage_3_delta c \<le> relaxation_stage_4_delta c \<and>
     relaxation_stage_4_delta c \<le> relaxation_stage_5_delta c \<and>
     unat (relaxation_stage_5_delta c) \<le> 10000 \<and>
     worker_tick_ms c < stale_claim_timeout_ms c"

lemma default_config_ok [simp]: "config_ok default_config"
  by (simp add: config_ok_def default_config_def)

lemma validate_Inr:
  "validate c = Inr u \<longleftrightarrow>
     relaxation_stage_1_ms c < relaxation_stage_2_ms c \<and>
     relaxation_stage_2_ms c < relaxation_stage_3_ms c \<and>
     relaxation_stage_3_ms c < relaxation_stage_4_ms c \<and>
     relaxation_stage_1_delta c \<le> relaxation_stage_2_delta c \<and>
     relaxation_stage_2_delta c \<le> relaxation_stage_3_delta c \<and>
     relaxation_stage_3_delta c \<le> relaxation_stage_4_delta c \<and>
     relaxation_stage_4_delta c \<le> relaxation_stage_5_delta c \<and>
     worker_tick_ms c < stale_claim_timeout_ms c"
  by (simp add: validate_def not_le not_less)

lemma validate_Inl: "validate c = Inl e \<Longrightarrow> \<exists>msg. e = Constraint msg"
  by (auto simp: validate_def split: if_splits)

lemma parse_env_range_bounds:
  "parse_env_range env ty name lo hi dflt = Inr v \<Longrightarrow> lo \<le> dflt \<Longrightarrow> dflt \<le> hi \<Longrightarrow> lo \<le> v \<and> v \<le> hi"
  by (auto simp: parse_env_range_def split: option.splits sum.splits if_splits)

lemma parse_env_range_Inl:
  "parse_env_range env ty name lo hi dflt = Inl e \<Longrightarrow> \<exists>x y. e = Invalid name x y"
  by (auto simp: parse_env_range_def split: option.splits sum.splits if_splits)

lemma unat_word_of_nat_le:
  "n \<le> b \<Longrightarrow> b < 2 ^ LENGTH('a::len) \<Longrightarrow> unat (word_of_nat n :: 'a word) = n"
  by (simp add: unat_of_nat)

lemma from_env_InrE:
  assumes "from_env env = Inr c"
  obtains port workers tick stale m1 m4 d5 where
    "parse_env_range env U16 ''SERVER_PORT'' 1024 65535 8080 = Inr port"
    "parse_env_range env Usize ''WORKER_COUNT'' 1 64 4 = Inr workers"
    "parse_env_range env U64 ''WORKER_TICK_MS'' 10 10000 50 = Inr tick"
    "parse_env_range env U64 ''STALE_CLAIM_TIMEOUT_MS'' 100 30000 500 = Inr stale"
    "parse_env_range env U64 ''RELAXATION_STAGE_1_MS'' 1 300000 5000 = Inr m1"
    "parse_env_range env U64 ''RELAXATION_STAGE_4_MS'' 1 300000 60000 = Inr m4"
    "parse_env_range env U32 ''RELAXATION_STAGE_5_DELTA'' 0 10000 9999 = Inr d5"
    "validate c = Inr ()"
    "server_port c = word_of_nat port" "worker_count c = workers"
    "worker_tick_ms c = word_of_nat tick" "stale_claim_timeout_ms c = word_of_nat stale"
    "relaxation_stage_1_ms c = word_of_nat m1" "relaxation_stage_4_ms c = word_of_nat m4"
    "relaxation_stage_5_delta c = word_of_nat d5"
  using assms unfolding from_env_def Let_def and_then_Inr_iff sum.inject
  by (elim exE conjE) (rule that, assumption+, auto)

lemma from_env_Inr_config_ok: "from_env env = Inr c \<Longrightarrow> config_ok c"
proof (erule from_env_InrE)
  fix port workers tick stale m1 m4 d5
  assume parsed:
    "parse_env_range env U16 ''SERVER_PORT'' 1024 65535 8080 = Inr port"
    "parse_env_range env Usize ''WORKER_COUNT'' 1 64 4 = Inr workers"
    "parse_env_range env U64 ''WORKER_TICK_MS'' 10 10000 50 = Inr tick"
    "parse_env_range env U64 ''STALE_CLAIM_TIMEOUT_MS'' 100 30000 500 = Inr stale"
    "parse_env_range env U64 ''RELAXATION_STAGE_1_MS'' 1 300000 5000 = Inr m1"
    "parse_env_range env U64 ''RELAXATION_STAGE_4_MS'' 1 300000 60000 = Inr m4"
    "parse_env_range env U32 ''RELAXATION_STAGE_5_DELTA'' 0 10000 9999 = Inr d5"
    and valid: "validate c = Inr ()"
    and fields: "server_port c = word_of_nat port" "worker_count c = workers"
    "worker_tick_ms c = word_of_nat tick" "stale_claim_timeout_ms c = word_of_nat stale"
    "relaxation_stage_1_ms c = word_of_nat m1" "relaxation_stage_4_ms c = word_of_nat m4"
    "relaxation_stage_5_delta c = word_of_nat d5"
  note b = parsed [THEN parse_env_range_bounds, simplified]
  have "unat (server_port c) = port" "unat (worker_tick_ms c) = tick"
    "unat (stale_claim_timeout_ms c) = stale" "unat (relaxation_stage_1_ms c) = m1"
    "unat (relaxation_stage_4_ms c) = m4" "unat (relaxation_stage_5_delta c) = d5"
    using b by (simp_all add: fields unat_of_nat)
  with valid b fields(2) show "config_ok c"
    unfolding config_ok_def validate_Inr by simp
qed

section \<open>Printing and parsing\<close>

lemma digit_value_char [simp]: "d < 10 \<Longrightarrow> digit_value (digit_char d) = Some d"
  by (simp add: digit_value_def digit_char_def)

lemma digit_char_value_bound: "digit_value c = Some d \<Longrightarrow> d < 10"
  by (auto simp: digit_value_def Let_def split: if_splits)

lemma parse_digits_append:
  "parse_digits bits acc (xs @ ys) = and_then (parse_digits bits acc xs) (\<lambda>a. parse_digits bits a ys)"
  by (induction bits acc xs rule: parse_digits.induct) (auto split: option.split)

lemma parse_digits_show_nat:
  "0 < bits \<Longrightarrow> parse_digits bits 0 (show_nat n) = (if n < 2 ^ bits then Inr n else Inl PosOverflow)"
proof (induction n rule: show_nat.induct)
  case (1 n)
  show ?case
  proof (cases "n < 10")
    case True
    then show ?thesis by (simp add: show_nat.simps [of n])
  next
    case False
    with 1 have "parse_digits bits 0 (show_nat (n div 10)) =
        (if n div 10 < 2 ^ bits then Inr (n div 10) else Inl PosOverflow)"
      by simp
    with False show ?thesis
      by (subst show_nat.simps) (auto simp: parse_digits_append not_less)
  qed
qed

lemma show_nat_digits: "c \<in> set (show_nat n) \<Longrightarrow> \<exists>d < 10. c = digit_char d"
proof (induction n rule: show_nat.induct)
  case (1 n)
  show ?case
  proof (cases "n < 10")
    case True
    with "1.prems" show ?thesis by (auto simp: show_nat.simps [of n])
  next
    case False
    with "1.prems" have "c \<in> set (show_nat (n div 10)) \<or> c = digit_char (n mod 10)"
      by (auto simp: show_nat.simps [of n])
    then show ?thesis
    proof
      assume "c \<in> set (show_nat (n div 10))"
      with "1.IH" [OF False] show ?thesis .
    next
      assume "c = digit_char (n mod 10)"
      then show ?thesis by (intro exI [of _ "n mod 10"]) simp
    qed
  qed
qed

lemma show_nat_nonempty [simp]: "show_nat n \<noteq> []"
  by (subst show_nat.simps) simp

lemma digit_char_plain:
  "d < 10 \<Longrightarrow> digit_char d \<noteq> CHR ''+'' \<and> digit_char d \<noteq> CHR ''-'' \<and> \<not> is_whitespace (digit_char d)"
proof -
  assume "d < 10"
  then have code: "of_char (digit_char d) = 48 + d" by (simp add: digit_char_def)
  with \<open>d < 10\<close> show ?thesis by (auto simp: is_whitespace_def)
qed

lemma dropWhile_none: "(\<And>c. c \<in> set s \<Longrightarrow> \<not> P c) \<Longrightarrow> s \<noteq> [] \<Longrightarrow> dropWhile P (s @ t) = s @ t"
  by (cases s) auto

lemma trim_pad:
  assumes ws: "\<And>c. c \<in> set ws \<union> set vs \<Longrightarrow> is_whitespace c"
    and s: "\<And>c. c \<in> set s \<Longrightarrow> \<not> is_whitespace c" "s \<noteq> []"
  shows "trim (ws @ s @ vs) = s"
proof -
  have "dropWhile is_whitespace (ws @ s @ vs) = s @ vs"
    using ws s by (subst dropWhile_append2) (auto intro: dropWhile_none)
  moreover have "dropWhile is_whitespace (rev vs @ rev s) = rev s"
    using ws s dropWhile_none [of "rev s" is_whitespace "[]"] by (subst dropWhile_append2) auto
  ultimately show ?thesis by (simp add: trim_def)
qed

lemma show_nat_not_whitespace: "c \<in> set (show_nat n) \<Longrightarrow> \<not> is_whitespace c"
  using show_nat_digits digit_char_plain by fastforce

lemma parse_uint_show_nat:
  assumes "0 < bits"
  shows "parse_uint bits (show_nat n) = (if n < 2 ^ bits then Inr n else Inl PosOverflow)"
proof -
  obtain c cs where s: "show_nat n = c # cs" by (cases "show_nat n") auto
  then obtain d where "d < 10" "c = digit_char d" using show_nat_digits [of c n] by auto
  with digit_char_plain have "c \<noteq> CHR ''+''" "c \<noteq> CHR ''-''" by auto
  then have "parse_uint bits (c # cs) = parse_digits bits 0 (c # cs)"
    by (simp add: parse_uint_def split: list.split)
  with parse_digits_show_nat [OF assms, of n] s show ?thesis by simp
qed

lemma ty_bits_pos [simp]: "0 < ty_bits ty"
  by (cases ty) simp_all

lemma parse_env_range_show:
  assumes "env name = Some (ws @ show_nat v @ vs)" and "\<And>c. c \<in> set ws \<union> set vs \<Longrightarrow> is_whitespace c"
    and "lo \<le> v" and "v \<le> hi" and "hi < 2 ^ ty_bits ty"
  shows "parse_env_range env ty name lo hi dflt = Inr v"
proof -
  have "trim (ws @ show_nat v @ vs) = show_nat v"
    by (rule trim_pad) (use assms(2) show_nat_not_whitespace in auto)
  with assms show ?thesis by (simp add: parse_env_range_def parse_uint_show_nat)
qed

section \<open>The environment that spells a configuration out\<close>

definition env_of :: "config \<Rightarrow> env" where
  "env_of c = map_of
     [(''SERVER_PORT'', show_word (server_port c)),
      (''WORKER_COUNT'', show_nat (worker_count c)),
      (''WORKER_TICK_MS'', show_word (worker_tick_ms c)),
      (''STALE_CLAIM_TIMEOUT_MS'', show_word (stale_claim_timeout_ms c)),
      (''RELAXATION_STAGE_1_MS'', show_word (relaxation_stage_1_ms c)),
      (''RELAXATION_STAGE_2_MS'', show_word (relaxation_stage_2_ms c)),
      (''RELAXATION_STAGE_3_MS'', show_word (relaxation_stage_3_ms c)),
      (''RELAXATION_STAGE_4_MS'', show_word (relaxation_stage_4_ms c)),
      (''RELAXATION_STAGE_1_DELTA'', show_word (relaxation_stage_1_delta c)),
      (''RELAXATION_STAGE_2_DELTA'', show_word (relaxation_stage_2_delta c)),
      (''RELAXATION_STAGE_3_DELTA'', show_word (relaxation_stage_3_delta c)),
      (''RELAXATION_STAGE_4_DELTA'', show_word (relaxation_stage_4_delta c)),
      (''RELAXATION_STAGE_5_DELTA'', show_word (relaxation_stage_5_delta c))]"

lemma parse_env_range_plain:
  "env name = Some (show_nat v) \<Longrightarrow> lo \<le> v \<Longrightarrow> v \<le> hi \<Longrightarrow> hi < 2 ^ ty_bits ty \<Longrightarrow>
   parse_env_range env ty name lo hi dflt = Inr v"
  by (rule parse_env_range_show [where ws = "[]" and vs = "[]"]) simp_all

lemma env_of_lookup:
  "env_of c ''SERVER_PORT'' = Some (show_nat (unat (server_port c)))"
  "env_of c ''WORKER_TICK_MS'' = Some (show_nat (unat (worker_tick_ms c)))"
  "env_of c ''STALE_CLAIM_TIMEOUT_MS'' = Some (show_nat (unat (stale_claim_timeout_ms c)))"
  "env_of c ''RELAXATION_STAGE_1_MS'' = Some (show_nat (unat (relaxation_stage_1_ms c)))"
  "env_of c ''RELAXATION_STAGE_2_MS'' = Some (show_nat (unat (relaxation_stage_2_ms c)))"
  "env_of c ''RELAXATION_STAGE_3_MS'' = Some (show_nat (unat (relaxation_stage_3_ms c)))"
  "env_of c ''RELAXATION_STAGE_4_MS'' = Some (show_nat (unat (relaxation_stage_4_ms c)))"
  "env_of c ''RELAXATION_STAGE_1_DELTA'' = Some (show_nat (unat (relaxation_stage_1_delta c)))"
  "env_of c ''RELAXATION_STAGE_2_DELTA'' = Some (show_nat (unat (relaxation_stage_2_delta c)))"
  "env_of c ''RELAXATION_STAGE_3_DELTA'' = Some (show_nat (unat (relaxation_stage_3_delta c)))"
  "env_of c ''RELAXATION_STAGE_4_DELTA'' = Some (show_nat (unat (relaxation_stage_4_delta c)))"
  "env_of c ''RELAXATION_STAGE_5_DELTA'' = Some (show_nat (unat (relaxation_stage_5_delta c)))"
  "env_of c ''WORKER_COUNT'' = Some (show_nat (worker_count c))"
  by (simp_all add: env_of_def show_word_def)

lemma from_env_env_of:
  assumes ok: "config_ok c"
  shows "from_env (env_of c) = Inr c"
proof -
  from ok have chain: "unat (relaxation_stage_1_ms c) < unat (relaxation_stage_2_ms c)"
      "unat (relaxation_stage_2_ms c) < unat (relaxation_stage_3_ms c)"
      "unat (relaxation_stage_3_ms c) < unat (relaxation_stage_4_ms c)"
      "unat (relaxation_stage_1_delta c) \<le> unat (relaxation_stage_2_delta c)"
      "unat (relaxation_stage_2_delta c) \<le> unat (relaxation_stage_3_delta c)"
      "unat (relaxation_stage_3_delta c) \<le> unat (relaxation_stage_4_delta c)"
      "unat (relaxation_stage_4_delta c) \<le> unat (relaxation_stage_5_delta c)"
    by (simp_all add: config_ok_def word_less_nat_alt word_le_nat_alt)
  have port: "unat (server_port c) \<le> 65535"
    using unsigned_less [of "server_port c", where ?'a = nat] by simp
  have valid: "validate c = Inr ()" using ok by (simp add: validate_Inr config_ok_def)
  note bounds = ok [unfolded config_ok_def] chain port
  have parsed:
    "parse_env_range (env_of c) U16 ''SERVER_PORT'' 1024 65535 8080 = Inr (unat (server_port c))"
    "parse_env_range (env_of c) U64 ''WORKER_TICK_MS'' 10 10000 50 = Inr (unat (worker_tick_ms c))"
    "parse_env_range (env_of c) U64 ''STALE_CLAIM_TIMEOUT_MS'' 100 30000 500 = Inr (unat (stale_claim_timeout_ms c))"
    "parse_env_range (env_of c) U64 ''RELAXATION_STAGE_1_MS'' 1 300000 5000 = Inr (unat (relaxation_stage_1_ms c))"
    "parse_env_range (env_of c) U64 ''RELAXATION_STAGE_2_MS'' 1 300000 15000 = Inr (unat (relaxation_stage_2_ms c))"
    "parse_env_range (env_of c) U64 ''RELAXATION_STAGE_3_MS'' 1 300000 30000 = Inr (unat (relaxation_stage_3_ms c))"
    "parse_env_range (env_of c) U64 ''RELAXATION_STAGE_4_MS'' 1 300000 60000 = Inr (unat (relaxation_stage_4_ms c))"
    "parse_env_range (env_of c) U32 ''RELAXATION_STAGE_1_DELTA'' 0 10000 50 = Inr (unat (relaxation_stage_1_delta c))"
    "parse_env_range (env_of c) U32 ''RELAXATION_STAGE_2_DELTA'' 0 10000 100 = Inr (unat (relaxation_stage_2_delta c))"
    "parse_env_range (env_of c) U32 ''RELAXATION_STAGE_3_DELTA'' 0 10000 200 = Inr (unat (relaxation_stage_3_delta c))"
    "parse_env_range (env_of c) U32 ''RELAXATION_STAGE_4_DELTA'' 0 10000 400 = Inr (unat (relaxation_stage_4_delta c))"
    "parse_env_range (env_of c) U32 ''RELAXATION_STAGE_5_DELTA'' 0 10000 9999 = Inr (unat (relaxation_stage_5_delta c))"
    "parse_env_range (env_of c) Usize ''WORKER_COUNT'' 1 64 4 = Inr (worker_count c)"
    by (rule parse_env_range_plain, rule env_of_lookup; use bounds in simp)+
  show ?thesis
    using parsed valid unfolding from_env_def Let_def by (cases c) (simp del: One_nat_def)
qed

section \<open>Properties\<close>

text \<open>
  C28: A configuration the loader accepts is well formed: every field in its documented range,
  strictly increasing relaxation thresholds, non-decreasing deltas, and a stale-claim timeout
  above the worker tick.
\<close>
theorem from_env_accepts_only_ok:
  assumes "from_env env = Inr c"
  shows "config_ok c"
  using assms by (rule from_env_Inr_config_ok)

theorem from_env_accepts_only_ok_witness: "config_ok default_config"
proof (rule from_env_accepts_only_ok)
  show "from_env (env_of default_config) = Inr default_config"
    by (rule from_env_env_of) (rule default_config_ok)
qed

text \<open>
  C29: Every well-formed configuration can be configured: the environment that spells its fields
  out in decimal loads to exactly that configuration.
\<close>
theorem from_env_complete:
  assumes "config_ok c"
  shows "from_env (env_of c) = Inr c"
  using assms by (rule from_env_env_of)

theorem from_env_complete_witness: "from_env (env_of default_config) = Inr default_config"
  by (rule from_env_complete) simp

text \<open>
  C30: The loader never reports a missing variable: with no variable set it returns the documented
  defaults, and every error it returns is a rejected value or a violated constraint.
\<close>
theorem from_env_defaults_and_errors:
  "from_env (\<lambda>_. None) = Inr default_config \<and> from_env env \<noteq> Inl (Missing var msg)"
proof
  show "from_env (\<lambda>_. None) = Inr default_config"
    by (simp add: from_env_def parse_env_range_def validate_def default_config_def)
  have "\<not> parse_env_range env ty name lo hi dflt = Inl (Missing var msg)" for ty name lo hi dflt
    using parse_env_range_Inl by fastforce
  moreover have "\<not> validate c = Inl (Missing var msg)" for c
    using validate_Inl by fastforce
  ultimately show "from_env env \<noteq> Inl (Missing var msg)"
    by (simp add: from_env_def Let_def and_then_Inl_iff)
qed

text \<open>
  One variable: unset gives the default; a decimal number in any surrounding white space is
  accepted exactly when it lies in the range, and is otherwise rejected under the variable's name.
\<close>
theorem parse_env_range_decimal:
  assumes "\<And>c. c \<in> set ws \<union> set vs \<Longrightarrow> is_whitespace c" and "env name = Some (ws @ show_nat v @ vs)"
    and "hi < 2 ^ ty_bits ty"
  shows "if lo \<le> v \<and> v \<le> hi then parse_env_range env ty name lo hi dflt = Inr v
         else \<exists>x y. parse_env_range env ty name lo hi dflt = Inl (Invalid name x y)"
proof -
  have "trim (ws @ show_nat v @ vs) = show_nat v"
    by (rule trim_pad) (use assms(1) show_nat_not_whitespace in auto)
  with assms show ?thesis
    by (auto simp: parse_env_range_def parse_uint_show_nat)
qed

theorem parse_env_range_decimal_witness:
  "if (1::nat) \<le> 8 \<and> (8::nat) \<le> 64
   then parse_env_range [''WORKER_COUNT'' \<mapsto> '' '' @ show_nat 8 @ '' ''] Usize ''WORKER_COUNT'' 1 64 4 = Inr 8
   else \<exists>x y. parse_env_range [''WORKER_COUNT'' \<mapsto> '' '' @ show_nat 8 @ '' ''] Usize ''WORKER_COUNT'' 1 64 4
          = Inl (Invalid ''WORKER_COUNT'' x y)"
  by (rule parse_env_range_decimal [where ws = "'' ''" and vs = "'' ''"])
    (auto simp: is_whitespace_def)

end
