(* ===== verification/Relaxation.thy ===== *)
theory Relaxation
  imports Config
begin

text \<open>
  Model of src/src/engine/relaxation.rs: the MMR half-width a waiting player accepts, its stage
  number and the bounds of the rating scan.  \<open>now\<close> is the clock reading behind
  \<open>join_timestamp.elapsed()\<close>; each call of the code reads the clock afresh.
\<close>

text \<open>src/src/engine/bucket.rs holds the constant; the scan bounds are its first client.\<close>

definition MAX_SKILL_RATING :: u32 where "MAX_SKILL_RATING = 3000"

definition relaxation_window :: "instant \<Rightarrow> instant \<Rightarrow> config \<Rightarrow> u32" where
  "relaxation_window now join_timestamp c =
     (let t = millis_since now join_timestamp
      in if t < relaxation_stage_1_ms c then relaxation_stage_1_delta c
         else if t < relaxation_stage_2_ms c then relaxation_stage_2_delta c
         else if t < relaxation_stage_3_ms c then relaxation_stage_3_delta c
         else if t < relaxation_stage_4_ms c then relaxation_stage_4_delta c
         else relaxation_stage_5_delta c)"

definition relaxation_stage :: "instant \<Rightarrow> instant \<Rightarrow> config \<Rightarrow> u8" where
  "relaxation_stage now join_timestamp c =
     (let t = millis_since now join_timestamp
      in if t < relaxation_stage_1_ms c then 1
         else if t < relaxation_stage_2_ms c then 2
         else if t < relaxation_stage_3_ms c then 3
         else if t < relaxation_stage_4_ms c then 4
         else 5)"

definition scan_bounds :: "instant \<Rightarrow> u32 \<Rightarrow> instant \<Rightarrow> config \<Rightarrow> u32 \<times> u32" where
  "scan_bounds now skill_rating join_timestamp c =
     (let window = relaxation_window now join_timestamp c;
          min_rating = saturating_sub skill_rating window;
          max_rating = min (saturating_add skill_rating window) MAX_SKILL_RATING
      in (min_rating, max_rating))"

section \<open>Elapsed time\<close>

lemma unat_millis_since:
  "(now - t) div 1000000 < 2 ^ 64 \<Longrightarrow> unat (millis_since now t) = (now - t) div 1000000"
  by (simp add: millis_since_def unat_of_nat)

lemma millis_since_mono:
  assumes "now \<le> later" and "(later - t) div 1000000 < 2 ^ 64"
  shows "millis_since now t \<le> millis_since later t"
proof -
  have "(now - t) div 1000000 \<le> (later - t) div 1000000"
    using assms(1) by (intro div_le_mono diff_le_mono)
  with assms(2) show ?thesis by (simp add: word_le_nat_alt unat_millis_since)
qed

section \<open>The window as a step function of the waited time\<close>

text \<open>The delta of a stage: what the configuration assigns to stages 1 to 5.\<close>

definition stage_delta :: "config \<Rightarrow> u8 \<Rightarrow> u32" where
  "stage_delta c s =
     (if s = 1 then relaxation_stage_1_delta c else if s = 2 then relaxation_stage_2_delta c
      else if s = 3 then relaxation_stage_3_delta c else if s = 4 then relaxation_stage_4_delta c
      else relaxation_stage_5_delta c)"

lemma relaxation_window_stage:
  "relaxation_window now t c = stage_delta c (relaxation_stage now t c)"
  by (simp add: relaxation_window_def relaxation_stage_def stage_delta_def Let_def)

lemma relaxation_stage_range: "1 \<le> relaxation_stage now t c \<and> relaxation_stage now t c \<le> 5"
  by (simp add: relaxation_stage_def Let_def)

lemmas config_chain = config_ok_def word_less_nat_alt word_le_nat_alt

lemma relaxation_stage_mono:
  assumes "config_ok c" and "millis_since now t \<le> millis_since later t"
  shows "relaxation_stage now t c \<le> relaxation_stage later t c"
  using assms by (auto simp: relaxation_stage_def Let_def config_chain)

lemma stage_delta_mono:
  assumes "config_ok c" and "s \<le> s'" and "1 \<le> s" and "s' \<le> 5"
  shows "stage_delta c s \<le> stage_delta c s'"
proof -
  have eqs: "x = y \<longleftrightarrow> unat x = unat y" for x y :: u8
    by (rule word_unat_eq_iff)
  from assms show ?thesis by (auto simp: stage_delta_def config_chain eqs)
qed

lemma stage_delta_bounds:
  assumes "config_ok c"
  shows "relaxation_stage_1_delta c \<le> stage_delta c s \<and> stage_delta c s \<le> relaxation_stage_5_delta c"
  using assms by (auto simp: stage_delta_def config_chain)

lemma relaxation_window_mono:
  assumes "config_ok c" and "millis_since now t \<le> millis_since later t"
  shows "relaxation_window now t c \<le> relaxation_window later t c"
  using assms relaxation_stage_mono relaxation_stage_range
  by (auto simp: relaxation_window_stage intro!: stage_delta_mono)

section \<open>Scan bounds\<close>

lemma unat_scan_bounds:
  "unat (fst (scan_bounds now r t c)) = unat r - unat (relaxation_window now t c)"
  "unat (snd (scan_bounds now r t c)) =
     min (min (unat r + unat (relaxation_window now t c)) (2 ^ 32 - 1)) 3000"
  by (simp_all add: scan_bounds_def Let_def unat_arith_simps MAX_SKILL_RATING_def)

lemma scan_bounds_contain:
  assumes "r \<le> MAX_SKILL_RATING"
  shows "fst (scan_bounds now r t c) \<le> r" and "r \<le> snd (scan_bounds now r t c)"
    and "snd (scan_bounds now r t c) \<le> MAX_SKILL_RATING"
  using assms by (auto simp: word_le_nat_alt unat_scan_bounds MAX_SKILL_RATING_def)

lemma scan_bounds_ordered:
  assumes "r \<le> MAX_SKILL_RATING"
  shows "fst (scan_bounds now r t c) \<le> snd (scan_bounds now r t c)"
  using scan_bounds_contain(1,2) [OF assms] by (rule order.trans)

lemma scan_bounds_iff:
  assumes "x \<le> MAX_SKILL_RATING" and "r \<le> MAX_SKILL_RATING"
  shows "fst (scan_bounds now r t c) \<le> x \<and> x \<le> snd (scan_bounds now r t c) \<longleftrightarrow>
         abs_diff x r \<le> relaxation_window now t c"
  using assms by (auto simp: word_le_nat_alt unat_scan_bounds unat_abs_diff MAX_SKILL_RATING_def)

lemma scan_bounds_full:
  assumes "r \<le> MAX_SKILL_RATING" and "MAX_SKILL_RATING \<le> relaxation_window now t c"
  shows "scan_bounds now r t c = (0, MAX_SKILL_RATING)"
proof -
  have "unat (fst (scan_bounds now r t c)) = unat (0 :: u32)"
    and "unat (snd (scan_bounds now r t c)) = unat MAX_SKILL_RATING"
    using assms by (auto simp: unat_scan_bounds word_le_nat_alt MAX_SKILL_RATING_def)
  then show ?thesis by (metis prod.collapse word_unat_eq_iff)
qed

lemma waited_out_window:
  assumes "config_ok c" and "relaxation_stage_4_ms c \<le> millis_since now t"
  shows "relaxation_window now t c = relaxation_stage_5_delta c"
  using assms by (auto simp: relaxation_window_def Let_def config_chain)

section \<open>Properties\<close>

text \<open>
  C31: Under a validated configuration a waiting player's window never narrows as the clock
  advances, as long as the waited milliseconds fit 64 bits.
\<close>
theorem window_never_narrows:
  assumes "config_ok c" and "now \<le> later" and "(later - t) div 1000000 < 2 ^ 64"
  shows "relaxation_window now t c \<le> relaxation_window later t c \<and>
         relaxation_stage now t c \<le> relaxation_stage later t c"
  using assms by (simp add: relaxation_window_mono relaxation_stage_mono millis_since_mono)

theorem window_never_narrows_witness:
  "relaxation_window 0 0 default_config \<le> relaxation_window 20000000000 0 default_config \<and>
   relaxation_stage 0 0 default_config \<le> relaxation_stage 20000000000 0 default_config"
  by (rule window_never_narrows) simp_all

text \<open>
  The stage is always one of 1 to 5, the window is exactly the delta configured for that
  stage, and under a validated configuration it lies between the first and the last delta.
\<close>
theorem window_is_stage_delta:
  assumes "config_ok c"
  shows "1 \<le> relaxation_stage now t c \<and> relaxation_stage now t c \<le> 5 \<and>
         relaxation_window now t c = stage_delta c (relaxation_stage now t c) \<and>
         relaxation_stage_1_delta c \<le> relaxation_window now t c \<and>
         relaxation_window now t c \<le> relaxation_stage_5_delta c"
  using relaxation_stage_range [of now t c] stage_delta_bounds [OF assms]
  by (simp add: relaxation_window_stage)

theorem window_is_stage_delta_witness:
  "1 \<le> relaxation_stage 7000000000 0 default_config \<and> relaxation_stage 7000000000 0 default_config \<le> 5 \<and>
   relaxation_window 7000000000 0 default_config =
     stage_delta default_config (relaxation_stage 7000000000 0 default_config) \<and>
   relaxation_stage_1_delta default_config \<le> relaxation_window 7000000000 0 default_config \<and>
   relaxation_window 7000000000 0 default_config \<le> relaxation_stage_5_delta default_config"
  by (rule window_is_stage_delta) simp

text \<open>
  For ratings in the valid range the scan bounds select exactly the ratings whose distance
  to the seed is at most the window: nothing wraps below zero or above the maximum, and the
  lower bound never exceeds the upper one (where the map's range query would panic).
\<close>
theorem scan_bounds_select_window:
  assumes "x \<le> MAX_SKILL_RATING" and "r \<le> MAX_SKILL_RATING"
  shows "(fst (scan_bounds now r t c) \<le> x \<and> x \<le> snd (scan_bounds now r t c) \<longleftrightarrow>
            abs_diff x r \<le> relaxation_window now t c) \<and>
         fst (scan_bounds now r t c) \<le> snd (scan_bounds now r t c) \<and>
         snd (scan_bounds now r t c) \<le> MAX_SKILL_RATING"
  using scan_bounds_iff [OF assms] scan_bounds_ordered [OF assms(2)] scan_bounds_contain(3) [OF assms(2)]
  by blast

theorem scan_bounds_select_window_witness:
  "(fst (scan_bounds 0 10 0 default_config) \<le> 60 \<and> 60 \<le> snd (scan_bounds 0 10 0 default_config) \<longleftrightarrow>
      abs_diff 60 10 \<le> relaxation_window 0 0 default_config) \<and>
   fst (scan_bounds 0 10 0 default_config) \<le> snd (scan_bounds 0 10 0 default_config) \<and>
   snd (scan_bounds 0 10 0 default_config) \<le> MAX_SKILL_RATING"
  by (rule scan_bounds_select_window) (simp_all add: MAX_SKILL_RATING_def)

text \<open>
  The starvation floor is a matter of configuration.  If the last delta covers the rating
  range, a player who has waited out the fourth threshold scans every rating; but the loader
  also accepts configurations whose window stays at a few points for ever.
\<close>
theorem starvation_floor_is_configured:
  assumes "config_ok c" and "MAX_SKILL_RATING \<le> relaxation_stage_5_delta c"
    and "relaxation_stage_4_ms c \<le> millis_since now t" and "r \<le> MAX_SKILL_RATING"
  shows "scan_bounds now r t c = (0, MAX_SKILL_RATING) \<and>
         (\<exists>env narrow. from_env env = Inr narrow \<and> (\<forall>later. relaxation_window later t narrow = 50))"
proof
  show "scan_bounds now r t c = (0, MAX_SKILL_RATING)"
    using assms by (simp add: scan_bounds_full waited_out_window)
  let ?narrow = "default_config\<lparr>relaxation_stage_2_delta := 50, relaxation_stage_3_delta := 50,
    relaxation_stage_4_delta := 50, relaxation_stage_5_delta := 50\<rparr>"
  have "config_ok ?narrow" by (simp add: config_ok_def default_config_def)
  then have "from_env (env_of ?narrow) = Inr ?narrow" by (rule from_env_env_of)
  moreover have "\<forall>later. relaxation_window later t ?narrow = 50"
    by (simp add: relaxation_window_def Let_def default_config_def)
  ultimately show "\<exists>env narrow. from_env env = Inr narrow \<and>
      (\<forall>later. relaxation_window later t narrow = 50)" by blast
qed

theorem starvation_floor_is_configured_witness:
  "scan_bounds 60000000000 1500 0 default_config = (0, MAX_SKILL_RATING) \<and>
   (\<exists>env narrow. from_env env = Inr narrow \<and> (\<forall>later. relaxation_window later 0 narrow = 50))"
  by (rule starvation_floor_is_configured)
    (rule default_config_ok, simp_all add: default_config_def MAX_SKILL_RATING_def millis_since_def)

end
