(* ===== verification/Pool.thy ===== *)
theory Pool
  imports Models Containers Relaxation
begin

text \<open>
  Model of src/src/engine/bucket.rs: the dual-structure player pool.

  Players live behind \<open>Arc\<close>: a heap maps addresses to players, the primary map holds
  addresses (strong references) and the rating index holds weak ones, which upgrade while the
  primary map or some task (\<open>held\<close>) still holds the player.  The \<open>DashMap\<close> operations are the
  parameter \<open>D\<close>.  Lock guards have no counterpart: each pool operation is one step.
\<close>

type_synonym addr = nat
type_synonym heap = "addr \<Rightarrow> player"
type_synonym rating_index = "(u32 \<times> uuid, addr) btree"
type_synonym 'm dash = "('m, uuid, addr) dash_ops"

definition MAX_CANDIDATES_PER_SCAN :: usize where "MAX_CANDIDATES_PER_SCAN = 200"

record 'm pool =
  pl_primary :: 'm
  pl_index :: rating_index

definition pool_new :: "'m dash \<Rightarrow> 'm pool" where
  "pool_new D = \<lparr>pl_primary = dm_new D, pl_index = []\<rparr>"

section \<open>Write operations\<close>

definition index_key :: "heap \<Rightarrow> addr \<Rightarrow> u32 \<times> uuid" where
  "index_key h a = (p_skill_rating (h a), p_id (h a))"

definition pool_insert :: "'m dash \<Rightarrow> heap \<Rightarrow> addr \<Rightarrow> 'm pool \<Rightarrow> 'm pool" where
  "pool_insert D h a pl =
     \<lparr>pl_primary = dm_insert D (p_id (h a)) a (pl_primary pl),
      pl_index = bt_insert (index_key h a) a (pl_index pl)\<rparr>"

definition pool_remove :: "'m dash \<Rightarrow> heap \<Rightarrow> uuid \<Rightarrow> 'm pool \<Rightarrow> addr option \<times> 'm pool" where
  "pool_remove D h i pl =
     (case dm_get D (pl_primary pl) i of
        None \<Rightarrow> (None, pl\<lparr>pl_primary := dm_remove D i (pl_primary pl)\<rparr>)
      | Some a \<Rightarrow>
          (Some a, \<lparr>pl_primary = dm_remove D i (pl_primary pl),
                    pl_index = bt_remove (index_key h a) (pl_index pl)\<rparr>))"

section \<open>Read operations\<close>

definition uuid_max :: uuid where "uuid_max = - 1"

text \<open>\<open>Weak::upgrade\<close> succeeds while a strong reference exists.\<close>

definition upgrades :: "'m dash \<Rightarrow> addr set \<Rightarrow> 'm pool \<Rightarrow> addr \<Rightarrow> bool" where
  "upgrades D held pl a \<longleftrightarrow> a \<in> held \<or> a \<in> snd ` set (dm_iter D (pl_primary pl))"

fun scan_loop ::
    "heap \<Rightarrow> (addr \<Rightarrow> bool) \<Rightarrow> addr list \<Rightarrow> ((u32 \<times> uuid) \<times> addr) list \<Rightarrow> addr list" where
  "scan_loop h upgrade candidates [] = candidates"
| "scan_loop h upgrade candidates ((k, a) # entries) =
     (if \<not> upgrade a then scan_loop h upgrade candidates entries
      else if p_state (h a) \<noteq> WAITING then scan_loop h upgrade candidates entries
      else let candidates' = candidates @ [a]
           in if MAX_CANDIDATES_PER_SCAN \<le> length candidates' then candidates'
              else scan_loop h upgrade candidates' entries)"

text \<open>
  The order of the candidate list and of seed selection.  The identifier makes the key unique,
  so \<open>sort_unstable_by\<close> has only one possible result.
\<close>

definition join_key :: "heap \<Rightarrow> addr \<Rightarrow> instant \<times> u32 \<times> uuid" where
  "join_key h a = (p_join_timestamp (h a), p_skill_rating (h a), p_id (h a))"

definition range_scan ::
    "'m dash \<Rightarrow> heap \<Rightarrow> addr set \<Rightarrow> u32 \<Rightarrow> u32 \<Rightarrow> 'm pool \<Rightarrow> addr list option" where
  "range_scan D h held min_rating max_rating pl =
     (let min_rating = min min_rating MAX_SKILL_RATING;
          max_rating = min max_rating MAX_SKILL_RATING;
          lower = (min_rating, 0);
          upper = (max_rating, uuid_max)
      in case bt_range lower upper (pl_index pl) of
           None \<Rightarrow> None
         | Some entries \<Rightarrow>
             Some (sort_key (join_key h) (scan_loop h (upgrades D held pl) [] entries)))"

definition oldest_waiting :: "'m dash \<Rightarrow> heap \<Rightarrow> 'm pool \<Rightarrow> addr option" where
  "oldest_waiting D h pl =
     min_by (join_key h)
       (filter (\<lambda>a. is_waiting (h a)) (map snd (dm_iter D (pl_primary pl))))"

definition oldest_waiting_excluding_range ::
    "'m dash \<Rightarrow> heap \<Rightarrow> u32 \<Rightarrow> u32 \<Rightarrow> 'm pool \<Rightarrow> addr option" where
  "oldest_waiting_excluding_range D h exclude_min exclude_max pl =
     min_by (join_key h)
       (filter (\<lambda>a. let mmr = p_skill_rating (h a)
                    in is_waiting (h a) \<and> \<not> (exclude_min \<le> mmr \<and> mmr \<le> exclude_max))
          (map snd (dm_iter D (pl_primary pl))))"

definition all_players :: "'m dash \<Rightarrow> 'm pool \<Rightarrow> addr list" where
  "all_players D pl = map snd (dm_iter D (pl_primary pl))"

definition pool_len :: "'m dash \<Rightarrow> 'm pool \<Rightarrow> usize" where
  "pool_len D pl = dm_len D (pl_primary pl)"

definition pool_is_empty :: "'m dash \<Rightarrow> 'm pool \<Rightarrow> bool" where
  "pool_is_empty D pl \<longleftrightarrow> dm_len D (pl_primary pl) = 0"

definition pool_contains :: "'m dash \<Rightarrow> uuid \<Rightarrow> 'm pool \<Rightarrow> bool" where
  "pool_contains D i pl \<longleftrightarrow> dm_get D (pl_primary pl) i \<noteq> None"

definition pool_get :: "'m dash \<Rightarrow> uuid \<Rightarrow> 'm pool \<Rightarrow> addr option" where
  "pool_get D i pl = dm_get D (pl_primary pl) i"

section \<open>The invariant of the two structures\<close>

definition pool_map :: "'m dash \<Rightarrow> 'm pool \<Rightarrow> uuid \<Rightarrow> addr option" where
  "pool_map D pl = dm_get D (pl_primary pl)"

definition members :: "'m dash \<Rightarrow> 'm pool \<Rightarrow> addr set" where
  "members D pl = ran (pool_map D pl)"

text \<open>
  The primary map files every player under his own identifier, and the rating index holds
  exactly one entry for each of them, under his rating and identifier.
\<close>

definition pool_ok :: "'m dash \<Rightarrow> heap \<Rightarrow> 'm pool \<Rightarrow> bool" where
  "pool_ok D h pl \<longleftrightarrow>
     bt_ok (pl_index pl) \<and>
     (\<forall>i a. pool_map D pl i = Some a \<longrightarrow> p_id (h a) = i \<and> p_skill_rating (h a) \<le> MAX_SKILL_RATING) \<and>
     (\<forall>k a. map_of (pl_index pl) k = Some a \<longleftrightarrow>
            pool_map D pl (snd k) = Some a \<and> fst k = p_skill_rating (h a))"

lemma pool_okD:
  assumes "pool_ok D h pl"
  shows "bt_ok (pl_index pl)"
    and "pool_map D pl i = Some a \<Longrightarrow> p_id (h a) = i"
    and "pool_map D pl i = Some a \<Longrightarrow> p_skill_rating (h a) \<le> MAX_SKILL_RATING"
    and "map_of (pl_index pl) k = Some a \<longleftrightarrow>
           pool_map D pl (snd k) = Some a \<and> fst k = p_skill_rating (h a)"
  using assms unfolding pool_ok_def by blast+

text \<open>The primary store and the ratings determine the index.\<close>

lemma pool_index_unique:
  assumes "pool_ok D h pl" and "pool_ok D h' pl'" and "pool_map D pl = pool_map D pl'"
    and "\<And>i a. pool_map D pl' i = Some a \<Longrightarrow> p_skill_rating (h a) = p_skill_rating (h' a)"
  shows "pl_index pl = pl_index pl'"
proof -
  have "map_of (pl_index pl) k = Some a \<longleftrightarrow> map_of (pl_index pl') k = Some a" for k a
    unfolding pool_okD(4) [OF assms(1)] pool_okD(4) [OF assms(2)] assms(3) using assms(4) by auto
  then have "map_of (pl_index pl) = map_of (pl_index pl')" by (metis ext not_Some_eq)
  then show ?thesis by (rule bt_unique) (rule pool_okD(1) [OF assms(1)] pool_okD(1) [OF assms(2)])+
qed

lemma members_iff:
  assumes "pool_ok D h pl"
  shows "a \<in> members D pl \<longleftrightarrow> pool_map D pl (p_id (h a)) = Some a"
  using pool_okD(2) [OF assms] by (auto simp: members_def ran_def)

lemma index_entries:
  assumes "pool_ok D h pl"
  shows "set (pl_index pl) = (\<lambda>a. (index_key h a, a)) ` members D pl"
proof -
  have "(k, a) \<in> set (pl_index pl) \<longleftrightarrow> a \<in> members D pl \<and> k = index_key h a" for k a
    unfolding btree.set_iter [OF pool_okD(1) [OF assms]] pool_okD(4) [OF assms] members_iff [OF assms]
    using pool_okD(2) [OF assms] by (cases k) (auto simp: index_key_def)
  then show ?thesis by force
qed

lemma index_keys_sorted:
  assumes "pool_ok D h pl"
  shows "sorted_wrt (<) (map (index_key h) (map snd (pl_index pl)))"
proof -
  have "map (index_key h) (map snd (pl_index pl)) = map fst (pl_index pl)"
    using index_entries [OF assms] by auto
  with pool_okD(1) [OF assms] show ?thesis by (metis bt_ok_def)
qed

lemma finite_members: "dashmap D \<Longrightarrow> finite (members D pl)"
  by (simp add: members_def pool_map_def dashmap_finite_dom finite_ran)

lemma iter_members: "dashmap D \<Longrightarrow> set (map snd (dm_iter D (pl_primary pl))) = members D pl"
  using dashmap_set_iter [of D _ _ "pl_primary pl"]
  by (force simp: members_def pool_map_def ran_def)

lemma iter_values_distinct:
  assumes "dashmap D" and "pool_ok D h pl"
  shows "distinct (map snd (dm_iter D (pl_primary pl)))"
proof -
  have "map (\<lambda>a. p_id (h a)) (map snd (dm_iter D (pl_primary pl))) = map fst (dm_iter D (pl_primary pl))"
    using dashmap_set_iter [OF assms(1)] pool_okD(2) [OF assms(2)] by (auto simp: pool_map_def)
  moreover have "distinct (map fst (dm_iter D (pl_primary pl)))"
    using keyed_map.distinct_iter [OF dashmap_keyed_map [OF assms(1)]] by simp
  ultimately show ?thesis by (metis distinct_map)
qed

lemma inj_on_members:
  assumes "pool_ok D h pl"
  shows "inj_on (\<lambda>a. p_id (h a)) (members D pl)"
  using members_iff [OF assms] by (auto intro!: inj_onI)

lemma inj_on_join_key: "pool_ok D h pl \<Longrightarrow> inj_on (join_key h) (members D pl)"
  using inj_on_members by (fastforce simp: inj_on_def join_key_def)

lemma pool_len_members:
  assumes "dashmap D" and "pool_ok D h pl"
  shows "pool_len D pl = card (members D pl)"
  using assms distinct_card [OF iter_values_distinct [OF assms]]
  by (simp add: pool_len_def dashmap_def flip: iter_members)

section \<open>Every operation keeps the structures in step\<close>

lemma pool_ok_new: "dashmap D \<Longrightarrow> pool_ok D h (pool_new D)"
  by (simp add: pool_ok_def pool_new_def pool_map_def dashmap_get_new)

lemma pool_map_insert:
  "dashmap D \<Longrightarrow> pool_map D (pool_insert D h a pl) = (pool_map D pl)(p_id (h a) \<mapsto> a)"
  by (simp add: pool_map_def pool_insert_def dashmap_get_insert)

lemma pool_ok_insert:
  assumes "dashmap D" and ok: "pool_ok D h pl"
    and "pool_map D pl (p_id (h a)) = None" and "p_skill_rating (h a) \<le> MAX_SKILL_RATING"
  shows "pool_ok D h (pool_insert D h a pl)"
  unfolding pool_ok_def pool_map_insert [OF assms(1)]
proof (intro conjI allI impI)
  note bt = pool_okD(1) [OF ok]
  show "bt_ok (pl_index (pool_insert D h a pl))"
    by (simp add: pool_insert_def bt_ok_insert bt)
  fix k b
  show "(map_of (pl_index (pool_insert D h a pl)) k = Some b) =
      (((pool_map D pl)(p_id (h a) \<mapsto> a)) (snd k) = Some b \<and> fst k = p_skill_rating (h b))"
    using pool_okD(2,4) [OF ok] assms(3)
    by (cases k) (auto simp: pool_insert_def map_of_bt_insert [OF bt] index_key_def)
qed (use pool_okD(2,3) [OF ok] assms(4) in \<open>auto split: if_splits\<close>)

lemma pool_remove_result: "fst (pool_remove D h i pl) = pool_map D pl i"
  by (simp add: pool_remove_def pool_map_def split: option.split)

lemma pool_map_remove:
  "dashmap D \<Longrightarrow> pool_map D (snd (pool_remove D h i pl)) = (pool_map D pl)(i := None)"
  by (auto simp: pool_map_def pool_remove_def dashmap_get_remove split: option.split)

lemma pool_ok_remove:
  assumes "dashmap D" and ok: "pool_ok D h pl"
  shows "pool_ok D h (snd (pool_remove D h i pl))"
  unfolding pool_ok_def pool_map_remove [OF assms(1)]
proof (intro conjI allI impI)
  note bt = pool_okD(1) [OF ok]
  show "bt_ok (pl_index (snd (pool_remove D h i pl)))"
    by (simp add: pool_remove_def bt_ok_remove bt split: option.split)
  fix k b
  show "(map_of (pl_index (snd (pool_remove D h i pl))) k = Some b) =
      (((pool_map D pl)(i := None)) (snd k) = Some b \<and> fst k = p_skill_rating (h b))"
  proof (cases "pool_map D pl i")
    case None
    with pool_okD(4) [OF ok] show ?thesis by (auto simp: pool_remove_def pool_map_def)
  next
    case (Some a)
    with pool_okD(2,4) [OF ok] show ?thesis
      by (cases k) (auto simp: pool_remove_def pool_map_def [symmetric] map_of_bt_remove [OF bt] index_key_def)
  qed
qed (use pool_okD(2,3) [OF ok] in \<open>auto split: if_splits\<close>)

text \<open>
  Operations on players never change what the pool files them under, so they keep the
  invariant: only the immutable fields of the members matter.
\<close>

lemma pool_ok_heap_cong:
  assumes "\<And>a. a \<in> members D pl \<Longrightarrow>
      p_id (h' a) = p_id (h a) \<and> p_skill_rating (h' a) = p_skill_rating (h a)"
  shows "pool_ok D h' pl = pool_ok D h pl"
proof -
  have "pool_map D pl i = Some a \<Longrightarrow>
      p_id (h' a) = p_id (h a) \<and> p_skill_rating (h' a) = p_skill_rating (h a)" for i a
    using assms by (force simp: members_def ran_def)
  then show ?thesis
    unfolding pool_ok_def by (intro conj_cong refl iff_allI imp_cong) (auto intro: iff_allI)
qed

lemma members_insert:
  assumes "dashmap D" and "pool_map D pl (p_id (h a)) = None"
  shows "members D (pool_insert D h a pl) = insert a (members D pl)"
  using assms by (simp add: members_def pool_map_insert ran_map_upd)

lemma members_remove:
  assumes "dashmap D" and "pool_ok D h pl" and "pool_map D pl i = Some a"
  shows "members D (snd (pool_remove D h i pl)) = members D pl - {a}"
proof -
  have "pool_map D pl j = Some b \<Longrightarrow> b = a \<longleftrightarrow> j = i" for j b
    using assms(3) pool_okD(2) [OF assms(2)] by auto
  then show ?thesis by (auto simp: members_def pool_map_remove [OF assms(1)] ran_def)
qed

lemma members_new: "dashmap D \<Longrightarrow> members D (pool_new D) = {}"
  by (simp add: members_def pool_map_def pool_new_def dashmap_get_new)

lemma pool_len_insert:
  assumes "dashmap D" and "pool_ok D h pl" and "pool_map D pl (p_id (h a)) = None"
    and "p_skill_rating (h a) \<le> MAX_SKILL_RATING"
  shows "pool_len D (pool_insert D h a pl) = Suc (pool_len D pl)"
proof -
  have "a \<notin> members D pl" using assms(3) members_iff [OF assms(2)] by simp
  then show ?thesis
    using pool_len_members [OF assms(1) pool_ok_insert [OF assms]] pool_len_members [OF assms(1,2)]
    by (simp add: members_insert [where h = h and a = a, OF assms(1,3)] finite_members assms(1))
qed

lemma pool_len_remove:
  assumes "dashmap D" and "pool_ok D h pl"
  shows "pool_len D (snd (pool_remove D h i pl)) = pool_len D pl - (if pool_contains D i pl then 1 else 0)"
proof (cases "pool_map D pl i")
  case None
  then have "pool_map D (snd (pool_remove D h i pl)) = pool_map D pl"
    by (auto simp: pool_map_remove [OF assms(1)])
  then show ?thesis
    using None pool_len_members [OF assms(1) pool_ok_remove [OF assms]] pool_len_members [OF assms]
    by (simp add: members_def pool_contains_def flip: pool_map_def)
next
  case (Some a)
  then have "a \<in> members D pl" by (auto simp: members_def ran_def)
  with Some show ?thesis
    using pool_len_members [OF assms(1) pool_ok_remove [OF assms]] pool_len_members [OF assms]
    by (simp add: members_remove [OF assms Some] pool_contains_def finite_members assms(1) flip: pool_map_def)
qed

section \<open>Range scans\<close>

lemma scan_loop_filter:
  "length candidates < MAX_CANDIDATES_PER_SCAN \<Longrightarrow>
   scan_loop h upgrade candidates entries =
     candidates @ take (MAX_CANDIDATES_PER_SCAN - length candidates)
       (filter (\<lambda>a. upgrade a \<and> is_waiting (h a)) (map snd entries))"
proof (induction h upgrade candidates entries rule: scan_loop.induct)
  case (2 h upgrade candidates k a entries)
  show ?case
  proof (cases "upgrade a \<and> is_waiting (h a)")
    case True
    show ?thesis
    proof (cases "MAX_CANDIDATES_PER_SCAN \<le> length (candidates @ [a])")
      case full: True
      with "2.prems" have "MAX_CANDIDATES_PER_SCAN - length candidates = 1" by simp
      with True full show ?thesis by (simp add: is_waiting_def)
    next
      case False
      then have "MAX_CANDIDATES_PER_SCAN - length candidates =
          Suc (MAX_CANDIDATES_PER_SCAN - length (candidates @ [a]))" by simp
      with True False 2 show ?thesis by (simp add: is_waiting_def)
    qed
  next
    case False
    with 2 show ?thesis by (auto simp: is_waiting_def)
  qed
qed simp

text \<open>The waiting members in a rating range, and their listing in index order.\<close>

definition eligible :: "'m dash \<Rightarrow> heap \<Rightarrow> u32 \<Rightarrow> u32 \<Rightarrow> 'm pool \<Rightarrow> addr set" where
  "eligible D h lo hi pl =
     {a \<in> members D pl. is_waiting (h a) \<and> lo \<le> p_skill_rating (h a) \<and> p_skill_rating (h a) \<le> hi}"

definition eligible_list :: "heap \<Rightarrow> u32 \<Rightarrow> u32 \<Rightarrow> 'm pool \<Rightarrow> addr list" where
  "eligible_list h lo hi pl =
     filter (\<lambda>a. is_waiting (h a) \<and> lo \<le> p_skill_rating (h a) \<and> p_skill_rating (h a) \<le> hi)
       (map snd (pl_index pl))"

lemma set_eligible_list: "pool_ok D h pl \<Longrightarrow> set (eligible_list h lo hi pl) = eligible D h lo hi pl"
  by (auto simp: eligible_list_def eligible_def index_entries image_image)

lemma eligible_list_sorted:
  assumes "pool_ok D h pl"
  shows "sorted_wrt (\<lambda>a b. index_key h a < index_key h b) (eligible_list h lo hi pl)"
  using index_keys_sorted [OF assms] unfolding eligible_list_def sorted_wrt_map
  by (intro sorted_wrt_filter) (simp add: sorted_wrt_map)

lemma eligible_list_distinct:
  assumes "pool_ok D h pl"
  shows "distinct (eligible_list h lo hi pl)"
proof -
  have "distinct (map (index_key h) (map snd (pl_index pl)))"
    using index_keys_sorted [OF assms] by (simp only: strict_sorted_iff)
  then have "distinct (map snd (pl_index pl))" by (simp only: distinct_map)
  then show ?thesis by (simp add: eligible_list_def)
qed

lemma range_scan_eq:
  assumes "dashmap D" and ok: "pool_ok D h pl" and "lo \<le> hi" and "hi \<le> MAX_SKILL_RATING"
  shows "range_scan D h held lo hi pl =
    Some (sort_key (join_key h) (take MAX_CANDIDATES_PER_SCAN (eligible_list h lo hi pl)))"
proof -
  have bounds: "min lo MAX_SKILL_RATING = lo" "min hi MAX_SKILL_RATING = hi"
    using assms(3,4) by (auto simp: min_def)
  have range: "bt_range (lo, 0) (hi, uuid_max) (pl_index pl) =
      Some (filter (\<lambda>(k, _). lo \<le> fst k \<and> fst k \<le> hi) (pl_index pl))"
  proof -
    have "(\<lambda>(k, _ :: addr). (lo, 0) \<le> k \<and> k \<le> (hi, uuid_max)) = (\<lambda>(k, _). lo \<le> fst k \<and> fst k \<le> hi)"
      by (auto simp: fun_eq_iff less_eq_prod_def uuid_max_def less_le_not_le)
    moreover have "\<not> (hi, uuid_max) < (lo, 0 :: uuid)"
      using assms(3) by (auto simp: less_prod_def)
    ultimately show ?thesis by (simp add: bt_range_def)
  qed
  have "filter (\<lambda>a. upgrades D held pl a \<and> is_waiting (h a))
      (map snd (filter (\<lambda>(k, _). lo \<le> fst k \<and> fst k \<le> hi) (pl_index pl))) =
      eligible_list h lo hi pl"
  proof -
    have "upgrades D held pl a" "k = index_key h a" if "(k, a) \<in> set (pl_index pl)" for k a
      using that index_entries [OF ok] iter_members [OF assms(1)]
      by (auto simp: upgrades_def)
    then show ?thesis
      by (auto simp: eligible_list_def filter_map comp_def index_key_def intro!: arg_cong [where f = "map snd"] filter_cong)
  qed
  then show ?thesis
    using scan_loop_filter [of "[]"]
    by (simp add: range_scan_def Let_def bounds range MAX_CANDIDATES_PER_SCAN_def)
qed

lemma range_scan_candidates:
  assumes "dashmap D" and ok: "pool_ok D h pl" and "lo \<le> hi" and "hi \<le> MAX_SKILL_RATING"
  obtains cs where "range_scan D h held lo hi pl = Some cs"
    and "distinct cs" and "sorted (map (join_key h) cs)"
    and "set cs \<subseteq> eligible D h lo hi pl"
    and "length cs = min MAX_CANDIDATES_PER_SCAN (card (eligible D h lo hi pl))"
    and "\<And>a b. a \<in> set cs \<Longrightarrow> b \<in> eligible D h lo hi pl - set cs \<Longrightarrow> index_key h a < index_key h b"
proof
  let ?es = "eligible_list h lo hi pl"
  let ?cs = "sort_key (join_key h) (take MAX_CANDIDATES_PER_SCAN ?es)"
  note set = set_eligible_list [OF ok, of lo hi] and distinct = eligible_list_distinct [OF ok, of lo hi]
  show "range_scan D h held lo hi pl = Some ?cs" by (rule range_scan_eq [OF assms])
  show "distinct ?cs" using distinct by simp
  show "sorted (map (join_key h) ?cs)" by simp
  show "set ?cs \<subseteq> eligible D h lo hi pl" using set_take_subset [of _ ?es] by (auto simp: set)
  show "length ?cs = min MAX_CANDIDATES_PER_SCAN (card (eligible D h lo hi pl))"
    using distinct_card [OF distinct] by (simp add: set min.commute)
  fix a b
  assume ab: "a \<in> set ?cs" "b \<in> eligible D h lo hi pl - set ?cs"
  have "set ?es = set (take MAX_CANDIDATES_PER_SCAN ?es) \<union> set (drop MAX_CANDIDATES_PER_SCAN ?es)"
    by (metis append_take_drop_id set_append)
  with ab set have "a \<in> set (take MAX_CANDIDATES_PER_SCAN ?es)" "b \<in> set (drop MAX_CANDIDATES_PER_SCAN ?es)"
    by auto
  moreover have "sorted_wrt (\<lambda>a b. index_key h a < index_key h b)
      (take MAX_CANDIDATES_PER_SCAN ?es @ drop MAX_CANDIDATES_PER_SCAN ?es)"
    unfolding append_take_drop_id by (rule eligible_list_sorted [OF ok])
  ultimately show "index_key h a < index_key h b" unfolding sorted_wrt_append by blast
qed

section \<open>Seed selection\<close>

lemma oldest_waiting_None:
  assumes "dashmap D"
  shows "oldest_waiting D h pl = None \<longleftrightarrow> (\<forall>a \<in> members D pl. \<not> is_waiting (h a))"
  unfolding oldest_waiting_def iter_members [OF assms, symmetric] by (simp add: filter_empty_conv)

lemma oldest_waiting_Some:
  assumes "dashmap D" and "oldest_waiting D h pl = Some a"
  shows "a \<in> members D pl" and "is_waiting (h a)"
    and "b \<in> members D pl \<Longrightarrow> is_waiting (h b) \<Longrightarrow> join_key h a \<le> join_key h b"
  using min_by_Some [OF assms(2) [unfolded oldest_waiting_def]] unfolding iter_members [OF assms(1), symmetric]
  by auto

lemma oldest_waiting_excluding_range_None:
  assumes "dashmap D"
  shows "oldest_waiting_excluding_range D h lo hi pl = None \<longleftrightarrow>
    (\<forall>a \<in> members D pl. is_waiting (h a) \<longrightarrow> lo \<le> p_skill_rating (h a) \<and> p_skill_rating (h a) \<le> hi)"
  unfolding oldest_waiting_excluding_range_def iter_members [OF assms, symmetric] Let_def
  by (simp add: filter_empty_conv)

lemma oldest_waiting_excluding_range_Some:
  assumes "dashmap D" and "oldest_waiting_excluding_range D h lo hi pl = Some a"
  shows "a \<in> members D pl" and "is_waiting (h a)"
    and "\<not> (lo \<le> p_skill_rating (h a) \<and> p_skill_rating (h a) \<le> hi)"
    and "b \<in> members D pl \<Longrightarrow> is_waiting (h b) \<Longrightarrow>
      \<not> (lo \<le> p_skill_rating (h b) \<and> p_skill_rating (h b) \<le> hi) \<Longrightarrow> join_key h a \<le> join_key h b"
  using min_by_Some [OF assms(2) [unfolded oldest_waiting_excluding_range_def Let_def]]
  unfolding iter_members [OF assms(1), symmetric]
  by auto

lemma oldest_waiting_eqI:
  assumes "dashmap D" and "a \<in> members D pl" and "is_waiting (h a)"
    and "\<And>b. b \<in> members D pl \<Longrightarrow> is_waiting (h b) \<Longrightarrow> b \<noteq> a \<Longrightarrow> join_key h a < join_key h b"
  shows "oldest_waiting D h pl = Some a"
  unfolding oldest_waiting_def
  by (rule min_by_unique)
    (use assms(2-4) in \<open>auto simp: iter_members [OF assms(1), symmetric]\<close>)

lemma oldest_waiting_excluding_range_eqI:
  assumes "dashmap D" and "a \<in> members D pl" and "is_waiting (h a)"
    and "\<not> (lo \<le> p_skill_rating (h a) \<and> p_skill_rating (h a) \<le> hi)"
    and "\<And>b. b \<in> members D pl \<Longrightarrow> is_waiting (h b) \<Longrightarrow>
      \<not> (lo \<le> p_skill_rating (h b) \<and> p_skill_rating (h b) \<le> hi) \<Longrightarrow> b \<noteq> a \<Longrightarrow> join_key h a < join_key h b"
  shows "oldest_waiting_excluding_range D h lo hi pl = Some a"
  unfolding oldest_waiting_excluding_range_def Let_def
  by (rule min_by_unique)
    (use assms(2-5) in \<open>auto simp: iter_members [OF assms(1), symmetric]\<close>)

section \<open>Pools filled by insertions\<close>

definition pool_of :: "'m dash \<Rightarrow> heap \<Rightarrow> addr list \<Rightarrow> 'm pool" where
  "pool_of D h as = foldl (\<lambda>pl a. pool_insert D h a pl) (pool_new D) as"

lemma pool_of_ok:
  assumes "dashmap D" and "distinct (map (\<lambda>a. p_id (h a)) as)"
    and "\<forall>a \<in> set as. p_skill_rating (h a) \<le> MAX_SKILL_RATING"
  shows "pool_ok D h (pool_of D h as) \<and> members D (pool_of D h as) = set as"
  using assms(2,3)
proof (induction as rule: rev_induct)
  case Nil
  show ?case using assms(1) by (simp add: pool_of_def pool_ok_new members_new)
next
  case (snoc a as)
  let ?pl = "pool_of D h as"
  from snoc have ok: "pool_ok D h ?pl" "members D ?pl = set as" by auto
  have "pool_map D ?pl (p_id (h a)) = None"
  proof (rule ccontr)
    assume "pool_map D ?pl (p_id (h a)) \<noteq> None"
    then obtain b where b: "pool_map D ?pl (p_id (h a)) = Some b" by auto
    then have "b \<in> set as" "p_id (h b) = p_id (h a)"
      using ok pool_okD(2) [OF ok(1)] by (auto simp: members_def ran_def)
    with snoc.prems(1) show False by (auto simp: image_iff)
  qed
  with snoc.prems(2) ok show ?case
    by (simp add: pool_of_def pool_ok_insert [OF assms(1)] members_insert [OF assms(1)])
qed

lemmas pool_ok_pool_of = pool_of_ok [THEN conjunct1]
lemmas members_pool_of = pool_of_ok [THEN conjunct2]

text \<open>Players numbered by their address, for concrete inputs.\<close>

definition numbered :: "(addr \<Rightarrow> instant) \<Rightarrow> (addr \<Rightarrow> u32) \<Rightarrow> heap" where
  "numbered join rating a = player_new (join a) (word_of_nat a) (rating a)"

lemma numbered_simps [simp]:
  "p_id (numbered join rating a) = word_of_nat a"
  "p_skill_rating (numbered join rating a) = rating a"
  "p_join_timestamp (numbered join rating a) = join a"
  "is_waiting (numbered join rating a)"
  "p_state (numbered join rating a) = WAITING"
  by (simp_all add: numbered_def player_new_def is_waiting_def)

lemma unat_uuid: "a < 2 ^ 128 \<Longrightarrow> unat (word_of_nat a :: uuid) = a"
  by (simp add: unat_of_nat take_bit_nat_eq_self)

lemma word_of_nat_uuid_inj:
  "a < 2 ^ 128 \<Longrightarrow> b < 2 ^ 128 \<Longrightarrow> (word_of_nat a :: uuid) = word_of_nat b \<longleftrightarrow> a = b"
  by (metis unat_uuid)

lemma numbered_ids_distinct:
  "n < 2 ^ 128 \<Longrightarrow> distinct (map (\<lambda>a. p_id (numbered join rating a)) [0..<n])"
  by (auto simp: distinct_map inj_on_def word_of_nat_uuid_inj)

lemma numbered_pool:
  assumes "dashmap D" and "n < 2 ^ 128" and "\<And>a. a < n \<Longrightarrow> rating a \<le> MAX_SKILL_RATING"
  shows "pool_ok D (numbered join rating) (pool_of D (numbered join rating) [0..<n])"
    and "members D (pool_of D (numbered join rating) [0..<n]) = {..<n}"
  using pool_of_ok [OF assms(1) numbered_ids_distinct [OF assms(2), of join rating]] assms(3)
  by (simp_all add: atLeast0LessThan)

section \<open>Properties\<close>

text \<open>
  C23: inserting a player whose identifier is not in the pool keeps the primary map and the
  rating index in step, files exactly that player and grows \<open>len\<close> by one.
\<close>

theorem pool_insert_refines:
  assumes "dashmap D" and "pool_ok D h pl"
    and "\<not> pool_contains D (p_id (h a)) pl" and "p_skill_rating (h a) \<le> MAX_SKILL_RATING"
  shows "pool_ok D h (pool_insert D h a pl) \<and>
    pool_map D (pool_insert D h a pl) = (pool_map D pl)(p_id (h a) \<mapsto> a) \<and>
    pool_len D (pool_insert D h a pl) = Suc (pool_len D pl)"
proof -
  have new: "pool_map D pl (p_id (h a)) = None"
    using assms(3) by (simp add: pool_contains_def pool_map_def)
  with assms show ?thesis
    by (simp add: pool_ok_insert pool_map_insert pool_len_insert)
qed

theorem pool_insert_refines_witness:
  "pool_ok dash_alist (numbered (\<lambda>_. 0) (\<lambda>_. 1500))
     (pool_insert dash_alist (numbered (\<lambda>_. 0) (\<lambda>_. 1500)) 7 (pool_new dash_alist)) \<and>
   pool_len dash_alist
     (pool_insert dash_alist (numbered (\<lambda>_. 0) (\<lambda>_. 1500)) 7 (pool_new dash_alist)) = 1"
proof -
  have "\<not> pool_contains dash_alist i (pool_new dash_alist)" for i
    by (simp add: pool_contains_def pool_new_def dash_alist_def)
  then show ?thesis
    using pool_insert_refines [of dash_alist "numbered (\<lambda>_. 0) (\<lambda>_. 1500)" "pool_new dash_alist" 7]
    by (simp add: pool_ok_new MAX_SKILL_RATING_def) (simp add: pool_len_def pool_new_def dash_alist_def)
qed

text \<open>
  Removing an identifier returns the player it names (or nothing), removes exactly that
  player from both structures, and is harmless when it is absent.
\<close>

theorem pool_remove_refines:
  assumes "dashmap D" and "pool_ok D h pl"
  shows "fst (pool_remove D h i pl) = pool_map D pl i \<and>
    pool_ok D h (snd (pool_remove D h i pl)) \<and>
    pool_map D (snd (pool_remove D h i pl)) = (pool_map D pl)(i := None) \<and>
    pool_len D (snd (pool_remove D h i pl)) =
      pool_len D pl - (if pool_contains D i pl then 1 else 0)"
  using assms by (simp add: pool_remove_result pool_ok_remove pool_map_remove pool_len_remove)

theorem pool_remove_refines_witness:
  "pool_ok dash_alist (numbered (\<lambda>_. 0) (\<lambda>_. 1500))
     (snd (pool_remove dash_alist (numbered (\<lambda>_. 0) (\<lambda>_. 1500)) 2
        (pool_of dash_alist (numbered (\<lambda>_. 0) (\<lambda>_. 1500)) [0..<5])))"
  using pool_remove_refines [OF dashmap_dash_alist
      numbered_pool(1) [OF dashmap_dash_alist, of 5 "\<lambda>_. 1500" "\<lambda>_. 0"], of 2]
  by (simp add: MAX_SKILL_RATING_def)

text \<open>
  C12: a range scan never panics on ordered bounds; it returns distinct waiting members of the
  range in (join time, rating, id) order, all of them when there are at most 200, and
  otherwise exactly the 200 that come first in (rating, id) order.
\<close>

theorem range_scan_exact:
  assumes "dashmap D" and "pool_ok D h pl" and "lo \<le> hi" and "hi \<le> MAX_SKILL_RATING"
  shows "\<exists>cs. range_scan D h held lo hi pl = Some cs \<and> distinct cs \<and> sorted (map (join_key h) cs) \<and>
    set cs \<subseteq> eligible D h lo hi pl \<and>
    (card (eligible D h lo hi pl) \<le> MAX_CANDIDATES_PER_SCAN \<longrightarrow> set cs = eligible D h lo hi pl) \<and>
    (MAX_CANDIDATES_PER_SCAN \<le> card (eligible D h lo hi pl) \<longrightarrow> length cs = MAX_CANDIDATES_PER_SCAN) \<and>
    (\<forall>a \<in> set cs. \<forall>b \<in> eligible D h lo hi pl - set cs. index_key h a < index_key h b)"
proof -
  have fin: "finite (eligible D h lo hi pl)"
    using finite_members [OF assms(1)] by (simp add: eligible_def)
  obtain cs where cs: "range_scan D h held lo hi pl = Some cs" "distinct cs" "sorted (map (join_key h) cs)"
      "set cs \<subseteq> eligible D h lo hi pl"
      "length cs = min MAX_CANDIDATES_PER_SCAN (card (eligible D h lo hi pl))"
      "\<And>a b. a \<in> set cs \<Longrightarrow> b \<in> eligible D h lo hi pl - set cs \<Longrightarrow> index_key h a < index_key h b"
    using range_scan_candidates [OF assms] by blast
  have "card (eligible D h lo hi pl) \<le> MAX_CANDIDATES_PER_SCAN \<Longrightarrow> set cs = eligible D h lo hi pl"
    using cs(2,4,5) fin by (simp add: card_subset_eq distinct_card)
  with cs show ?thesis by (intro exI [of _ cs]) auto
qed

lemma numbered_eligible:
  assumes "\<And>a. a < n \<Longrightarrow> rating a \<le> MAX_SKILL_RATING" and "n < 2 ^ 128" and "dashmap D"
  shows "eligible D (numbered join rating) lo hi (pool_of D (numbered join rating) [0..<n]) =
    {a. a < n \<and> lo \<le> rating a \<and> rating a \<le> hi}"
  using numbered_pool(2) [OF assms(3,2,1), where join = join] by (auto simp: eligible_def)

theorem range_scan_exact_witness:
  "\<exists>cs. range_scan dash_alist (numbered (\<lambda>a. 10 - a) (\<lambda>_. 1500)) {} 1400 1600
          (pool_of dash_alist (numbered (\<lambda>a. 10 - a) (\<lambda>_. 1500)) [0..<3]) = Some cs \<and>
        distinct cs \<and> set cs = {0, 1, 2}"
proof -
  have el: "eligible dash_alist (numbered (\<lambda>a. 10 - a) (\<lambda>_. 1500)) 1400 1600
      (pool_of dash_alist (numbered (\<lambda>a. 10 - a) (\<lambda>_. 1500)) [0..<3]) = {0, 1, 2}"
    by (subst numbered_eligible) (auto simp: MAX_SKILL_RATING_def)
  show ?thesis
    using range_scan_exact [OF dashmap_dash_alist
        numbered_pool(1) [OF dashmap_dash_alist, of 3 "\<lambda>_. 1500" "\<lambda>a. 10 - a"], of 1400 1600 "{}"]
    unfolding el by (auto simp: MAX_SKILL_RATING_def MAX_CANDIDATES_PER_SCAN_def)
qed

text \<open>
  \<open>oldest_waiting\<close> returns nothing exactly when no member waits, and otherwise a waiting
  member that joined no later than any other waiting member.
\<close>

theorem oldest_waiting_is_fifo:
  assumes "dashmap D"
  shows "case oldest_waiting D h pl of
      None \<Rightarrow> (\<forall>a \<in> members D pl. \<not> is_waiting (h a))
    | Some a \<Rightarrow> a \<in> members D pl \<and> is_waiting (h a) \<and>
        (\<forall>b \<in> members D pl. is_waiting (h b) \<longrightarrow>
           p_join_timestamp (h a) \<le> p_join_timestamp (h b) \<and> join_key h a \<le> join_key h b)"
proof (cases "oldest_waiting D h pl")
  case None
  with oldest_waiting_None [OF assms, of h pl] show ?thesis by simp
next
  case (Some a)
  have "join_key h a \<le> join_key h b \<Longrightarrow> p_join_timestamp (h a) \<le> p_join_timestamp (h b)" for b
    by (auto simp: join_key_def less_eq_prod_def)
  with oldest_waiting_Some [OF assms Some] Some show ?thesis by auto
qed

theorem oldest_waiting_is_fifo_witness:
  "\<exists>a. oldest_waiting dash_alist_rev (numbered (\<lambda>a. 10 - a) (\<lambda>_. 1500))
         (pool_of dash_alist_rev (numbered (\<lambda>a. 10 - a) (\<lambda>_. 1500)) [0..<3]) = Some a \<and> a = 2"
proof -
  let ?h = "numbered (\<lambda>a. 10 - a) (\<lambda>_. 1500)"
  have "members dash_alist_rev (pool_of dash_alist_rev ?h [0..<3]) = {..<3}"
    by (rule numbered_pool(2)) (simp_all add: MAX_SKILL_RATING_def)
  with oldest_waiting_is_fifo [OF dashmap_dash_alist_rev, of "pool_of dash_alist_rev ?h [0..<3]" ?h]
  show ?thesis by (auto simp: join_key_def less_eq_prod_def lessThan_nat_numeral split: option.splits)
qed

text \<open>
  neither the seed nor the candidates depend on the iteration order of the concurrent map:
  two maps with the same entries give the same answers.
\<close>

theorem seed_and_scan_deterministic:
  assumes "dashmap D" and "dashmap D'" and "pool_ok D h pl" and "pool_map D' pl' = pool_map D pl"
    and "pl_index pl' = pl_index pl" and "lo \<le> hi" and "hi \<le> MAX_SKILL_RATING"
  shows "oldest_waiting D' h pl' = oldest_waiting D h pl \<and>
    range_scan D' h held' lo hi pl' = range_scan D h held lo hi pl"
proof -
  have mem: "members D' pl' = members D pl" by (simp add: members_def assms(4))
  have ok': "pool_ok D' h pl'" using assms(3-5) by (simp add: pool_ok_def)
  have "oldest_waiting D' h pl' = oldest_waiting D h pl"
    unfolding oldest_waiting_def
    by (rule min_by_cong_set)
      (use inj_on_join_key [OF assms(3)] mem in
        \<open>auto simp del: set_map simp: iter_members assms(1,2) intro: inj_on_subset\<close>)
  then show ?thesis
    by (simp add: range_scan_eq assms(1-3,6,7) ok' eligible_list_def assms(5))
qed

theorem seed_and_scan_deterministic_witness:
  "oldest_waiting dash_alist_rev (numbered (\<lambda>a. 10 - a) (\<lambda>_. 1500))
     (pool_of dash_alist_rev (numbered (\<lambda>a. 10 - a) (\<lambda>_. 1500)) [0..<2]) =
   oldest_waiting dash_alist (numbered (\<lambda>a. 10 - a) (\<lambda>_. 1500))
     (pool_of dash_alist (numbered (\<lambda>a. 10 - a) (\<lambda>_. 1500)) [0..<2])"
proof -
  let ?h = "numbered (\<lambda>a. 10 - a) (\<lambda>_. 1500)"
  have "pool_of dash_alist_rev ?h [0..<2] = pool_of dash_alist ?h [0..<2]"
    by (simp add: pool_of_def pool_insert_def pool_new_def dash_alist_def dash_alist_rev_def upt_rec)
  then have "pool_map dash_alist_rev (pool_of dash_alist_rev ?h [0..<2]) =
      pool_map dash_alist (pool_of dash_alist ?h [0..<2])"
    and "pl_index (pool_of dash_alist_rev ?h [0..<2]) = pl_index (pool_of dash_alist ?h [0..<2])"
    by (simp_all add: pool_map_def dash_alist_def dash_alist_rev_def)
  then show ?thesis
    using seed_and_scan_deterministic [OF dashmap_dash_alist dashmap_dash_alist_rev
        numbered_pool(1) [OF dashmap_dash_alist, of 2 "\<lambda>_. 1500" "\<lambda>a. 10 - a"],
        where lo = 0 and hi = 0 and held = "{}" and held' = "{}"]
    by (simp add: MAX_SKILL_RATING_def)
qed

text \<open>
  the cap is applied in (rating, id) order, before the candidates are sorted by age.  So a
  player with 200 eligible players below him is left out of the candidate list, however long
  he has waited.
\<close>

theorem scan_cap_ignores_age:
  assumes "dashmap D" and "pool_ok D h pl" and "lo \<le> hi" and "hi \<le> MAX_SKILL_RATING"
    and "MAX_CANDIDATES_PER_SCAN \<le> card {b \<in> eligible D h lo hi pl. index_key h b < index_key h a}"
  shows "\<exists>cs. range_scan D h held lo hi pl = Some cs \<and> a \<notin> set cs"
proof -
  let ?below = "{b \<in> eligible D h lo hi pl. index_key h b < index_key h a}"
  obtain cs where cs: "range_scan D h held lo hi pl = Some cs" "distinct cs"
      "length cs = min MAX_CANDIDATES_PER_SCAN (card (eligible D h lo hi pl))"
      "\<And>a b. a \<in> set cs \<Longrightarrow> b \<in> eligible D h lo hi pl - set cs \<Longrightarrow> index_key h a < index_key h b"
    using range_scan_candidates [OF assms(1-4)] by metis
  have "a \<notin> set cs"
  proof
    assume "a \<in> set cs"
    then have "insert a ?below \<subseteq> set cs" using cs(4) [of a] by (auto dest: less_asym)
    then have "card (insert a ?below) \<le> card (set cs)" by (intro card_mono) auto
    moreover have "card (insert a ?below) = Suc (card ?below)"
      by (rule card_insert_disjoint) (use finite_members [OF assms(1)] in \<open>auto simp: eligible_def\<close>)
    ultimately show False using assms(5) cs(2,3) by (simp add: distinct_card)
  qed
  with cs(1) show ?thesis by blast
qed

definition crowd_join :: "addr \<Rightarrow> instant" where "crowd_join a = (if a = 200 then 0 else 5000000000)"
definition crowd_rating :: "addr \<Rightarrow> u32" where "crowd_rating a = (if a = 200 then 1001 else 1000)"

theorem scan_cap_ignores_age_witness:
  "let h = numbered crowd_join crowd_rating; pl = pool_of dash_alist h [0..<201]
   in oldest_waiting dash_alist h pl = Some 200 \<and>
      200 \<in> eligible dash_alist h 901 1101 pl \<and>
      (\<exists>cs. range_scan dash_alist h {} 901 1101 pl = Some cs \<and> 200 \<notin> set cs)"
proof -
  let ?h = "numbered crowd_join crowd_rating"
  let ?pl = "pool_of dash_alist ?h [0..<201]"
  have valid: "crowd_rating a \<le> MAX_SKILL_RATING" for a
    by (simp add: crowd_rating_def MAX_SKILL_RATING_def)
  note pool = numbered_pool [OF dashmap_dash_alist, of 201 crowd_rating crowd_join, OF _ valid, simplified]
  have el: "eligible dash_alist ?h 901 1101 ?pl = {a. a < 201}"
    by (subst numbered_eligible) (auto simp: valid crowd_rating_def MAX_SKILL_RATING_def)
  have "{..<200} \<subseteq> {b \<in> {a. a < 201}. index_key ?h b < index_key ?h 200}"
    by (auto simp: index_key_def crowd_rating_def less_prod_def)
  from card_mono [OF _ this]
  have "MAX_CANDIDATES_PER_SCAN \<le> card {b \<in> eligible dash_alist ?h 901 1101 ?pl. index_key ?h b < index_key ?h 200}"
    by (simp add: el MAX_CANDIDATES_PER_SCAN_def)
  from scan_cap_ignores_age [OF dashmap_dash_alist pool(1) _ _ this, of "{}"]
  have "\<exists>cs. range_scan dash_alist ?h {} 901 1101 ?pl = Some cs \<and> 200 \<notin> set cs"
    by (simp add: MAX_SKILL_RATING_def)
  moreover have "oldest_waiting dash_alist ?h ?pl = Some 200"
    by (rule oldest_waiting_eqI)
      (auto simp: pool(2) join_key_def crowd_join_def less_prod_def)
  ultimately show ?thesis by (simp add: Let_def el)
qed

text \<open>
  inserting an identifier that is already filed, with another rating, breaks the
  invariant: the primary map holds one player, the index two entries.  Callers must exclude
  it, which \<open>enqueue\<close> does by a separate look-up.
\<close>

theorem duplicate_insert_desynchronises:
  assumes "dashmap D" and "pool_ok D h pl" and "pool_map D pl (p_id (h a)) = Some b"
    and "p_skill_rating (h a) \<noteq> p_skill_rating (h b)"
  shows "\<not> pool_ok D h (pool_insert D h a pl) \<and>
    map_of (pl_index (pool_insert D h a pl)) (index_key h b) = Some b \<and>
    map_of (pl_index (pool_insert D h a pl)) (index_key h a) = Some a"
proof -
  have keys: "index_key h a \<noteq> index_key h b" using assms(4) by (simp add: index_key_def)
  have idx: "map_of (pl_index (pool_insert D h a pl)) =
      (map_of (pl_index pl))(index_key h a \<mapsto> a)"
    by (simp add: pool_insert_def map_of_bt_insert [OF pool_okD(1) [OF assms(2)]])
  have "map_of (pl_index pl) (index_key h b) = Some b"
    using assms(3) pool_okD(2,4) [OF assms(2)] by (simp add: index_key_def)
  with keys idx have two: "map_of (pl_index (pool_insert D h a pl)) (index_key h b) = Some b"
    "map_of (pl_index (pool_insert D h a pl)) (index_key h a) = Some a" by simp_all
  moreover have "\<not> pool_ok D h (pool_insert D h a pl)"
  proof
    assume ok: "pool_ok D h (pool_insert D h a pl)"
    from two(1) have "pool_map D (pool_insert D h a pl) (p_id (h b)) = Some b"
      using pool_okD(4) [OF ok] by (simp add: index_key_def)
    moreover have "p_id (h b) = p_id (h a)" using pool_okD(2) [OF assms(2,3)] .
    ultimately show False using assms(4) by (simp add: pool_map_insert [OF assms(1)])
  qed
  ultimately show ?thesis by blast
qed

definition twin_heap :: heap where
  "twin_heap a = player_new 0 7 (if a = 0 then 1000 else 2000)"

theorem duplicate_insert_desynchronises_witness:
  "\<not> pool_ok dash_alist twin_heap (pool_insert dash_alist twin_heap 1 (pool_of dash_alist twin_heap [0]))"
proof -
  have ok: "pool_ok dash_alist twin_heap (pool_of dash_alist twin_heap [0])"
    by (rule pool_ok_pool_of) (simp_all add: twin_heap_def player_new_def MAX_SKILL_RATING_def)
  show ?thesis
    by (rule duplicate_insert_desynchronises [OF dashmap_dash_alist ok, of 1 0, THEN conjunct1])
      (simp_all add: pool_of_def pool_map_insert pool_new_def twin_heap_def player_new_def)
qed

end
