(* ===== verification/Balancer.thy ===== *)
theory Balancer
  imports Prelude
begin

text \<open>
  Model of src/src/engine/balancer.rs: the exhaustive search over the 1024 ten-bit masks, of
  which the 252 with five bits set are the candidate splits.  The algorithm is polymorphic in
  the player reference; \<open>rating\<close> reads the immutable skill rating behind it.  \<open>None\<close> is the
  out-of-bounds panic of \<open>players[i]\<close> on fewer than ten players.
\<close>

unbundle bit_operations_syntax

definition MATCH_SIZE :: usize where "MATCH_SIZE = 10"
definition TEAM_SIZE :: usize where "TEAM_SIZE = 5"

lemmas match_sizes = MATCH_SIZE_def TEAM_SIZE_def

record 'a balance_result =
  br_team_a :: "'a list"
  br_team_b :: "'a list"
  br_team_delta :: u32
  br_total_rating :: u32

text \<open>\<open>u16::count_ones\<close>, which src/src/utils/mod.rs wraps as \<open>popcount_u16\<close>.\<close>

definition popcount_u16 :: "u16 \<Rightarrow> nat" where
  "popcount_u16 msk = length (filter (bit msk) [0..<16])"

definition in_team_a :: "u16 \<Rightarrow> nat \<Rightarrow> bool" where
  "in_team_a msk i \<longleftrightarrow> drop_bit i msk AND 1 = 1"

definition mask_sum :: "u32 list \<Rightarrow> u16 \<Rightarrow> u32" where
  "mask_sum ratings msk =
     sum_list (map (\<lambda>i. ratings ! i) (filter (in_team_a msk) [0..<MATCH_SIZE]))"

text \<open>One iteration of the search; the state is \<open>(best_mask, best_delta, best_a_sum)\<close>.\<close>

definition balance_step :: "u32 list \<Rightarrow> u32 \<Rightarrow> u16 \<times> u32 \<times> u32 \<Rightarrow> u16 \<Rightarrow> u16 \<times> u32 \<times> u32" where
  "balance_step ratings total_sum best msk =
     (case best of (best_mask, best_delta, best_a_sum) \<Rightarrow>
        if popcount_u16 msk \<noteq> TEAM_SIZE then best
        else let a_sum = mask_sum ratings msk;
                 delta = abs_diff (2 * a_sum) total_sum
             in if delta < best_delta \<or> (delta = best_delta \<and> a_sum > best_a_sum)
                then (msk, delta, a_sum) else best)"

definition all_masks :: "u16 list" where
  "all_masks = map word_of_nat [0..<1024]"

definition best_split :: "u32 list \<Rightarrow> u32 \<Rightarrow> u16 \<times> u32 \<times> u32" where
  "best_split ratings total_sum = foldl (balance_step ratings total_sum) (0, - 1, 0) all_masks"

text \<open>The loop that hands each of the first ten players to one of the teams.\<close>

definition deal :: "u16 \<Rightarrow> 'a list \<Rightarrow> 'a list \<times> 'a list \<Rightarrow> nat \<Rightarrow> 'a list \<times> 'a list" where
  "deal msk players teams i =
     (if in_team_a msk i then (fst teams @ [players ! i], snd teams)
      else (fst teams, snd teams @ [players ! i]))"

definition exhaustive_balance :: "('a \<Rightarrow> u32) \<Rightarrow> 'a list \<Rightarrow> 'a balance_result option" where
  "exhaustive_balance rating players =
     (if length players < MATCH_SIZE then None
      else let ratings = map (\<lambda>i. rating (players ! i)) [0..<MATCH_SIZE];
               total_sum = sum_list ratings;
               (best_mask, best_delta, best_a_sum) = best_split ratings total_sum;
               (team_a, team_b) = foldl (deal best_mask players) ([], []) [0..<MATCH_SIZE]
           in Some \<lparr>br_team_a = team_a, br_team_b = team_b, br_team_delta = best_delta,
                    br_total_rating = total_sum\<rparr>)"

section \<open>Masks as sets of indices\<close>

definition team_indices :: "u16 \<Rightarrow> nat set" where
  "team_indices msk = {i. bit msk i}"

lemma in_team_a_bit: "in_team_a msk i \<longleftrightarrow> bit msk i"
  by (simp only: in_team_a_def bit_iff_odd_drop_bit and_one_eq odd_iff_mod_2_eq_one)

lemma mask_bits_bound:
  assumes "msk \<in> set all_masks" and "bit msk i"
  shows "i < 10"
proof -
  from assms(1) have "unat msk < 1024" by (auto simp: all_masks_def unat_of_nat)
  then have "take_bit 10 (unat msk) = unat msk" by (simp add: take_bit_nat_eq_self_iff)
  moreover from assms(2) have "bit (unat msk) i"
    by (simp add: bit_unsigned_iff)
  ultimately show ?thesis by (metis bit_take_bit_iff)
qed

lemma all_masks_iff: "msk \<in> set all_masks \<longleftrightarrow> (\<forall>i. bit msk i \<longrightarrow> i < 10)"
proof
  assume "\<forall>i. bit msk i \<longrightarrow> i < 10"
  then have "take_bit 10 msk = msk" by (auto simp: bit_eq_iff bit_take_bit_iff)
  then have "unat msk = take_bit 10 (unat msk)" by (metis unsigned_take_bit_eq)
  then have "unat msk < 2 ^ 10" by (metis take_bit_nat_less_exp)
  then have "msk = word_of_nat (unat msk)" "unat msk \<in> set [0..<1024]" by auto
  then show "msk \<in> set all_masks" unfolding all_masks_def by (metis imageI image_set)
qed (use mask_bits_bound in blast)

lemma popcount_card: "popcount_u16 msk = card (team_indices msk)"
proof -
  have "team_indices msk = set (filter (bit msk) [0..<16])"
    using bit_imp_le_length [of msk] by (auto simp: team_indices_def)
  then show ?thesis
    by (metis popcount_u16_def distinct_card distinct_filter distinct_upt)
qed

lemma team_indices_bound: "msk \<in> set all_masks \<Longrightarrow> team_indices msk \<subseteq> {..<10}"
  by (auto simp: team_indices_def dest: mask_bits_bound)

lemma ex_mask:
  assumes "S \<subseteq> {..<10}"
  shows "\<exists>msk \<in> set all_masks. team_indices msk = S"
proof -
  have "finite S" using assms by (rule finite_subset) simp
  then have "\<exists>msk :: u16. team_indices msk = S"
    using assms
  proof (induction S)
    case empty
    show ?case by (intro exI [of _ 0]) (simp add: team_indices_def)
  next
    case (insert n S)
    then obtain msk :: u16 where "team_indices msk = S" by auto
    with insert.prems have "team_indices (set_bit n msk) = insert n S"
      by (auto simp: bit_set_bit_iff team_indices_def)
    then show ?case by blast
  qed
  then obtain msk :: u16 where bits: "team_indices msk = S" ..
  with assms have "msk \<in> set all_masks" by (auto simp: all_masks_iff team_indices_def)
  with bits show ?thesis by blast
qed

section \<open>The search finds the lexicographic optimum\<close>

definition split_delta :: "u32 list \<Rightarrow> u32 \<Rightarrow> u16 \<Rightarrow> u32" where
  "split_delta ratings total_sum msk = abs_diff (2 * mask_sum ratings msk) total_sum"

definition optimal_among :: "u32 list \<Rightarrow> u32 \<Rightarrow> u16 list \<Rightarrow> u16 \<times> u32 \<times> u32 \<Rightarrow> bool" where
  "optimal_among ratings total_sum xs best \<longleftrightarrow>
     (case best of (bm, bd, ba) \<Rightarrow>
        bm \<in> set xs \<and> popcount_u16 bm = TEAM_SIZE \<and>
        bd = split_delta ratings total_sum bm \<and> ba = mask_sum ratings bm \<and>
        (\<forall>m \<in> set xs. popcount_u16 m = TEAM_SIZE \<longrightarrow>
           bd < split_delta ratings total_sum m \<or>
           (bd = split_delta ratings total_sum m \<and> mask_sum ratings m \<le> ba)))"

lemma balance_step_alt:
  "balance_step ratings total_sum (bm, bd, ba) m =
     (if popcount_u16 m = TEAM_SIZE \<and>
         (split_delta ratings total_sum m < bd \<or>
          (split_delta ratings total_sum m = bd \<and> ba < mask_sum ratings m))
      then (m, split_delta ratings total_sum m, mask_sum ratings m) else (bm, bd, ba))"
  by (simp add: balance_step_def split_delta_def Let_def)

lemma foldl_balance_step:
  assumes "\<And>m. m \<in> set xs \<Longrightarrow> popcount_u16 m = TEAM_SIZE \<Longrightarrow> split_delta ratings total_sum m < - 1"
  shows "(foldl (balance_step ratings total_sum) (0, - 1, 0) xs = (0, - 1, 0) \<and>
            (\<forall>m \<in> set xs. popcount_u16 m \<noteq> TEAM_SIZE)) \<or>
         optimal_among ratings total_sum xs (foldl (balance_step ratings total_sum) (0, - 1, 0) xs)"
  using assms
proof (induction xs rule: rev_induct)
  case Nil
  then show ?case by simp
next
  case (snoc m xs)
  obtain bm bd ba where best: "foldl (balance_step ratings total_sum) (0, - 1, 0) xs = (bm, bd, ba)"
    by (cases "foldl (balance_step ratings total_sum) (0, - 1, 0) xs") auto
  from snoc best consider
      "(bm, bd, ba) = (0, - 1, 0)" "\<forall>m \<in> set xs. popcount_u16 m \<noteq> TEAM_SIZE"
    | "optimal_among ratings total_sum xs (bm, bd, ba)"
    by auto
  then show ?case
  proof cases
    case 1
    with snoc.prems [of m] best show ?thesis
      by (auto simp: balance_step_alt optimal_among_def)
  next
    case 2
    then have "optimal_among ratings total_sum (xs @ [m])
        (balance_step ratings total_sum (bm, bd, ba) m)"
      by (auto simp: balance_step_alt optimal_among_def not_less)
    with best show ?thesis by simp
  qed
qed

section \<open>Sums without wrap-around\<close>

text \<open>Ten ratings within the valid range: what the matcher passes.\<close>

definition ratings_ok :: "u32 list \<Rightarrow> bool" where
  "ratings_ok ratings \<longleftrightarrow> length ratings = MATCH_SIZE \<and> (\<forall>r \<in> set ratings. unat r \<le> 3000)"

definition side_sum :: "u32 list \<Rightarrow> nat set \<Rightarrow> nat" where
  "side_sum ratings S = (\<Sum>i \<in> S. unat (ratings ! i))"

definition nat_diff :: "nat \<Rightarrow> nat \<Rightarrow> nat" where
  "nat_diff a b = (if a < b then b - a else a - b)"

lemma int_nat_diff: "int (nat_diff a b) = \<bar>int a - int b\<bar>"
  by (simp add: nat_diff_def)

lemma unat_abs_diff_nat_diff: "unat (abs_diff a b) = nat_diff (unat a) (unat b)"
  by (simp add: unat_abs_diff nat_diff_def)

lemma side_sum_bound:
  assumes "ratings_ok ratings" and "S \<subseteq> {..<10}"
  shows "side_sum ratings S \<le> 30000"
proof -
  from assms have "side_sum ratings S \<le> (\<Sum>i \<in> S. 3000)"
    unfolding side_sum_def ratings_ok_def MATCH_SIZE_def
    by (intro sum_mono) auto
  moreover have "card S \<le> card {..<10::nat}"
    by (rule card_mono) (use assms(2) in auto)
  ultimately show ?thesis by simp
qed

lemma unat_sum_of_ratings:
  assumes "ratings_ok ratings" and "\<forall>i \<in> set is. i < 10" and "distinct is"
  shows "unat (sum_list (map (\<lambda>i. ratings ! i) is)) = side_sum ratings (set is)"
proof -
  have sum: "sum_list (map unat (map (\<lambda>i. ratings ! i) is)) = side_sum ratings (set is)"
    using assms(3) by (simp add: side_sum_def sum_list_distinct_conv_sum_set comp_def)
  moreover have "side_sum ratings (set is) \<le> 30000"
    by (rule side_sum_bound) (use assms in auto)
  ultimately show ?thesis by (subst unat_sum_list_no_wrap) simp_all
qed

lemma unat_mask_sum:
  assumes "ratings_ok ratings" and "msk \<in> set all_masks"
  shows "unat (mask_sum ratings msk) = side_sum ratings (team_indices msk)"
proof -
  from assms(2) have "team_indices msk = set (filter (in_team_a msk) [0..<MATCH_SIZE])"
    by (auto simp: in_team_a_bit MATCH_SIZE_def team_indices_def dest: mask_bits_bound)
  with assms(1) show ?thesis
    by (simp add: mask_sum_def unat_sum_of_ratings MATCH_SIZE_def)
qed

lemma unat_total_sum:
  assumes "ratings_ok ratings"
  shows "unat (sum_list ratings) = side_sum ratings {..<10}"
proof -
  have "sum_list ratings = sum_list (map (\<lambda>i. ratings ! i) [0..<10])"
    using assms map_nth [of ratings] by (simp add: ratings_ok_def MATCH_SIZE_def)
  with unat_sum_of_ratings [OF assms, of "[0..<10]"] show ?thesis
    by (simp add: atLeast0LessThan)
qed

lemma unat_split_delta:
  assumes "ratings_ok ratings" and "msk \<in> set all_masks"
  shows "unat (split_delta ratings (sum_list ratings) msk) =
         nat_diff (2 * side_sum ratings (team_indices msk)) (side_sum ratings {..<10})"
proof -
  have bound: "side_sum ratings (team_indices msk) \<le> 30000"
    using assms by (intro side_sum_bound team_indices_bound)
  then have "unat (2 * mask_sum ratings msk) = 2 * side_sum ratings (team_indices msk)"
    by (simp add: unat_word_ariths unat_mask_sum [OF assms])
  then show ?thesis
    by (simp add: split_delta_def unat_abs_diff_nat_diff unat_total_sum [OF assms(1)])
qed

lemma best_split_optimal:
  assumes "ratings_ok ratings"
  shows "optimal_among ratings (sum_list ratings) all_masks (best_split ratings (sum_list ratings))"
proof -
  have bounded: "split_delta ratings (sum_list ratings) m < - 1" if "m \<in> set all_masks" for m
  proof -
    have "side_sum ratings (team_indices m) \<le> 30000" "side_sum ratings {..<10} \<le> 30000"
      using assms that by (auto intro!: side_sum_bound team_indices_bound)
    then have "unat (split_delta ratings (sum_list ratings) m) \<le> 60000"
      unfolding unat_split_delta [OF assms that] nat_diff_def by (auto split: if_splits)
    then show ?thesis by (simp add: word_less_nat_alt unat_minus_one_max)
  qed
  obtain msk where "msk \<in> set all_masks" "team_indices msk = {..<5}"
    using ex_mask [of "{..<5}"] by auto
  then have "msk \<in> set all_masks" "popcount_u16 msk = TEAM_SIZE"
    by (simp_all add: popcount_card TEAM_SIZE_def)
  with foldl_balance_step [OF bounded] show ?thesis
    by (auto simp: best_split_def)
qed

lemma best_split_spec:
  assumes "ratings_ok ratings"
  obtains bm where "best_split ratings (sum_list ratings) =
      (bm, split_delta ratings (sum_list ratings) bm, mask_sum ratings bm)"
    and "bm \<in> set all_masks" and "card (team_indices bm) = 5"
    and "\<And>S. S \<subseteq> {..<10} \<Longrightarrow> card S = 5 \<Longrightarrow>
          nat_diff (2 * side_sum ratings (team_indices bm)) (side_sum ratings {..<10}) <
            nat_diff (2 * side_sum ratings S) (side_sum ratings {..<10}) \<or>
          (nat_diff (2 * side_sum ratings (team_indices bm)) (side_sum ratings {..<10}) =
             nat_diff (2 * side_sum ratings S) (side_sum ratings {..<10}) \<and>
           side_sum ratings S \<le> side_sum ratings (team_indices bm))"
proof -
  obtain bm bd ba where best: "best_split ratings (sum_list ratings) = (bm, bd, ba)"
    by (cases "best_split ratings (sum_list ratings)") auto
  from best_split_optimal [OF assms] best have bm: "bm \<in> set all_masks" "card (team_indices bm) = 5"
      and vals: "bd = split_delta ratings (sum_list ratings) bm" "ba = mask_sum ratings bm"
      and opt: "\<And>m. m \<in> set all_masks \<Longrightarrow> card (team_indices m) = 5 \<Longrightarrow>
         bd < split_delta ratings (sum_list ratings) m \<or>
         (bd = split_delta ratings (sum_list ratings) m \<and> mask_sum ratings m \<le> ba)"
    by (auto simp: optimal_among_def popcount_card TEAM_SIZE_def)
  show ?thesis
  proof (rule that)
    fix S :: "nat set"
    assume "S \<subseteq> {..<10}" "card S = 5"
    then obtain m where m: "m \<in> set all_masks" "team_indices m = S"
      using ex_mask [of S] by (auto simp: team_indices_def)
    with \<open>card S = 5\<close> opt [of m]
    show "nat_diff (2 * side_sum ratings (team_indices bm)) (side_sum ratings {..<10}) <
            nat_diff (2 * side_sum ratings S) (side_sum ratings {..<10}) \<or>
          (nat_diff (2 * side_sum ratings (team_indices bm)) (side_sum ratings {..<10}) =
             nat_diff (2 * side_sum ratings S) (side_sum ratings {..<10}) \<and>
           side_sum ratings S \<le> side_sum ratings (team_indices bm))"
      by (auto simp: vals word_less_nat_alt word_le_nat_alt word_unat_eq_iff
          unat_split_delta [OF assms] unat_mask_sum [OF assms] bm)
  qed (use best vals bm in auto)
qed

section \<open>Dealing the players out\<close>

lemma foldl_deal:
  "foldl (deal msk players) (xs, ys) is =
     (xs @ map (\<lambda>i. players ! i) (filter (bit msk) is),
      ys @ map (\<lambda>i. players ! i) (filter (\<lambda>i. \<not> bit msk i) is))"
  by (induction "is" arbitrary: xs ys) (simp_all add: deal_def in_team_a_bit)

definition team_of :: "u16 \<Rightarrow> 'a list \<Rightarrow> 'a list" where
  "team_of msk players = map (\<lambda>i. players ! i) (filter (bit msk) [0..<10])"

definition rest_of :: "u16 \<Rightarrow> 'a list \<Rightarrow> 'a list" where
  "rest_of msk players = map (\<lambda>i. players ! i) (filter (\<lambda>i. \<not> bit msk i) [0..<10])"

lemma length_team_of:
  assumes "msk \<in> set all_masks" and "card (team_indices msk) = 5"
  shows "length (team_of msk players) = 5" and "length (rest_of msk players) = 5"
proof -
  have "set (filter (bit msk) [0..<10]) = team_indices msk"
    using team_indices_bound [OF assms(1)] by (auto simp: team_indices_def)
  then have "length (filter (bit msk) [0..<10]) = 5"
    using assms(2) by (metis distinct_card distinct_filter distinct_upt)
  then show "length (team_of msk players) = 5" and "length (rest_of msk players) = 5"
    using sum_length_filter_compl [of "bit msk" "[0..<10]"]
    by (simp_all add: team_of_def rest_of_def)
qed

lemma mset_team_rest:
  assumes "length players = 10"
  shows "mset (team_of msk players) + mset (rest_of msk players) = mset players"
proof -
  have "mset (team_of msk players) + mset (rest_of msk players) =
      image_mset (\<lambda>i. players ! i) (filter_mset (bit msk) (mset [0..<10]) +
        filter_mset (\<lambda>i. \<not> bit msk i) (mset [0..<10]))"
    by (simp only: team_of_def rest_of_def mset_map mset_filter image_mset_union)
  also have "\<dots> = image_mset (\<lambda>i. players ! i) (mset [0..<10])"
    by (simp only: multiset_partition [symmetric])
  also have "\<dots> = mset players"
    using assms map_nth [of players] by (metis mset_map)
  finally show ?thesis .
qed

definition rating_sum :: "('a \<Rightarrow> u32) \<Rightarrow> 'a list \<Rightarrow> nat" where
  "rating_sum rating xs = sum_list (map (\<lambda>x. unat (rating x)) xs)"

lemma rating_sum_side:
  assumes "length players = 10" and "distinct is" and "\<forall>i \<in> set is. i < 10"
  shows "rating_sum rating (map (\<lambda>i. players ! i) is) = side_sum (map rating players) (set is)"
proof -
  have "rating_sum rating (map (\<lambda>i. players ! i) is) =
      sum_list (map (\<lambda>i. unat (map rating players ! i)) is)"
    using assms by (auto simp: rating_sum_def intro!: arg_cong [where f = sum_list])
  with assms(2) show ?thesis by (simp add: side_sum_def sum_list_distinct_conv_sum_set)
qed

lemma rating_sum_teams:
  assumes "length players = 10" and "msk \<in> set all_masks"
  shows "rating_sum rating (team_of msk players) = side_sum (map rating players) (team_indices msk)"
    and "rating_sum rating (rest_of msk players) =
           side_sum (map rating players) ({..<10} - team_indices msk)"
proof -
  have sets: "set (filter (bit msk) [0..<10]) = team_indices msk"
      "set (filter (\<lambda>i. \<not> bit msk i) [0..<10]) = {..<10} - team_indices msk"
    using team_indices_bound [OF assms(2)] by (auto simp: team_indices_def)
  show "rating_sum rating (team_of msk players) = side_sum (map rating players) (team_indices msk)"
    unfolding team_of_def sets(1) [symmetric] by (rule rating_sum_side [OF assms(1)]) auto
  show "rating_sum rating (rest_of msk players) =
      side_sum (map rating players) ({..<10} - team_indices msk)"
    unfolding rest_of_def sets(2) [symmetric] by (rule rating_sum_side [OF assms(1)]) auto
qed

lemma side_sum_compl:
  assumes "S \<subseteq> {..<10}"
  shows "side_sum ratings S + side_sum ratings ({..<10} - S) = side_sum ratings {..<10}"
  using sum.subset_diff [OF assms finite_lessThan, of "\<lambda>i. unat (ratings ! i)"]
  by (simp add: side_sum_def add.commute)

text \<open>Every sub-multiset of a list is selected by a set of its indices.\<close>

lemma ex_indices_of_submultiset:
  "M \<subseteq># mset xs \<Longrightarrow> \<exists>S. S \<subseteq> {..<length xs} \<and> image_mset (\<lambda>i. xs ! i) (mset_set S) = M"
proof (induction xs arbitrary: M)
  case Nil
  then show ?case by (intro exI [of _ "{}"]) simp
next
  case (Cons x xs)
  have shift: "image_mset (\<lambda>i. (x # xs) ! i) (mset_set (Suc ` S)) = image_mset (\<lambda>i. xs ! i) (mset_set S)"
    if "S \<subseteq> {..<length xs}" for S
    by (subst image_mset_mset_set [symmetric]) (simp_all add: image_mset.compositionality comp_def)
  show ?case
  proof (cases "x \<in># M")
    case True
    then obtain N where N: "M = add_mset x N" by (meson mset_add)
    with Cons.prems have "N \<subseteq># mset xs" by simp
    then obtain S where S: "S \<subseteq> {..<length xs}" "image_mset (\<lambda>i. xs ! i) (mset_set S) = N"
      using Cons.IH by blast
    have "finite S" by (rule finite_subset [OF S(1)]) simp
    then have "image_mset (\<lambda>i. (x # xs) ! i) (mset_set (insert 0 (Suc ` S))) = M"
      using shift [OF S(1)] S(2) N by (subst mset_set.insert) auto
    moreover have "insert 0 (Suc ` S) \<subseteq> {..<length (x # xs)}" using S(1) by auto
    ultimately show ?thesis by blast
  next
    case False
    with Cons.prems have "M \<subseteq># mset xs"
      by (metis Diff_eq_empty_iff_mset add_mset_remove_trivial diff_single_trivial
          insert_subset_eq_iff mset.simps(2) subset_eq_diff_conv union_commute add_mset_add_single
          subset_mset.order_refl subset_mset.trans)
    then obtain S where S: "S \<subseteq> {..<length xs}" "image_mset (\<lambda>i. xs ! i) (mset_set S) = M"
      using Cons.IH by blast
    with shift [OF S(1)] show ?thesis
      by (intro exI [of _ "Suc ` S"]) auto
  qed
qed

lemma rating_sum_mset: "rating_sum rating xs = (\<Sum>x \<in># mset xs. unat (rating x))"
  by (simp add: rating_sum_def sum_mset_sum_list flip: mset_map)

lemma split_side_sums:
  assumes "length players = 10" and "mset a + mset b = mset players" and "length a = 5"
  obtains S where "S \<subseteq> {..<10}" and "card S = 5"
    and "rating_sum rating a = side_sum (map rating players) S"
    and "rating_sum rating a + rating_sum rating b = side_sum (map rating players) {..<10}"
proof -
  have sub: "mset a \<subseteq># mset players" by (simp flip: assms(2))
  from ex_indices_of_submultiset [OF this] assms(1)
  obtain S where S: "S \<subseteq> {..<10}" "image_mset (\<lambda>i. players ! i) (mset_set S) = mset a" by auto
  have "finite S" by (rule finite_subset [OF S(1)]) simp
  have "card S = size (image_mset (\<lambda>i. players ! i) (mset_set S))" by simp
  with assms(3) S(2) have card: "card S = 5" by simp
  have "rating_sum rating a = (\<Sum>i \<in># mset_set S. unat (rating (players ! i)))"
    by (simp add: rating_sum_mset image_mset.compositionality comp_def flip: S(2))
  also have "\<dots> = side_sum (map rating players) S"
    unfolding side_sum_def sum_unfold_sum_mset
    by (rule arg_cong [where f = sum_mset], rule image_mset_cong)
      (use S(1) \<open>finite S\<close> assms(1) in auto)
  finally have side: "rating_sum rating a = side_sum (map rating players) S" .
  have "rating_sum rating a + rating_sum rating b = (\<Sum>x \<in># mset players. unat (rating x))"
    by (simp add: rating_sum_mset flip: assms(2))
  also have "\<dots> = rating_sum rating (map (\<lambda>i. players ! i) [0..<10])"
    using assms(1) map_nth [of players] by (simp only: rating_sum_mset)
  also have "\<dots> = side_sum (map rating players) {..<10}"
    by (subst rating_sum_side [OF assms(1)]) (simp_all add: atLeast0LessThan)
  finally show ?thesis using that S(1) card side by blast
qed

section \<open>The result of the search\<close>

lemma exhaustive_balance_spec:
  assumes len: "length players = 10" and ok: "\<forall>p \<in> set players. unat (rating p) \<le> 3000"
  obtains bm where "exhaustive_balance rating players =
      Some \<lparr>br_team_a = team_of bm players, br_team_b = rest_of bm players,
            br_team_delta = split_delta (map rating players) (sum_list (map rating players)) bm,
            br_total_rating = sum_list (map rating players)\<rparr>"
    and "bm \<in> set all_masks" and "card (team_indices bm) = 5"
    and "\<And>S. S \<subseteq> {..<10} \<Longrightarrow> card S = 5 \<Longrightarrow>
          nat_diff (2 * side_sum (map rating players) (team_indices bm)) (side_sum (map rating players) {..<10}) <
            nat_diff (2 * side_sum (map rating players) S) (side_sum (map rating players) {..<10}) \<or>
          (nat_diff (2 * side_sum (map rating players) (team_indices bm)) (side_sum (map rating players) {..<10}) =
             nat_diff (2 * side_sum (map rating players) S) (side_sum (map rating players) {..<10}) \<and>
           side_sum (map rating players) S \<le> side_sum (map rating players) (team_indices bm))"
proof -
  have ratings: "ratings_ok (map rating players)" using len ok by (simp add: ratings_ok_def MATCH_SIZE_def)
  have read: "map (\<lambda>i. rating (players ! i)) [0..<MATCH_SIZE] = map rating players"
    using len by (intro nth_equalityI) (simp_all add: MATCH_SIZE_def)
  show ?thesis
  proof (rule best_split_spec [OF ratings])
    fix bm
    assume bm: "best_split (map rating players) (sum_list (map rating players)) =
        (bm, split_delta (map rating players) (sum_list (map rating players)) bm,
         mask_sum (map rating players) bm)"
      and rest: "bm \<in> set all_masks" "card (team_indices bm) = 5"
      and opt: "\<And>S. S \<subseteq> {..<10} \<Longrightarrow> card S = 5 \<Longrightarrow>
          nat_diff (2 * side_sum (map rating players) (team_indices bm)) (side_sum (map rating players) {..<10}) <
            nat_diff (2 * side_sum (map rating players) S) (side_sum (map rating players) {..<10}) \<or>
          (nat_diff (2 * side_sum (map rating players) (team_indices bm)) (side_sum (map rating players) {..<10}) =
             nat_diff (2 * side_sum (map rating players) S) (side_sum (map rating players) {..<10}) \<and>
           side_sum (map rating players) S \<le> side_sum (map rating players) (team_indices bm))"
    have "exhaustive_balance rating players =
      Some \<lparr>br_team_a = team_of bm players, br_team_b = rest_of bm players,
            br_team_delta = split_delta (map rating players) (sum_list (map rating players)) bm,
            br_total_rating = sum_list (map rating players)\<rparr>"
      unfolding exhaustive_balance_def Let_def read bm prod.case
      by (simp add: len MATCH_SIZE_def foldl_deal team_of_def rest_of_def)
    from that [OF this rest opt] show ?thesis by simp
  qed
qed

lemma side_delta_split:
  assumes "rating_sum rating a = side_sum r S"
    and "rating_sum rating a + rating_sum rating b = side_sum r {..<10}"
  shows "nat_diff (2 * side_sum r S) (side_sum r {..<10}) = nat_diff (rating_sum rating a) (rating_sum rating b)"
  unfolding assms(2) [symmetric] assms(1) [symmetric] nat_diff_def by auto

text \<open>
  Everything the callers use, on a result of ten valid ratings.
\<close>

definition balanced_split :: "('a \<Rightarrow> u32) \<Rightarrow> 'a list \<Rightarrow> 'a balance_result \<Rightarrow> bool" where
  "balanced_split rating players r \<longleftrightarrow>
     length (br_team_a r) = TEAM_SIZE \<and> length (br_team_b r) = TEAM_SIZE \<and>
     mset (br_team_a r) + mset (br_team_b r) = mset players \<and>
     unat (br_total_rating r) = rating_sum rating players \<and>
     unat (br_team_delta r) = nat_diff (rating_sum rating (br_team_a r)) (rating_sum rating (br_team_b r)) \<and>
     rating_sum rating (br_team_b r) \<le> rating_sum rating (br_team_a r)"

lemma exhaustive_balance_correct:
  assumes len: "length players = 10" and ok: "\<forall>p \<in> set players. unat (rating p) \<le> 3000"
  obtains r where "exhaustive_balance rating players = Some r" and "balanced_split rating players r"
    and "\<And>a b. mset a + mset b = mset players \<Longrightarrow> length a = TEAM_SIZE \<Longrightarrow>
           unat (br_team_delta r) \<le> nat_diff (rating_sum rating a) (rating_sum rating b)"
proof (rule exhaustive_balance_spec [OF len ok])
  fix bm
  let ?r = "map rating players" and ?a = "team_of bm players" and ?b = "rest_of bm players"
  assume res: "exhaustive_balance rating players =
      Some \<lparr>br_team_a = ?a, br_team_b = ?b, br_team_delta = split_delta ?r (sum_list ?r) bm,
            br_total_rating = sum_list ?r\<rparr>"
    and bm: "bm \<in> set all_masks" "card (team_indices bm) = 5"
    and opt: "\<And>S. S \<subseteq> {..<10} \<Longrightarrow> card S = 5 \<Longrightarrow>
       nat_diff (2 * side_sum ?r (team_indices bm)) (side_sum ?r {..<10}) <
         nat_diff (2 * side_sum ?r S) (side_sum ?r {..<10}) \<or>
       (nat_diff (2 * side_sum ?r (team_indices bm)) (side_sum ?r {..<10}) =
          nat_diff (2 * side_sum ?r S) (side_sum ?r {..<10}) \<and>
        side_sum ?r S \<le> side_sum ?r (team_indices bm))"
  have ratings: "ratings_ok ?r" using len ok by (simp add: ratings_ok_def MATCH_SIZE_def)
  note a = rating_sum_teams(1) [OF len bm(1), of rating] and b = rating_sum_teams(2) [OF len bm(1), of rating]
  have sub: "team_indices bm \<subseteq> {..<10}" by (rule team_indices_bound [OF bm(1)])
  have whole: "rating_sum rating ?a + rating_sum rating ?b = side_sum ?r {..<10}"
    unfolding a b by (rule side_sum_compl [OF sub])
  note delta = side_delta_split [OF a whole]
  have total: "unat (sum_list ?r) = rating_sum rating players"
    unfolding unat_total_sum [OF ratings] whole [symmetric]
    using mset_team_rest [OF len, of bm] by (simp add: rating_sum_mset flip: sum_mset.union image_mset_union)
  have card: "card ({..<10} - team_indices bm) = 5"
    using bm(2) sub by (simp add: card_Diff_subset finite_subset)
  have "rating_sum rating ?b \<le> rating_sum rating ?a"
    using opt [OF Diff_subset card] whole unfolding a b nat_diff_def by (auto split: if_splits)
  then have split: "balanced_split rating players (the (exhaustive_balance rating players))"
    using length_team_of [OF bm, of players] mset_team_rest [OF len, of bm] total delta
    by (simp add: balanced_split_def res TEAM_SIZE_def unat_split_delta [OF ratings bm(1)])
  show ?thesis
  proof (rule that)
    show "exhaustive_balance rating players = Some (the (exhaustive_balance rating players))"
      by (simp add: res)
    show "balanced_split rating players (the (exhaustive_balance rating players))" by (rule split)
    fix a b :: "'a list"
    assume ab: "mset a + mset b = mset players" "length a = TEAM_SIZE"
    then obtain S where S: "S \<subseteq> {..<10}" "card S = 5" "rating_sum rating a = side_sum ?r S"
        "rating_sum rating a + rating_sum rating b = side_sum ?r {..<10}"
      using split_side_sums [OF len ab(1)] unfolding TEAM_SIZE_def by blast
    have "nat_diff (2 * side_sum ?r (team_indices bm)) (side_sum ?r {..<10}) \<le>
        nat_diff (2 * side_sum ?r S) (side_sum ?r {..<10})"
      using opt [OF S(1,2)] by auto
    then show "unat (br_team_delta (the (exhaustive_balance rating players))) \<le>
        nat_diff (rating_sum rating a) (rating_sum rating b)"
      unfolding side_delta_split [OF S(3,4)] by (simp add: res unat_split_delta [OF ratings bm(1)])
  qed
qed

text \<open>
  Divisions of a list of players into two teams of five, their difference, and the divisions whose
  difference is the smallest there is.
\<close>

definition is_split :: "'a list \<Rightarrow> 'a list \<Rightarrow> 'a list \<Rightarrow> bool" where
  "is_split players a b \<longleftrightarrow> mset a + mset b = mset players \<and> length a = TEAM_SIZE \<and> length b = TEAM_SIZE"

definition team_difference :: "('a \<Rightarrow> u32) \<Rightarrow> 'a list \<Rightarrow> 'a list \<Rightarrow> nat" where
  "team_difference rating a b = nat \<bar>int (rating_sum rating a) - int (rating_sum rating b)\<bar>"

definition optimal_split :: "('a \<Rightarrow> u32) \<Rightarrow> 'a list \<Rightarrow> 'a list \<Rightarrow> 'a list \<Rightarrow> bool" where
  "optimal_split rating players a b \<longleftrightarrow> is_split players a b \<and>
     (\<forall>a' b'. is_split players a' b' \<longrightarrow> team_difference rating a b \<le> team_difference rating a' b')"

lemma team_difference_nat_diff: "team_difference rating a b = nat_diff (rating_sum rating a) (rating_sum rating b)"
  by (simp add: team_difference_def flip: int_nat_diff)

lemma is_split_sum: "is_split players a b \<Longrightarrow> rating_sum rating players = rating_sum rating a + rating_sum rating b"
  by (simp add: is_split_def rating_sum_mset flip: sum_mset.union image_mset_union)

lemma is_split_set: "is_split players a b \<Longrightarrow> set players = set a \<union> set b"
  unfolding is_split_def by (metis set_mset_mset set_mset_union)

lemma exhaustive_balance_split:
  assumes "length players = 10" and "\<forall>p \<in> set players. unat (rating p) \<le> 3000"
  obtains r where "exhaustive_balance rating players = Some r"
    and "optimal_split rating players (br_team_a r) (br_team_b r)"
    and "unat (br_team_delta r) = team_difference rating (br_team_a r) (br_team_b r)"
    and "unat (br_total_rating r) = rating_sum rating players"
proof (rule exhaustive_balance_correct [OF assms])
  fix r
  assume res: "exhaustive_balance rating players = Some r" and split: "balanced_split rating players r"
    and opt: "\<And>a b. mset a + mset b = mset players \<Longrightarrow> length a = TEAM_SIZE \<Longrightarrow>
           unat (br_team_delta r) \<le> nat_diff (rating_sum rating a) (rating_sum rating b)"
  have delta: "unat (br_team_delta r) = team_difference rating (br_team_a r) (br_team_b r)"
    using split by (simp add: balanced_split_def team_difference_nat_diff)
  have "team_difference rating (br_team_a r) (br_team_b r) \<le> team_difference rating a b" if "is_split players a b" for a b
    unfolding delta [symmetric] using opt [of a b] that
    by (simp add: is_split_def team_difference_nat_diff)
  with split have "optimal_split rating players (br_team_a r) (br_team_b r)"
    by (simp add: optimal_split_def is_split_def balanced_split_def)
  with res show thesis using delta split by (intro that [of r]) (simp_all add: balanced_split_def)
qed

section \<open>Equal ratings: the first mask wins\<close>

lemma mask_sum_const:
  assumes "\<forall>i < 10. ratings ! i = r"
  shows "mask_sum ratings msk = of_nat (length (filter (in_team_a msk) [0..<MATCH_SIZE])) * r"
proof -
  have "map (\<lambda>i. ratings ! i) (filter (in_team_a msk) [0..<MATCH_SIZE]) =
      map (\<lambda>i. r) (filter (in_team_a msk) [0..<MATCH_SIZE])"
    using assms by (auto simp: MATCH_SIZE_def)
  then show ?thesis unfolding mask_sum_def by (simp only: sum_list_triv)
qed

lemma mask_count:
  assumes "msk \<in> set all_masks"
  shows "length (filter (in_team_a msk) [0..<MATCH_SIZE]) = popcount_u16 msk"
proof -
  have "[0..<16] = [0..<10] @ [10..<16 :: nat]" by (simp add: upt_conv_Cons)
  moreover have "filter (bit msk) [10..<16] = []"
    by (rule filter_False) (use mask_bits_bound [OF assms] in \<open>force dest: leD\<close>)
  ultimately show ?thesis
    by (simp add: popcount_u16_def MATCH_SIZE_def in_team_a_bit [abs_def])
qed

lemma foldl_balance_step_skip:
  "\<forall>m \<in> set xs. popcount_u16 m \<noteq> TEAM_SIZE \<Longrightarrow> foldl (balance_step ratings total_sum) best xs = best"
  by (induction xs) (auto simp: balance_step_def split: prod.split)

lemma foldl_balance_step_const:
  assumes "\<forall>i < 10. ratings ! i = r" and "set xs \<subseteq> set all_masks"
  shows "foldl (balance_step ratings (10 * r)) (bm, 0, 5 * r) xs = (bm, 0, 5 * r)"
  using assms(2)
proof (induction xs)
  case (Cons m xs)
  then have "popcount_u16 m = TEAM_SIZE \<Longrightarrow> mask_sum ratings m = 5 * r"
    by (simp add: mask_sum_const [OF assms(1)] mask_count TEAM_SIZE_def)
  with Cons show ?case by (simp add: balance_step_def)
qed simp

lemma all_masks_split:
  obtains xs where "all_masks = map word_of_nat [0..<31] @ (31 # xs)"
proof
  have "[0..<1024] = [0..<31] @ [31..<1024 :: nat]"
    using upt_add_eq_append [of 0 31 993] by simp
  also have "[31..<1024 :: nat] = 31 # [32..<1024]" by (simp add: upt_conv_Cons)
  finally show "all_masks = map word_of_nat [0..<31] @ (31 # map word_of_nat [32..<1024])"
    by (simp add: all_masks_def del: upt_rec_numeral)
qed

lemma popcount_below_31: "\<forall>m \<in> set (map word_of_nat [0..<31]). popcount_u16 m \<noteq> TEAM_SIZE"
  by (simp add: TEAM_SIZE_def popcount_u16_def upt_conv_Cons)

lemma best_split_const:
  assumes "\<forall>i < 10. ratings ! i = r"
  shows "best_split ratings (10 * r) = (31, 0, 5 * r)"
proof -
  obtain xs where split: "all_masks = map word_of_nat [0..<31] @ (31 # xs)" by (rule all_masks_split)
  have masks: "set xs \<subseteq> set all_masks" "31 \<in> set all_masks"
    unfolding split set_append list.set by blast+
  have pop: "popcount_u16 31 = TEAM_SIZE" by (simp add: TEAM_SIZE_def popcount_u16_def upt_conv_Cons)
  have "mask_sum ratings 31 = 5 * r"
    by (simp add: mask_sum_const [OF assms] mask_count [OF masks(2)] pop TEAM_SIZE_def)
  then have "balance_step ratings (10 * r) (0, - 1, 0) 31 = (31, 0, 5 * r)"
    by (simp add: balance_step_def pop abs_diff_def word_less_nat_alt unat_minus_one_max)
  then show ?thesis
    by (simp only: best_split_def split foldl_append foldl.simps
        foldl_balance_step_skip [OF popcount_below_31] foldl_balance_step_const [OF assms masks(1)])
qed

lemma exhaustive_balance_equal:
  assumes "length players = 10" and "\<forall>p \<in> set players. rating p = r"
  shows "exhaustive_balance rating players =
    Some \<lparr>br_team_a = take 5 players, br_team_b = drop 5 players, br_team_delta = 0,
          br_total_rating = 10 * r\<rparr>"
proof -
  let ?r = "map (\<lambda>i. rating (players ! i)) [0..<MATCH_SIZE]"
  have const: "?r = replicate 10 r"
    using assms by (intro nth_equalityI) (simp_all add: MATCH_SIZE_def)
  have bits: "filter (bit (31 :: u16)) [0..<10] = [0..<5]"
    "filter (\<lambda>i. \<not> bit (31 :: u16) i) [0..<10] = [5..<10]"
    by code_simp+
  have take: "map (\<lambda>i. players ! i) [0..<5] = take 5 players"
    "map (\<lambda>i. players ! i) [5..<10] = drop 5 players"
    using assms(1) take_map [of 5 "\<lambda>i. players ! i" "[0..<10]"]
      drop_map [of 5 "\<lambda>i. players ! i" "[0..<10]"] map_nth [of players]
    by (simp_all del: upt_rec_numeral)
  have "best_split (replicate 10 r) (10 * r) = (31, 0, 5 * r)" by (rule best_split_const) simp
  moreover have "foldl (deal 31 players) ([], []) [0..<MATCH_SIZE] = (take 5 players, drop 5 players)"
    by (simp only: foldl_deal bits take append_Nil MATCH_SIZE_def)
  ultimately show ?thesis
    unfolding exhaustive_balance_def Let_def const
    by (simp add: assms(1) MATCH_SIZE_def sum_list_replicate)
qed

section \<open>Properties\<close>

text \<open>
  For ten players with valid ratings \<open>exhaustive_balance\<close> returns two teams of five that
  together hold each of the ten exactly once, reports the exact rating total and the exact
  absolute difference of the team totals (no wrap-around in \<open>2 * a_sum\<close>), and puts the
  higher-rated side in team A.
\<close>

theorem balance_partitions_players:
  assumes "length players = MATCH_SIZE" and "\<forall>p \<in> set players. unat (rating p) \<le> 3000"
  shows "\<exists>r. exhaustive_balance rating players = Some r \<and>
    length (br_team_a r) = TEAM_SIZE \<and> length (br_team_b r) = TEAM_SIZE \<and>
    mset (br_team_a r) + mset (br_team_b r) = mset players \<and>
    unat (br_total_rating r) = rating_sum rating (br_team_a r) + rating_sum rating (br_team_b r) \<and>
    unat (br_team_delta r) + rating_sum rating (br_team_b r) = rating_sum rating (br_team_a r)"
proof -
  obtain r where r: "exhaustive_balance rating players = Some r" "balanced_split rating players r"
    by (rule exhaustive_balance_correct [of players rating]) (use assms in \<open>auto simp: MATCH_SIZE_def\<close>)
  moreover from r(2) have "rating_sum rating players =
      rating_sum rating (br_team_a r) + rating_sum rating (br_team_b r)"
    by (simp add: balanced_split_def rating_sum_mset flip: sum_mset.union image_mset_union)
  ultimately show ?thesis by (auto simp: balanced_split_def nat_diff_def)
qed

definition ten_ratings :: "u32 list" where
  "ten_ratings = [100, 200, 300, 400, 500, 600, 700, 800, 900, 1000]"

lemma ten_ratings_valid: "length ten_ratings = MATCH_SIZE" "\<forall>p \<in> set ten_ratings. unat p \<le> 3000"
  by (simp_all add: ten_ratings_def MATCH_SIZE_def)

theorem balance_partitions_players_witness:
  "\<exists>r. exhaustive_balance (\<lambda>x. x) ten_ratings = Some r \<and>
    length (br_team_a r) = TEAM_SIZE \<and> length (br_team_b r) = TEAM_SIZE \<and>
    mset (br_team_a r) + mset (br_team_b r) = mset ten_ratings \<and>
    unat (br_total_rating r) = rating_sum (\<lambda>x. x) (br_team_a r) + rating_sum (\<lambda>x. x) (br_team_b r) \<and>
    unat (br_team_delta r) + rating_sum (\<lambda>x. x) (br_team_b r) = rating_sum (\<lambda>x. x) (br_team_a r)"
  by (rule balance_partitions_players [OF ten_ratings_valid])

text \<open>
  C4: the search finds the minimum.  For ten players with valid ratings \<open>exhaustive_balance\<close>
  returns a division of the ten into two teams of five, the delta it reports is the difference of the
  totals of these two teams, and no division of the ten into two teams of five, not only those that
  the masks enumerate, has a smaller difference; the total it reports is that of all ten.
\<close>

theorem balance_is_optimal:
  assumes "length players = MATCH_SIZE" and "\<forall>p \<in> set players. unat (rating p) \<le> 3000"
  shows "\<exists>r. exhaustive_balance rating players = Some r \<and>
    is_split players (br_team_a r) (br_team_b r) \<and>
    unat (br_team_delta r) = team_difference rating (br_team_a r) (br_team_b r) \<and>
    (\<forall>a b. is_split players a b \<longrightarrow> unat (br_team_delta r) \<le> team_difference rating a b) \<and>
    unat (br_total_rating r) = rating_sum rating (br_team_a r) + rating_sum rating (br_team_b r)"
proof -
  have "length players = 10" using assms(1) by (simp add: MATCH_SIZE_def)
  from exhaustive_balance_split [OF this assms(2)] obtain r where r: "exhaustive_balance rating players = Some r"
      and split: "optimal_split rating players (br_team_a r) (br_team_b r)"
        "unat (br_team_delta r) = team_difference rating (br_team_a r) (br_team_b r)"
      and total: "unat (br_total_rating r) = rating_sum rating players"
    by blast
  then have "rating_sum rating players = rating_sum rating (br_team_a r) + rating_sum rating (br_team_b r)"
    by (simp add: optimal_split_def is_split_sum)
  with r split total show ?thesis by (auto simp: optimal_split_def)
qed

text \<open>Ten ratings of which one split is even, and ten that cannot be split evenly: the delta is 0 and 1.\<close>

theorem balance_is_optimal_witness:
  "(\<exists>r. exhaustive_balance (\<lambda>x. x) ten_ratings = Some r \<and> unat (br_team_delta r) \<le> 100 \<and>
     unat (br_total_rating r) = 5500) \<and>
   (\<exists>r. exhaustive_balance (\<lambda>x. x) [1, 0, 0, 0, 0, 0, 0, 0, 0, 0] = Some r \<and> unat (br_team_delta r) = 1)"
proof
  have split: "is_split ten_ratings [1000, 800, 600, 300, 100] [900, 700, 500, 400, 200]"
    by (simp add: is_split_def ten_ratings_def TEAM_SIZE_def)
  have diff: "team_difference (\<lambda>x. x) [1000, 800, 600, 300, 100] [900, 700, 500, 400, 200 :: u32] = 100"
    by (simp add: team_difference_def rating_sum_def)
  from balance_is_optimal [OF ten_ratings_valid] obtain r where r: "exhaustive_balance (\<lambda>x. x) ten_ratings = Some r"
      "is_split ten_ratings (br_team_a r) (br_team_b r)"
      "\<And>a b. is_split ten_ratings a b \<Longrightarrow> unat (br_team_delta r) \<le> team_difference (\<lambda>x. x) a b"
      "unat (br_total_rating r) = rating_sum (\<lambda>x. x) (br_team_a r) + rating_sum (\<lambda>x. x) (br_team_b r)"
    by blast
  moreover have "unat (br_team_delta r) \<le> 100" using r(3) [OF split] unfolding diff .
  moreover have "unat (br_total_rating r) = 5500"
    unfolding r(4) is_split_sum [OF r(2), symmetric] by (simp add: rating_sum_def ten_ratings_def)
  ultimately show "\<exists>r. exhaustive_balance (\<lambda>x. x) ten_ratings = Some r \<and> unat (br_team_delta r) \<le> 100 \<and>
      unat (br_total_rating r) = 5500" by auto
next
  let ?one = "[1, 0, 0, 0, 0, 0, 0, 0, 0, 0] :: u32 list"
  have "length ?one = MATCH_SIZE" "\<forall>p \<in> set ?one. unat p \<le> 3000" by (simp_all add: MATCH_SIZE_def)
  from balance_is_optimal [OF this] obtain r where r: "exhaustive_balance (\<lambda>x. x) ?one = Some r"
      "is_split ?one (br_team_a r) (br_team_b r)"
      "unat (br_team_delta r) = team_difference (\<lambda>x. x) (br_team_a r) (br_team_b r)"
      "\<And>a b. is_split ?one a b \<Longrightarrow> unat (br_team_delta r) \<le> team_difference (\<lambda>x. x) a b" by blast
  have "is_split ?one [1, 0, 0, 0, 0] [0, 0, 0, 0, 0]" by (simp add: is_split_def TEAM_SIZE_def)
  from r(4) [OF this] have "unat (br_team_delta r) \<le> 1" by (simp add: team_difference_def rating_sum_def)
  moreover have "rating_sum (\<lambda>x. x) (br_team_a r) + rating_sum (\<lambda>x. x) (br_team_b r) = 1"
    unfolding is_split_sum [OF r(2), symmetric] by (simp add: rating_sum_def)
  then have "team_difference (\<lambda>x. x) (br_team_a r) (br_team_b r) \<noteq> 0"
    unfolding team_difference_nat_diff nat_diff_def by presburger
  with r(3) have "unat (br_team_delta r) \<noteq> 0" by simp
  ultimately have "unat (br_team_delta r) = 1" by simp
  with r(1) show "\<exists>r. exhaustive_balance (\<lambda>x. x) ?one = Some r \<and> unat (br_team_delta r) = 1" by blast
qed

text \<open>
  the delta does not depend on the order in which the players are passed.
\<close>

theorem balance_delta_order_independent:
  assumes "length players = MATCH_SIZE" and "\<forall>p \<in> set players. unat (rating p) \<le> 3000"
    and "mset players' = mset players"
  shows "map_option br_team_delta (exhaustive_balance rating players') =
         map_option br_team_delta (exhaustive_balance rating players)"
proof -
  have one: "unat (br_team_delta r) \<le> unat (br_team_delta r')"
    if "balanced_split rating ys r'" and "mset ys = mset xs"
      and "\<And>a b. mset a + mset b = mset xs \<Longrightarrow> length a = TEAM_SIZE \<Longrightarrow>
        unat (br_team_delta r) \<le> nat_diff (rating_sum rating a) (rating_sum rating b)"
    for xs ys r r'
    using that(1,2) that(3) [of "br_team_a r'" "br_team_b r'"] by (simp add: balanced_split_def)
  have len: "length players' = 10" "length players = 10"
    using assms(1,3) by (simp_all add: MATCH_SIZE_def flip: size_mset)
  have ok: "\<forall>p \<in> set players'. unat (rating p) \<le> 3000"
    using assms(2,3) by (metis set_mset_mset)
  show ?thesis
    by (rule exhaustive_balance_correct [OF len(1) ok],
        rule exhaustive_balance_correct [OF len(2) assms(2)])
      (auto simp: word_unat_eq_iff assms(3) intro!: order.antisym intro: one)
qed

theorem balance_delta_order_independent_witness:
  "map_option br_team_delta (exhaustive_balance (\<lambda>x. x) (rev ten_ratings)) =
   map_option br_team_delta (exhaustive_balance (\<lambda>x. x) ten_ratings)"
  by (rule balance_delta_order_independent [OF ten_ratings_valid]) simp

text \<open>
  the team membership does depend on the order: with ten equal ratings the first five
  players passed form team A and the last five team B, whoever they are.
\<close>

theorem balance_ties_follow_input_order:
  assumes "length players = MATCH_SIZE" and "\<forall>p \<in> set players. rating p = r"
  shows "exhaustive_balance rating players =
    Some \<lparr>br_team_a = take TEAM_SIZE players, br_team_b = drop TEAM_SIZE players,
          br_team_delta = 0, br_total_rating = 10 * r\<rparr>"
  using exhaustive_balance_equal [of players rating r] assms by (simp add: match_sizes)

theorem balance_ties_follow_input_order_witness:
  "exhaustive_balance (\<lambda>_. 1000) [0 ..< 10 :: nat] =
     Some \<lparr>br_team_a = [0, 1, 2, 3, 4], br_team_b = [5, 6, 7, 8, 9],
           br_team_delta = 0, br_total_rating = 10000\<rparr> \<and>
   exhaustive_balance (\<lambda>_. 1000) (rev [0 ..< 10 :: nat]) =
     Some \<lparr>br_team_a = [9, 8, 7, 6, 5], br_team_b = [4, 3, 2, 1, 0],
           br_team_delta = 0, br_total_rating = 10000\<rparr>"
  using balance_ties_follow_input_order [of "[0 ..< 10 :: nat]" "\<lambda>_. 1000" 1000]
    balance_ties_follow_input_order [of "rev [0 ..< 10 :: nat]" "\<lambda>_. 1000" 1000]
  by (simp add: match_sizes upt_conv_Cons)

text \<open>
  fewer than ten players is the only way to panic, and of more than ten only the first
  ten are looked at, as the documentation of the release build says.
\<close>

theorem balance_uses_first_ten:
  "(exhaustive_balance rating players = None \<longleftrightarrow> length players < MATCH_SIZE) \<and>
   exhaustive_balance rating players = exhaustive_balance rating (take MATCH_SIZE players)"
proof (cases "length players < MATCH_SIZE")
  case False
  have read: "map (\<lambda>i. rating (take MATCH_SIZE players ! i)) [0..<MATCH_SIZE] =
      map (\<lambda>i. rating (players ! i)) [0..<MATCH_SIZE]"
    by simp
  have deal: "foldl (deal m (take MATCH_SIZE players)) ([], []) [0..<MATCH_SIZE] =
      foldl (deal m players) ([], []) [0..<MATCH_SIZE]" for m
    by (rule foldl_cong) (auto simp: deal_def)
  show ?thesis
    using False unfolding exhaustive_balance_def Let_def read deal
    by (auto simp: split: prod.splits)
qed (simp add: exhaustive_balance_def)

end
