(* ===== verification/Metrics.thy ===== *)
theory Metrics
  imports Prelude
begin

text \<open>
  Model of src/src/metrics/mod.rs: the atomic counters, and the snapshot with its averages.
  \<open>fetch_add\<close> and \<open>fetch_sub\<close> wrap at 64 bits, as word addition and subtraction do; the
  gauge \<open>current_queue_size\<close> is read as a signed value.
\<close>

record metrics =
  mt_total_players_enqueued :: u64
  mt_total_players_cancelled :: u64
  mt_total_matches_created :: u64
  mt_total_players_matched :: u64
  mt_match_attempts_insufficient :: u64
  mt_match_attempts_claim_failed :: u64
  mt_worker_cycles_total :: u64
  mt_total_stale_claims_recovered :: u64
  mt_current_queue_size :: i64
  mt_total_wait_time_ms :: u64
  mt_skill_spread_sum :: u64
  mt_skill_spread_count :: u64
  mt_team_delta_sum :: u64
  mt_team_delta_count :: u64

definition metrics_new :: metrics where
  "metrics_new =
     \<lparr>mt_total_players_enqueued = 0, mt_total_players_cancelled = 0,
      mt_total_matches_created = 0, mt_total_players_matched = 0,
      mt_match_attempts_insufficient = 0, mt_match_attempts_claim_failed = 0,
      mt_worker_cycles_total = 0, mt_total_stale_claims_recovered = 0,
      mt_current_queue_size = 0, mt_total_wait_time_ms = 0,
      mt_skill_spread_sum = 0, mt_skill_spread_count = 0,
      mt_team_delta_sum = 0, mt_team_delta_count = 0\<rparr>"

record metrics_snapshot =
  sn_total_players_enqueued :: u64
  sn_total_players_cancelled :: u64
  sn_total_matches_created :: u64
  sn_total_players_matched :: u64
  sn_match_attempts_insufficient :: u64
  sn_match_attempts_claim_failed :: u64
  sn_worker_cycles_total :: u64
  sn_total_stale_claims_recovered :: u64
  sn_current_queue_size :: i64
  sn_total_wait_time_ms :: u64
  sn_avg_wait_ms :: u64
  sn_avg_skill_spread :: u64
  sn_avg_team_delta :: u64

definition unwrap_or :: "'a \<Rightarrow> 'a option \<Rightarrow> 'a" where
  "unwrap_or d r = (case r of None \<Rightarrow> d | Some x \<Rightarrow> x)"

definition snapshot :: "metrics \<Rightarrow> metrics_snapshot" where
  "snapshot m =
     (let total_players_matched = mt_total_players_matched m;
          skill_spread_count = mt_skill_spread_count m;
          team_delta_count = mt_team_delta_count m;
          avg_wait_ms = unwrap_or 0 (checked_div (mt_total_wait_time_ms m) total_players_matched);
          avg_skill_spread = unwrap_or 0 (checked_div (mt_skill_spread_sum m) skill_spread_count);
          avg_team_delta = unwrap_or 0 (checked_div (mt_team_delta_sum m) team_delta_count)
      in \<lparr>sn_total_players_enqueued = mt_total_players_enqueued m,
          sn_total_players_cancelled = mt_total_players_cancelled m,
          sn_total_matches_created = mt_total_matches_created m,
          sn_total_players_matched = total_players_matched,
          sn_match_attempts_insufficient = mt_match_attempts_insufficient m,
          sn_match_attempts_claim_failed = mt_match_attempts_claim_failed m,
          sn_worker_cycles_total = mt_worker_cycles_total m,
          sn_total_stale_claims_recovered = mt_total_stale_claims_recovered m,
          sn_current_queue_size = mt_current_queue_size m,
          sn_total_wait_time_ms = mt_total_wait_time_ms m,
          sn_avg_wait_ms = avg_wait_ms, sn_avg_skill_spread = avg_skill_spread,
          sn_avg_team_delta = avg_team_delta\<rparr>)"

lemma unwrap_or_checked_div: "unwrap_or 0 (checked_div a b) = a div b"
  by (simp add: unwrap_or_def checked_div_def)

text \<open>In HOL \<open>a div 0 = 0\<close>, so the averages read as plain quotients.\<close>

lemma snapshot_averages [simp]:
  "sn_avg_wait_ms (snapshot m) = mt_total_wait_time_ms m div mt_total_players_matched m"
  "sn_avg_skill_spread (snapshot m) = mt_skill_spread_sum m div mt_skill_spread_count m"
  "sn_avg_team_delta (snapshot m) = mt_team_delta_sum m div mt_team_delta_count m"
  by (simp_all add: snapshot_def Let_def unwrap_or_checked_div)

lemma snapshot_counters [simp]:
  "sn_total_players_enqueued (snapshot m) = mt_total_players_enqueued m"
  "sn_total_players_cancelled (snapshot m) = mt_total_players_cancelled m"
  "sn_total_matches_created (snapshot m) = mt_total_matches_created m"
  "sn_total_players_matched (snapshot m) = mt_total_players_matched m"
  "sn_worker_cycles_total (snapshot m) = mt_worker_cycles_total m"
  "sn_current_queue_size (snapshot m) = mt_current_queue_size m"
  "sn_total_wait_time_ms (snapshot m) = mt_total_wait_time_ms m"
  by (simp_all add: snapshot_def Let_def)

end
