(* ===== verification/Matcher.thy ===== *)
theory Matcher
  imports Lifecycle Pool Balancer Metrics
begin

text \<open>
  Model of src/src/engine/matcher.rs: one match attempt of a worker.

  The shared state is the heap of players, the pool, the metrics and the match history.  The
  attempt is cut where it stops being a read: \<open>discover\<close> (seed and candidates), \<open>claim\<close> (the
  compare-and-swap loop and its rollback) and \<open>finish\<close> (balancing, match creation, metrics);
  \<open>attempt_match\<close> runs them in sequence.  What the environment supplies during the attempt
  (clock readings, the fresh match id, the strong references other tasks hold) is a record
  of readings.  \<open>None\<close> is a panic.
\<close>

section \<open>State\<close>

record worker_context =
  wc_worker_id :: u64
  wc_config :: config
  wc_match_history_limit :: usize

text \<open>
  \<open>InsufficientCandidates found window seed_mmr stage\<close> and \<open>ClaimFailed claimed needed\<close>.
\<close>

datatype match_attempt_result =
    Success match_record
  | PoolEmpty
  | InsufficientCandidates usize u32 u32 u8
  | ClaimFailed usize usize

record worker_state =
  ws_consecutive_failures :: u32
  ws_current_seed_id :: "uuid option"

definition worker_state_new :: worker_state where
  "worker_state_new = \<lparr>ws_consecutive_failures = 0, ws_current_seed_id = None\<rparr>"

definition reset :: "worker_state \<Rightarrow> worker_state" where
  "reset st = st\<lparr>ws_consecutive_failures := 0, ws_current_seed_id := None\<rparr>"

definition record_failure :: "uuid \<Rightarrow> worker_state \<Rightarrow> worker_state" where
  "record_failure seed_id st =
     (if ws_current_seed_id st = Some seed_id
      then st\<lparr>ws_consecutive_failures := ws_consecutive_failures st + 1\<rparr>
      else st\<lparr>ws_consecutive_failures := 1, ws_current_seed_id := Some seed_id\<rparr>)"

definition SEED_RETRY_LIMIT :: u32 where "SEED_RETRY_LIMIT = 3"
definition MATCH_HISTORY_LIMIT :: usize where "MATCH_HISTORY_LIMIT = 10000"

record 'm shared =
  sh_heap :: heap
  sh_pool :: "'m pool"
  sh_metrics :: metrics
  sh_history :: "match_record list"

record readings =
  rd_guard_now :: instant
  rd_scan_now :: instant
  rd_stage_now :: instant
  rd_unix_ms :: u64
  rd_matched_now :: "addr \<Rightarrow> instant"
  rd_wait_now :: "addr \<Rightarrow> instant"
  rd_capture_now :: "addr \<Rightarrow> instant"
  rd_match_id :: uuid
  rd_unix_secs :: u64
  rd_held :: "addr set"

text \<open>
  The wall clock reads as nanoseconds relative to the Unix epoch; a reading before the epoch
  counts as zero.
\<close>

definition duration_since_epoch :: "int \<Rightarrow> nat option" where
  "duration_since_epoch system_now = (if system_now < 0 then None else Some (nat system_now))"

definition unix_ms :: "int \<Rightarrow> u64" where
  "unix_ms system_now = of_nat ((case duration_since_epoch system_now of None \<Rightarrow> 0 | Some ns \<Rightarrow> ns) div 1000000)"

lemma unat_unix_ms:
  "system_now < 2 ^ 64 * 1000000 \<Longrightarrow> unat (unix_ms system_now) = nat system_now div 1000000"
  by (auto simp: unix_ms_def duration_since_epoch_def unat_of_nat nat_less_iff intro!: mod_less less_mult_imp_div_less)

section \<open>Seed selection and candidate discovery\<close>

definition select_seed ::
    "'m dash \<Rightarrow> worker_context \<Rightarrow> readings \<Rightarrow> 'm shared \<Rightarrow> worker_state \<Rightarrow> addr option" where
  "select_seed D ctx rd sh st =
     (case oldest_waiting D (sh_heap sh) (sh_pool sh) of
        None \<Rightarrow> None
      | Some primary_seed \<Rightarrow>
          let p = sh_heap sh primary_seed
          in if ws_current_seed_id st = Some (p_id p) \<and> SEED_RETRY_LIMIT \<le> ws_consecutive_failures st
             then let (exclude_min, exclude_max) =
                        scan_bounds (rd_guard_now rd) (p_skill_rating p) (p_join_timestamp p) (wc_config ctx)
                  in case oldest_waiting_excluding_range D (sh_heap sh) exclude_min exclude_max (sh_pool sh) of
                       Some alternate \<Rightarrow> Some alternate
                     | None \<Rightarrow> Some primary_seed
             else Some primary_seed)"

definition count_cycle :: "metrics \<Rightarrow> metrics" where
  "count_cycle m = m\<lparr>mt_worker_cycles_total := mt_worker_cycles_total m + 1\<rparr>"

definition count_insufficient :: "metrics \<Rightarrow> metrics" where
  "count_insufficient m = m\<lparr>mt_match_attempts_insufficient := mt_match_attempts_insufficient m + 1\<rparr>"

definition count_claim_failed :: "metrics \<Rightarrow> metrics" where
  "count_claim_failed m = m\<lparr>mt_match_attempts_claim_failed := mt_match_attempts_claim_failed m + 1\<rparr>"

text \<open>Phases 1 and 2.  The right value is the seed with the candidates it found.\<close>

definition discover ::
    "'m dash \<Rightarrow> worker_context \<Rightarrow> readings \<Rightarrow> 'm shared \<Rightarrow> worker_state \<Rightarrow>
       ((match_attempt_result + addr \<times> addr list) \<times> 'm shared \<times> worker_state) option" where
  "discover D ctx rd sh st =
     (case select_seed D ctx rd sh st of
        None \<Rightarrow> Some (Inl PoolEmpty, sh, st)
      | Some seed \<Rightarrow>
          let p = sh_heap sh seed;
              (min_rating, max_rating) =
                scan_bounds (rd_scan_now rd) (p_skill_rating p) (p_join_timestamp p) (wc_config ctx);
              stage = relaxation_stage (rd_stage_now rd) (p_join_timestamp p) (wc_config ctx);
              window = max_rating - min_rating;
              sh = sh\<lparr>sh_metrics := count_cycle (sh_metrics sh)\<rparr>
          in case range_scan D (sh_heap sh) (rd_held rd) min_rating max_rating (sh_pool sh) of
               None \<Rightarrow> None
             | Some candidates \<Rightarrow>
                 if length candidates < MATCH_SIZE
                 then Some (Inl (InsufficientCandidates (length candidates) window (p_skill_rating p) stage),
                            sh\<lparr>sh_metrics := count_insufficient (sh_metrics sh)\<rparr>,
                            record_failure (p_id p) st)
                 else Some (Inr (seed, candidates), sh, st))"

section \<open>Claiming\<close>

fun claim_loop :: "u64 \<Rightarrow> u64 \<Rightarrow> heap \<Rightarrow> addr list \<Rightarrow> addr list \<Rightarrow> heap \<times> addr list" where
  "claim_loop worker_id now_ms h claimed [] = (h, claimed)"
| "claim_loop worker_id now_ms h claimed (candidate # candidates) =
     (if length claimed = MATCH_SIZE then (h, claimed)
      else case try_claim worker_id now_ms (h candidate) of
          (True, p) \<Rightarrow> claim_loop worker_id now_ms (h(candidate := p)) (claimed @ [candidate]) candidates
        | (False, p) \<Rightarrow> claim_loop worker_id now_ms (h(candidate := p)) claimed candidates)"

definition release_all :: "addr list \<Rightarrow> heap \<Rightarrow> heap" where
  "release_all as h = foldl (\<lambda>h a. h(a := release_claim (h a))) h as"

definition claim ::
    "worker_context \<Rightarrow> readings \<Rightarrow> addr \<Rightarrow> addr list \<Rightarrow> 'm shared \<Rightarrow> worker_state \<Rightarrow>
       (match_attempt_result + addr list) \<times> 'm shared \<times> worker_state" where
  "claim ctx rd seed candidates sh st =
     (let now_ms = rd_unix_ms rd;
          (h, claimed) = claim_loop (wc_worker_id ctx) now_ms (sh_heap sh) [] candidates
      in if length claimed < MATCH_SIZE
         then (Inl (ClaimFailed (length claimed) MATCH_SIZE),
               sh\<lparr>sh_heap := release_all claimed h, sh_metrics := count_claim_failed (sh_metrics sh)\<rparr>,
               record_failure (p_id (h seed)) st)
         else (Inr claimed, sh\<lparr>sh_heap := h\<rparr>, st))"

section \<open>Balancing, match creation, metrics\<close>

definition list_max :: "'a::linorder \<Rightarrow> 'a list \<Rightarrow> 'a" where
  "list_max d xs = (case xs of [] \<Rightarrow> d | y # ys \<Rightarrow> foldl max y ys)"

definition list_min :: "'a::linorder \<Rightarrow> 'a list \<Rightarrow> 'a" where
  "list_min d xs = (case xs of [] \<Rightarrow> d | y # ys \<Rightarrow> foldl min y ys)"

definition mark_all :: "(addr \<Rightarrow> instant) \<Rightarrow> addr list \<Rightarrow> heap \<Rightarrow> heap" where
  "mark_all now as h = foldl (\<lambda>h a. h(a := mark_matched (now a) (h a))) h as"

definition remove_all :: "'m dash \<Rightarrow> heap \<Rightarrow> addr list \<Rightarrow> 'm pool \<Rightarrow> 'm pool" where
  "remove_all D h as pl = foldl (\<lambda>pl a. snd (pool_remove D h (p_id (h a)) pl)) pl as"

text \<open>The \<open>while history.len() > limit\<close> loop over the front of the deque.\<close>

function evict_oldest :: "usize \<Rightarrow> 'a list \<Rightarrow> 'a list" where
  "evict_oldest limit history =
     (if limit < length history then evict_oldest limit (tl history) else history)"
  by auto
termination by (relation "measure (length \<circ> snd)") auto

declare evict_oldest.simps [simp del]

definition push_history :: "usize \<Rightarrow> match_record \<Rightarrow> match_record list \<Rightarrow> match_record list" where
  "push_history limit m history = evict_oldest limit (history @ [m])"

definition update_metrics_on_success ::
    "match_record \<Rightarrow> u64 list \<Rightarrow> u32 \<Rightarrow> metrics \<Rightarrow> metrics" where
  "update_metrics_on_success completed_match wait_times_ms skill_spread m =
     m\<lparr>mt_total_matches_created := mt_total_matches_created m + 1,
       mt_total_players_matched := mt_total_players_matched m + of_nat MATCH_SIZE,
       mt_current_queue_size := mt_current_queue_size m - of_nat MATCH_SIZE,
       mt_total_wait_time_ms := mt_total_wait_time_ms m + sum_list wait_times_ms,
       mt_skill_spread_sum := mt_skill_spread_sum m + ucast skill_spread,
       mt_skill_spread_count := mt_skill_spread_count m + 1,
       mt_team_delta_sum := mt_team_delta_sum m + ucast (m_team_delta completed_match),
       mt_team_delta_count := mt_team_delta_count m + 1\<rparr>"

definition wait_times :: "readings \<Rightarrow> heap \<Rightarrow> addr list \<Rightarrow> u64 list" where
  "wait_times rd h as =
     map (\<lambda>a. unwrap_or (wait_ms (rd_wait_now rd a) (h a)) (matched_wait_ms (h a))) as"

definition build_match :: "readings \<Rightarrow> heap \<Rightarrow> addr list \<Rightarrow> addr balance_result \<Rightarrow> match_record" where
  "build_match rd h as balance =
     (let wait_times_ms = wait_times rd h as;
          avg_wait_ms = sum_list wait_times_ms div of_nat (length wait_times_ms);
          max_wait_ms = list_max 0 wait_times_ms;
          all_ratings = map (\<lambda>a. p_skill_rating (h a)) as;
          skill_spread = list_max 0 all_ratings - list_min 0 all_ratings;
          team_a = team_new (map (\<lambda>a. snapshot_capture (rd_capture_now rd a) (h a)) (br_team_a balance));
          team_b = team_new (map (\<lambda>a. snapshot_capture (rd_capture_now rd a) (h a)) (br_team_b balance))
      in match_new (rd_unix_secs rd) (rd_match_id rd) team_a team_b skill_spread avg_wait_ms max_wait_ms)"

text \<open>Phases 4 to 6.\<close>

definition finish ::
    "'m dash \<Rightarrow> worker_context \<Rightarrow> readings \<Rightarrow> addr list \<Rightarrow> 'm shared \<Rightarrow> worker_state \<Rightarrow>
       (match_attempt_result \<times> 'm shared \<times> worker_state) option" where
  "finish D ctx rd as sh st =
     (case exhaustive_balance (\<lambda>a. p_skill_rating (sh_heap sh a)) as of
        None \<Rightarrow> None
      | Some balance \<Rightarrow>
          let h = mark_all (rd_matched_now rd) as (sh_heap sh);
              m = build_match rd h as balance
          in Some (Success m,
               sh\<lparr>sh_heap := h,
                  sh_pool := remove_all D h as (sh_pool sh),
                  sh_history := push_history (wc_match_history_limit ctx) m (sh_history sh),
                  sh_metrics := update_metrics_on_success m (wait_times rd h as) (m_skill_spread m)
                                  (sh_metrics sh)\<rparr>,
               reset st))"

definition attempt_match ::
    "'m dash \<Rightarrow> worker_context \<Rightarrow> readings \<Rightarrow> 'm shared \<Rightarrow> worker_state \<Rightarrow>
       (match_attempt_result \<times> 'm shared \<times> worker_state) option" where
  "attempt_match D ctx rd sh st =
     (case discover D ctx rd sh st of
        None \<Rightarrow> None
      | Some (Inl r, sh, st) \<Rightarrow> Some (r, sh, st)
      | Some (Inr (seed, candidates), sh, st) \<Rightarrow>
          (case claim ctx rd seed candidates sh st of
             (Inl r, sh, st) \<Rightarrow> Some (r, sh, st)
           | (Inr as, sh, st) \<Rightarrow> finish D ctx rd as sh st))"

section \<open>Loops over distinct players\<close>

text \<open>The loops update each of their players once; on distinct players they act pointwise.\<close>

definition update_on :: "addr set \<Rightarrow> (addr \<Rightarrow> player \<Rightarrow> player) \<Rightarrow> heap \<Rightarrow> heap" where
  "update_on A f h = (\<lambda>a. if a \<in> A then f a (h a) else h a)"

lemma update_on_apply [simp]: "update_on A f h a = (if a \<in> A then f a (h a) else h a)"
  by (simp add: update_on_def)

lemma foldl_update:
  "distinct as \<Longrightarrow> foldl (\<lambda>h a. h(a := f a (h a))) h as = update_on (set as) f h"
  by (induction as rule: rev_induct) (auto simp: fun_eq_iff)

lemma release_all_eq: "distinct as \<Longrightarrow> release_all as h = update_on (set as) (\<lambda>_. release_claim) h"
  by (simp add: release_all_def foldl_update [of _ "\<lambda>_. release_claim"])

lemma mark_all_eq: "distinct as \<Longrightarrow> mark_all now as h = update_on (set as) (\<lambda>a. mark_matched (now a)) h"
  by (simp add: mark_all_def foldl_update [of _ "\<lambda>a. mark_matched (now a)"])

definition claimed_by :: "u64 \<Rightarrow> u64 \<Rightarrow> player \<Rightarrow> player" where
  "claimed_by w t p = p\<lparr>p_state := CLAIMED, p_claimed_by := w, p_claim_timestamp := t\<rparr>"

lemma claimed_by_simps [simp]:
  "p_id (claimed_by w t p) = p_id p" "p_skill_rating (claimed_by w t p) = p_skill_rating p"
  "p_join_timestamp (claimed_by w t p) = p_join_timestamp p" "p_state (claimed_by w t p) = CLAIMED"
  by (simp_all add: claimed_by_def)

lemma mark_matched_simps [simp]:
  "p_id (mark_matched now p) = p_id p" "p_skill_rating (mark_matched now p) = p_skill_rating p"
  "p_join_timestamp (mark_matched now p) = p_join_timestamp p"
  "p_matched_at (mark_matched now p) = Some now"
  by (simp_all add: mark_matched_step)

lemma release_claim_simps [simp]:
  "p_id (release_claim p) = p_id p" "p_skill_rating (release_claim p) = p_skill_rating p"
  "p_join_timestamp (release_claim p) = p_join_timestamp p"
  by (simp_all add: release_claim_step)

lemma claim_loop_eq:
  "distinct cs \<Longrightarrow> length cl \<le> MATCH_SIZE \<Longrightarrow>
   claim_loop w t h cl cs =
     (let as = take (MATCH_SIZE - length cl) (filter (\<lambda>a. is_waiting (h a)) cs)
      in (update_on (set as) (\<lambda>_. claimed_by w t) h, cl @ as))"
proof (induction w t h cl cs rule: claim_loop.induct)
  case (1 w t h cl)
  show ?case by (simp add: fun_eq_iff)
next
  case (2 w t h cl c cs)
  show ?case
  proof (cases "length cl = MATCH_SIZE")
    case True
    then show ?thesis by (simp add: fun_eq_iff)
  next
    case False
    with "2.prems" have room: "MATCH_SIZE - length cl = Suc (MATCH_SIZE - Suc (length cl))" by simp
    show ?thesis
    proof (cases "p_state (h c) = WAITING")
      case True
      then have step: "try_claim w t (h c) = (True, claimed_by w t (h c))"
        by (simp add: try_claim_step claimed_by_def)
      have same: "filter (\<lambda>a. is_waiting ((h(c := claimed_by w t (h c))) a)) cs = filter (\<lambda>a. is_waiting (h a)) cs"
        using "2.prems"(1) by (intro filter_cong) auto
      have "claim_loop w t h cl (c # cs) = claim_loop w t (h(c := claimed_by w t (h c))) (cl @ [c]) cs"
        using False by (simp add: step)
      also have "\<dots> = (let as = take (MATCH_SIZE - length (cl @ [c])) (filter (\<lambda>a. is_waiting ((h(c := claimed_by w t (h c))) a)) cs)
          in (update_on (set as) (\<lambda>_. claimed_by w t) (h(c := claimed_by w t (h c))), (cl @ [c]) @ as))"
        by (rule "2.IH"(1) [OF False step [symmetric]]) (use 2 False in auto)
      finally show ?thesis
        unfolding same using True "2.prems"(1)
        by (auto simp del: claim_loop.simps simp: room is_waiting_def fun_eq_iff Let_def dest: in_set_takeD)
    next
      case False
      then have step: "try_claim w t (h c) = (False, h c)" by (simp add: try_claim_step)
      from 2 \<open>length cl \<noteq> MATCH_SIZE\<close> False show ?thesis by (simp add: step is_waiting_def)
    qed
  qed
qed

lemma remove_all_ok:
  assumes "dashmap D" and "pool_ok D h pl" and "distinct as" and "set as \<subseteq> members D pl"
  shows "pool_ok D h (remove_all D h as pl) \<and>
    members D (remove_all D h as pl) = members D pl - set as \<and>
    pool_len D (remove_all D h as pl) + length as = pool_len D pl"
  using assms(3,4)
proof (induction as rule: rev_induct)
  case Nil
  show ?case using assms(2) by (simp add: remove_all_def)
next
  case (snoc a as)
  let ?pl = "remove_all D h as pl"
  from snoc have IH: "pool_ok D h ?pl" "members D ?pl = members D pl - set as"
      "pool_len D ?pl + length as = pool_len D pl"
    by auto
  with snoc.prems have a: "pool_map D ?pl (p_id (h a)) = Some a"
    using members_iff [OF IH(1)] by auto
  have step: "remove_all D h (as @ [a]) pl = snd (pool_remove D h (p_id (h a)) ?pl)"
    by (simp add: remove_all_def)
  have "0 < pool_len D ?pl"
    using a pool_len_members [OF assms(1) IH(1)] finite_members [OF assms(1), of ?pl]
    by (auto simp: card_gt_0_iff members_def ran_def)
  with a IH show ?case
    unfolding step
    by (auto simp: pool_ok_remove members_remove pool_len_remove assms(1) pool_contains_def
        simp flip: pool_map_def)
qed

lemma evict_oldest_eq: "evict_oldest limit history = drop (length history - limit) history"
proof (induction limit history rule: evict_oldest.induct)
  case (1 limit history)
  show ?case
  proof (cases "limit < length history")
    case True
    then have "length history - limit = Suc (length (tl history) - limit)" by simp
    with 1 [OF True] True show ?thesis
      by (subst evict_oldest.simps) (simp add: drop_Suc)
  next
    case False
    then show ?thesis by (subst evict_oldest.simps) simp
  qed
qed

lemma push_history_eq:
  "push_history limit m history = drop (Suc (length history) - limit) (history @ [m])"
  by (simp add: push_history_def evict_oldest_eq)

section \<open>The attempt, phase by phase\<close>

lemma select_seed_Some:
  assumes "dashmap D" and "select_seed D ctx rd sh st = Some a"
  shows "a \<in> members D (sh_pool sh)" and "is_waiting (sh_heap sh a)"
  using assms(2) oldest_waiting_Some [OF assms(1)] oldest_waiting_excluding_range_Some [OF assms(1)]
  by (auto simp: select_seed_def Let_def split: option.splits if_splits prod.splits)

lemma select_seed_None:
  assumes "dashmap D"
  shows "select_seed D ctx rd sh st = None \<longleftrightarrow>
    (\<forall>a \<in> members D (sh_pool sh). \<not> is_waiting (sh_heap sh a))"
  unfolding oldest_waiting_None [OF assms, symmetric]
  by (auto simp: select_seed_def Let_def split: option.splits if_splits prod.splits)

text \<open>The rating window of a seed, and the waiting members inside it.\<close>

definition seed_bounds :: "worker_context \<Rightarrow> readings \<Rightarrow> player \<Rightarrow> u32 \<times> u32" where
  "seed_bounds ctx rd p =
     scan_bounds (rd_scan_now rd) (p_skill_rating p) (p_join_timestamp p) (wc_config ctx)"

definition in_window :: "'m dash \<Rightarrow> worker_context \<Rightarrow> readings \<Rightarrow> 'm shared \<Rightarrow> addr \<Rightarrow> addr set" where
  "in_window D ctx rd sh seed =
     eligible D (sh_heap sh) (fst (seed_bounds ctx rd (sh_heap sh seed)))
       (snd (seed_bounds ctx rd (sh_heap sh seed))) (sh_pool sh)"

lemma finite_in_window: "dashmap D \<Longrightarrow> finite (in_window D ctx rd sh seed)"
  using finite_members [of D "sh_pool sh"] by (simp add: in_window_def eligible_def)

lemma in_window_members: "a \<in> in_window D ctx rd sh seed \<Longrightarrow> a \<in> members D (sh_pool sh)"
  and in_window_waiting: "a \<in> in_window D ctx rd sh seed \<Longrightarrow> is_waiting (sh_heap sh a)"
  by (auto simp: in_window_def eligible_def)

lemma members_rating:
  assumes "pool_ok D h pl" and "a \<in> members D pl"
  shows "p_skill_rating (h a) \<le> MAX_SKILL_RATING"
  using assms pool_okD(3) [OF assms(1)] by (auto simp: members_iff)

lemma seed_in_window:
  assumes "dashmap D" and "pool_ok D (sh_heap sh) (sh_pool sh)"
    and "select_seed D ctx rd sh st = Some seed"
  shows "seed \<in> in_window D ctx rd sh seed"
  using select_seed_Some [OF assms(1,3)] members_rating [OF assms(2)]
  by (auto simp: in_window_def eligible_def seed_bounds_def scan_bounds_contain)

lemma scan_in_window:
  assumes "dashmap D" and ok: "pool_ok D (sh_heap sh) (sh_pool sh)"
    and "p_skill_rating (sh_heap sh seed) \<le> MAX_SKILL_RATING"
  obtains cs where "\<And>held. range_scan D (sh_heap sh) held (fst (seed_bounds ctx rd (sh_heap sh seed)))
        (snd (seed_bounds ctx rd (sh_heap sh seed))) (sh_pool sh) = Some cs"
    and "distinct cs" and "sorted (map (join_key (sh_heap sh)) cs)"
    and "set cs \<subseteq> in_window D ctx rd sh seed"
    and "length cs = min MAX_CANDIDATES_PER_SCAN (card (in_window D ctx rd sh seed))"
proof -
  let ?b = "seed_bounds ctx rd (sh_heap sh seed)"
  have bounds: "fst ?b \<le> snd ?b" "snd ?b \<le> MAX_SKILL_RATING"
    using assms(3) by (simp_all add: seed_bounds_def scan_bounds_ordered scan_bounds_contain)
  have same: "range_scan D (sh_heap sh) held (fst ?b) (snd ?b) (sh_pool sh) =
      range_scan D (sh_heap sh) {} (fst ?b) (snd ?b) (sh_pool sh)" for held
    by (simp add: range_scan_eq [OF assms(1) ok bounds])
  obtain cs where "range_scan D (sh_heap sh) {} (fst ?b) (snd ?b) (sh_pool sh) = Some cs"
      "distinct cs" "sorted (map (join_key (sh_heap sh)) cs)"
      "set cs \<subseteq> in_window D ctx rd sh seed"
      "length cs = min MAX_CANDIDATES_PER_SCAN (card (in_window D ctx rd sh seed))"
    unfolding in_window_def using range_scan_candidates [OF assms(1) ok bounds] by metis
  with that same show ?thesis by metis
qed

text \<open>What the worker does with too few candidates, and with enough.\<close>

definition insufficient ::
    "worker_context \<Rightarrow> readings \<Rightarrow> addr \<Rightarrow> nat \<Rightarrow> 'm shared \<Rightarrow> worker_state \<Rightarrow>
       match_attempt_result \<times> 'm shared \<times> worker_state" where
  "insufficient ctx rd seed n sh st =
     (let p = sh_heap sh seed
      in (InsufficientCandidates n (snd (seed_bounds ctx rd p) - fst (seed_bounds ctx rd p))
            (p_skill_rating p) (relaxation_stage (rd_stage_now rd) (p_join_timestamp p) (wc_config ctx)),
          sh\<lparr>sh_metrics := count_insufficient (count_cycle (sh_metrics sh))\<rparr>,
          record_failure (p_id p) st))"

definition after_claim :: "worker_context \<Rightarrow> readings \<Rightarrow> addr list \<Rightarrow> 'm shared \<Rightarrow> 'm shared" where
  "after_claim ctx rd as sh =
     sh\<lparr>sh_metrics := count_cycle (sh_metrics sh),
        sh_heap := update_on (set as) (\<lambda>_. claimed_by (wc_worker_id ctx) (rd_unix_ms rd)) (sh_heap sh)\<rparr>"

lemma attempt_match_empty:
  "select_seed D ctx rd sh st = None \<Longrightarrow> attempt_match D ctx rd sh st = Some (PoolEmpty, sh, st)"
  by (simp add: attempt_match_def discover_def)

lemma discover_seed:
  assumes seed: "select_seed D ctx rd sh st = Some seed"
    and scan: "\<And>held. range_scan D (sh_heap sh) held (fst (seed_bounds ctx rd (sh_heap sh seed)))
        (snd (seed_bounds ctx rd (sh_heap sh seed))) (sh_pool sh) = Some cs"
  shows "discover D ctx rd sh st =
    (if length cs < MATCH_SIZE
     then Some (map_prod Inl id (insufficient ctx rd seed (length cs) sh st))
     else Some (Inr (seed, cs), sh\<lparr>sh_metrics := count_cycle (sh_metrics sh)\<rparr>, st))"
proof -
  obtain lo hi where b: "seed_bounds ctx rd (sh_heap sh seed) = (lo, hi)" by force
  note b' = b [unfolded seed_bounds_def]
  show ?thesis
    using scan by (simp add: discover_def seed Let_def b b' insufficient_def)
qed

lemma claim_waiting:
  assumes cs: "distinct cs" "\<forall>a \<in> set cs. is_waiting (sh_heap sh a)" "MATCH_SIZE \<le> length cs"
  shows "claim ctx rd seed cs sh st =
    (Inr (take MATCH_SIZE cs),
     sh\<lparr>sh_heap := update_on (set (take MATCH_SIZE cs))
          (\<lambda>_. claimed_by (wc_worker_id ctx) (rd_unix_ms rd)) (sh_heap sh)\<rparr>, st)"
proof -
  have filter: "filter (\<lambda>a. is_waiting (sh_heap sh a)) cs = cs" using cs(2) by simp
  have loop: "claim_loop (wc_worker_id ctx) (rd_unix_ms rd) (sh_heap sh) [] cs =
      (update_on (set (take MATCH_SIZE cs)) (\<lambda>_. claimed_by (wc_worker_id ctx) (rd_unix_ms rd)) (sh_heap sh),
       take MATCH_SIZE cs)"
    using claim_loop_eq [OF cs(1), of "[]"] by (simp add: filter Let_def)
  show ?thesis using cs(3) by (simp add: claim_def loop Let_def)
qed

lemma attempt_match_seed:
  assumes seed: "select_seed D ctx rd sh st = Some seed"
    and scan: "\<And>held. range_scan D (sh_heap sh) held (fst (seed_bounds ctx rd (sh_heap sh seed)))
        (snd (seed_bounds ctx rd (sh_heap sh seed))) (sh_pool sh) = Some cs"
    and cs: "distinct cs" "\<forall>a \<in> set cs. is_waiting (sh_heap sh a)"
  shows "attempt_match D ctx rd sh st =
    (if length cs < MATCH_SIZE then Some (insufficient ctx rd seed (length cs) sh st)
     else finish D ctx rd (take MATCH_SIZE cs) (after_claim ctx rd (take MATCH_SIZE cs) sh) st)"
  using discover_seed [OF seed scan] claim_waiting [of cs "sh\<lparr>sh_metrics := count_cycle (sh_metrics sh)\<rparr>"] cs
  by (simp add: attempt_match_def after_claim_def insufficient_def Let_def)

text \<open>
  All outcomes of an attempt that runs without interference: no panic, and no lost claim.
\<close>

lemma attempt_match_cases:
  assumes D: "dashmap D" and ok: "pool_ok D (sh_heap sh) (sh_pool sh)"
  obtains (empty) "select_seed D ctx rd sh st = None"
      and "attempt_match D ctx rd sh st = Some (PoolEmpty, sh, st)"
    | (insufficient) seed where "select_seed D ctx rd sh st = Some seed"
      and "card (in_window D ctx rd sh seed) < MATCH_SIZE"
      and "attempt_match D ctx rd sh st =
        Some (insufficient ctx rd seed (card (in_window D ctx rd sh seed)) sh st)"
    | (formed) seed cs where "select_seed D ctx rd sh st = Some seed"
      and "MATCH_SIZE \<le> card (in_window D ctx rd sh seed)"
      and "distinct cs" and "sorted (map (join_key (sh_heap sh)) cs)"
      and "set cs \<subseteq> in_window D ctx rd sh seed"
      and "length cs = min MAX_CANDIDATES_PER_SCAN (card (in_window D ctx rd sh seed))"
      and "attempt_match D ctx rd sh st =
        finish D ctx rd (take MATCH_SIZE cs) (after_claim ctx rd (take MATCH_SIZE cs) sh) st"
proof (cases "select_seed D ctx rd sh st")
  case None
  then show ?thesis using empty attempt_match_empty [OF None] by blast
next
  case (Some seed)
  have "p_skill_rating (sh_heap sh seed) \<le> MAX_SKILL_RATING"
    by (rule members_rating [OF ok select_seed_Some(1) [OF D Some]])
  from scan_in_window [OF D ok this] obtain cs where
    scan: "\<And>held. range_scan D (sh_heap sh) held (fst (seed_bounds ctx rd (sh_heap sh seed)))
        (snd (seed_bounds ctx rd (sh_heap sh seed))) (sh_pool sh) = Some cs"
    and cs: "distinct cs" "sorted (map (join_key (sh_heap sh)) cs)" "set cs \<subseteq> in_window D ctx rd sh seed"
      "length cs = min MAX_CANDIDATES_PER_SCAN (card (in_window D ctx rd sh seed))"
    by metis
  have "\<forall>a \<in> set cs. is_waiting (sh_heap sh a)" using cs(3) in_window_waiting by blast
  note attempt = attempt_match_seed [OF Some scan cs(1) this]
  show ?thesis
  proof (cases "card (in_window D ctx rd sh seed) < MATCH_SIZE")
    case True
    with cs(4) have "length cs = card (in_window D ctx rd sh seed)" "length cs < MATCH_SIZE"
      by (auto simp: MAX_CANDIDATES_PER_SCAN_def MATCH_SIZE_def)
    with insufficient [OF Some True] attempt show ?thesis by simp
  next
    case False
    with cs(4) have "\<not> length cs < MATCH_SIZE"
      by (auto simp: MAX_CANDIDATES_PER_SCAN_def MATCH_SIZE_def)
    with formed [OF Some _ cs] attempt False show ?thesis by simp
  qed
qed

section \<open>The finished match\<close>

lemma list_max_Max:
  assumes "xs \<noteq> []"
  shows "list_max d xs = Max (set xs)"
proof -
  have "(\<lambda>x s. max s x) = (max :: 'a \<Rightarrow> 'a \<Rightarrow> 'a)" by (simp add: fun_eq_iff max.commute)
  with assms show ?thesis
    by (cases xs) (simp_all only: list_max_def list.case foldl_conv_fold Max.set_eq_fold refl simp_thms)
qed

lemma list_min_Min:
  assumes "xs \<noteq> []"
  shows "list_min d xs = Min (set xs)"
proof -
  have "(\<lambda>x s. min s x) = (min :: 'a \<Rightarrow> 'a \<Rightarrow> 'a)" by (simp add: fun_eq_iff min.commute)
  with assms show ?thesis
    by (cases xs) (simp_all only: list_min_def list.case foldl_conv_fold Min.set_eq_fold refl simp_thms)
qed

lemma snapshot_capture_simps [simp]:
  "ps_id (snapshot_capture now p) = p_id p"
  "ps_skill_rating (snapshot_capture now p) = p_skill_rating p"
  by (simp_all add: snapshot_capture_def)

lemma match_new_simps [simp]:
  "m_team_a (match_new s i a b sp av mx) = a" "m_team_b (match_new s i a b sp av mx) = b"
  "m_team_delta (match_new s i a b sp av mx) = abs_diff (tm_total_rating a) (tm_total_rating b)"
  "m_skill_spread (match_new s i a b sp av mx) = sp" "m_avg_wait_ms (match_new s i a b sp av mx) = av"
  "m_max_wait_ms (match_new s i a b sp av mx) = mx" "m_match_id (match_new s i a b sp av mx) = i"
  by (simp_all add: match_new_def)

lemma team_new_simps [simp]:
  "tm_players (team_new ps) = ps"
  "tm_total_rating (team_new ps) = sum_list (map ps_skill_rating ps)"
  by (simp_all add: team_new_def Let_def)

lemma matched_wait_mark [simp]:
  "matched_wait_ms (mark_matched now p) = Some (millis_since now (p_join_timestamp p))"
  by (simp add: matched_wait_ms_def)

lemma unat_team_total:
  assumes "length as \<le> 10" and "\<forall>a \<in> set as. unat (rating a) \<le> 3000"
  shows "unat (sum_list (map rating as) :: u32) = rating_sum rating as"
proof -
  have "rating_sum rating as \<le> length as * 3000"
    unfolding rating_sum_def by (rule sum_list_map_bound) (use assms(2) in auto)
  also have "\<dots> \<le> 30000" using assms(1) by simp
  finally have "sum_list (map unat (map rating as)) < 2 ^ LENGTH(32)"
    by (simp add: rating_sum_def comp_def)
  then show ?thesis by (simp add: unat_sum_list_no_wrap rating_sum_def comp_def)
qed

text \<open>
  What a finished match records about the claimed players \<open>as\<close> of heap \<open>h\<close>, marked as matched at
  the instants \<open>now\<close>: its teams are an optimal division of the ten, every player is captured with his
  rating and his wait up to his mark, and the totals, the delta, the spread, the average and the
  longest wait are those of the players.
\<close>

definition player_shot :: "(addr \<Rightarrow> instant) \<Rightarrow> heap \<Rightarrow> addr \<Rightarrow> player_snapshot" where
  "player_shot now h a =
     \<lparr>ps_id = p_id (h a), ps_skill_rating = p_skill_rating (h a),
      ps_wait_ms = millis_since (now a) (p_join_timestamp (h a))\<rparr>"

definition teams_of :: "(addr \<Rightarrow> instant) \<Rightarrow> heap \<Rightarrow> addr list \<Rightarrow> addr list \<Rightarrow> match_record \<Rightarrow> bool" where
  "teams_of now h xs ys m \<longleftrightarrow>
     tm_players (m_team_a m) = map (player_shot now h) xs \<and> tm_players (m_team_b m) = map (player_shot now h) ys \<and>
     unat (tm_total_rating (m_team_a m)) = rating_sum (\<lambda>a. p_skill_rating (h a)) xs \<and>
     unat (tm_total_rating (m_team_b m)) = rating_sum (\<lambda>a. p_skill_rating (h a)) ys \<and>
     unat (m_team_delta m) = team_difference (\<lambda>a. p_skill_rating (h a)) xs ys"

definition match_of :: "(addr \<Rightarrow> instant) \<Rightarrow> heap \<Rightarrow> addr list \<Rightarrow> match_record \<Rightarrow> bool" where
  "match_of now h as m \<longleftrightarrow>
     (\<exists>xs ys. optimal_split (\<lambda>a. p_skill_rating (h a)) as xs ys \<and> teams_of now h xs ys m) \<and>
     m_skill_spread m = Max ((\<lambda>a. p_skill_rating (h a)) ` set as) - Min ((\<lambda>a. p_skill_rating (h a)) ` set as) \<and>
     m_avg_wait_ms m = sum_list (map (\<lambda>a. millis_since (now a) (p_join_timestamp (h a))) as) div of_nat (length as) \<and>
     m_max_wait_ms m = Max ((\<lambda>a. millis_since (now a) (p_join_timestamp (h a))) ` set as)"

lemma match_of_players:
  assumes "match_of now h as m"
  shows "length (tm_players (m_team_a m)) = TEAM_SIZE" and "length (tm_players (m_team_b m)) = TEAM_SIZE"
    and "image_mset ps_id (mset (match_players m)) = image_mset (\<lambda>a. p_id (h a)) (mset as)"
proof -
  from assms obtain xs ys where teams: "is_split as xs ys" "teams_of now h xs ys m"
    by (auto simp: match_of_def optimal_split_def)
  then show "length (tm_players (m_team_a m)) = TEAM_SIZE" "length (tm_players (m_team_b m)) = TEAM_SIZE"
    by (simp_all add: teams_of_def is_split_def)
  from teams have "mset xs + mset ys = mset as" "match_players m = map (player_shot now h) (xs @ ys)"
    by (simp_all add: is_split_def teams_of_def match_players_def)
  moreover from this(2) have "map ps_id (match_players m) = map (\<lambda>a. p_id (h a)) (xs @ ys)"
    by (simp add: player_shot_def comp_def)
  ultimately show "image_mset ps_id (mset (match_players m)) = image_mset (\<lambda>a. p_id (h a)) (mset as)"
    by (metis mset_append mset_map)
qed

text \<open>Only the identifier, the rating and the join time of the players matter, and their marks.\<close>

lemma match_of_cong:
  assumes "\<And>a. a \<in> set as \<Longrightarrow> p_id (h' a) = p_id (h a) \<and> p_skill_rating (h' a) = p_skill_rating (h a) \<and>
    p_join_timestamp (h' a) = p_join_timestamp (h a) \<and> now' a = now a"
  shows "match_of now' h' as m \<longleftrightarrow> match_of now h as m"
proof -
  have sums: "rating_sum (\<lambda>a. p_skill_rating (h' a)) xs = rating_sum (\<lambda>a. p_skill_rating (h a)) xs"
    "map (player_shot now' h') xs = map (player_shot now h) xs" if "set xs \<subseteq> set as" for xs
  proof -
    have same: "unat (p_skill_rating (h' a)) = unat (p_skill_rating (h a))" "player_shot now' h' a = player_shot now h a"
      if "a \<in> set xs" for a
      using assms subsetD [OF \<open>set xs \<subseteq> set as\<close> that] by (simp_all add: player_shot_def)
    show "rating_sum (\<lambda>a. p_skill_rating (h' a)) xs = rating_sum (\<lambda>a. p_skill_rating (h a)) xs"
      unfolding rating_sum_def by (intro arg_cong [where f = sum_list] map_cong) (simp_all add: same)
    show "map (player_shot now' h') xs = map (player_shot now h) xs" by (simp add: same)
  qed
  have diffs: "team_difference (\<lambda>a. p_skill_rating (h' a)) xs ys = team_difference (\<lambda>a. p_skill_rating (h a)) xs ys"
    "teams_of now' h' xs ys m = teams_of now h xs ys m" if "is_split as xs ys" for xs ys
    using is_split_set [OF that] by (simp_all add: team_difference_def teams_of_def sums)
  have split: "optimal_split (\<lambda>a. p_skill_rating (h' a)) as xs ys \<and> teams_of now' h' xs ys m \<longleftrightarrow>
      optimal_split (\<lambda>a. p_skill_rating (h a)) as xs ys \<and> teams_of now h xs ys m" for xs ys
    unfolding optimal_split_def using diffs by auto
  have ratings: "(\<lambda>a. p_skill_rating (h' a)) ` set as = (\<lambda>a. p_skill_rating (h a)) ` set as"
    using assms by (intro image_cong) simp_all
  have waits: "map (\<lambda>a. millis_since (now' a) (p_join_timestamp (h' a))) as =
      map (\<lambda>a. millis_since (now a) (p_join_timestamp (h a))) as"
    "(\<lambda>a. millis_since (now' a) (p_join_timestamp (h' a))) ` set as =
      (\<lambda>a. millis_since (now a) (p_join_timestamp (h a))) ` set as"
    using assms by (intro map_cong image_cong; simp)+
  show ?thesis unfolding match_of_def split ratings waits ..
qed

text \<open>What is recorded about players that have been marked, on a heap \<open>h\<close>.\<close>

lemma build_match_of:
  assumes as: "distinct as" "length as = MATCH_SIZE"
    and valid: "\<forall>a \<in> set as. p_skill_rating (h a) \<le> MAX_SKILL_RATING"
    and marked: "\<forall>a \<in> set as. p_matched_at (h a) = Some (rd_matched_now rd a)"
  obtains r where "exhaustive_balance (\<lambda>a. p_skill_rating (h a)) as = Some r"
    and "match_of (rd_matched_now rd) h as (build_match rd h as r)"
    and "wait_times rd h as = map (\<lambda>a. millis_since (rd_matched_now rd a) (p_join_timestamp (h a))) as"
proof -
  let ?r = "\<lambda>a. p_skill_rating (h a)" and ?now = "rd_matched_now rd"
  have ratings: "\<forall>a \<in> set as. unat (?r a) \<le> 3000"
    using valid by (simp add: word_le_nat_alt MAX_SKILL_RATING_def)
  have "length as = 10" using as(2) by (simp add: MATCH_SIZE_def)
  from exhaustive_balance_split [OF this ratings] obtain r where r: "exhaustive_balance ?r as = Some r"
      "optimal_split ?r as (br_team_a r) (br_team_b r)" by blast
  let ?m = "build_match rd h as r"
  from r(2) have split: "is_split as (br_team_a r) (br_team_b r)" by (simp add: optimal_split_def)
  have shot: "snapshot_capture now (h a) = player_shot ?now h a" if "a \<in> set as" for a now
    using that marked by (simp add: snapshot_capture_def matched_wait_ms_def player_shot_def)
  have team: "unat (sum_list (map ?r xs)) = rating_sum ?r xs"
    "map (\<lambda>a. snapshot_capture (rd_capture_now rd a) (h a)) xs = map (player_shot ?now h) xs"
    if "xs \<in> {br_team_a r, br_team_b r}" for xs
  proof -
    have xs: "length xs \<le> 10" "set xs \<subseteq> set as" using split that is_split_set [OF split] by (auto simp: is_split_def TEAM_SIZE_def)
    show "unat (sum_list (map ?r xs)) = rating_sum ?r xs" by (rule unat_team_total) (use xs ratings in auto)
    show "map (\<lambda>a. snapshot_capture (rd_capture_now rd a) (h a)) xs = map (player_shot ?now h) xs" using xs(2) shot by auto
  qed
  have teams: "teams_of ?now h (br_team_a r) (br_team_b r) ?m"
    using team [of "br_team_a r"] team [of "br_team_b r"] by (simp add: teams_of_def build_match_def Let_def unat_abs_diff_nat_diff team_difference_nat_diff comp_def)
  have waits: "wait_times rd h as = map (\<lambda>a. millis_since (?now a) (p_join_timestamp (h a))) as"
    using marked by (simp add: wait_times_def unwrap_or_def matched_wait_ms_def)
  have some: "as \<noteq> []" using \<open>length as = 10\<close> by auto
  have "match_of ?now h as ?m"
    unfolding match_of_def
  proof (intro conjI)
    show "\<exists>xs ys. optimal_split ?r as xs ys \<and> teams_of ?now h xs ys ?m" using r(2) teams by blast
    show "m_skill_spread ?m = Max (?r ` set as) - Min (?r ` set as)"
      "m_avg_wait_ms ?m = sum_list (map (\<lambda>a. millis_since (?now a) (p_join_timestamp (h a))) as) div of_nat (length as)"
      "m_max_wait_ms ?m = Max ((\<lambda>a. millis_since (?now a) (p_join_timestamp (h a))) ` set as)"
      using some by (simp_all add: build_match_def Let_def waits list_max_Max list_min_Min)
  qed
  with r(1) waits show ?thesis using that by blast
qed

lemma match_of_marked:
  "match_of now' (update_on A (\<lambda>a. mark_matched (now a)) h) as m = match_of now' h as m"
  by (rule match_of_cong) simp

lemma finish_success:
  assumes as: "distinct as" "length as = MATCH_SIZE"
    and valid: "\<forall>a \<in> set as. p_skill_rating (sh_heap sh a) \<le> MAX_SKILL_RATING"
  obtains m where "match_of (rd_matched_now rd) (sh_heap sh) as m"
    and "finish D ctx rd as sh st =
      Some (Success m,
        sh\<lparr>sh_heap := update_on (set as) (\<lambda>a. mark_matched (rd_matched_now rd a)) (sh_heap sh),
           sh_pool := remove_all D (update_on (set as) (\<lambda>a. mark_matched (rd_matched_now rd a)) (sh_heap sh)) as (sh_pool sh),
           sh_history := push_history (wc_match_history_limit ctx) m (sh_history sh),
           sh_metrics := update_metrics_on_success m
             (map (\<lambda>a. millis_since (rd_matched_now rd a) (p_join_timestamp (sh_heap sh a))) as)
             (m_skill_spread m) (sh_metrics sh)\<rparr>,
        reset st)"
proof -
  let ?h = "update_on (set as) (\<lambda>a. mark_matched (rd_matched_now rd a)) (sh_heap sh)"
  have rating: "p_skill_rating (?h a) = p_skill_rating (sh_heap sh a)"
    and join: "p_join_timestamp (?h a) = p_join_timestamp (sh_heap sh a)" for a by simp_all
  have "\<forall>a \<in> set as. p_skill_rating (?h a) \<le> MAX_SKILL_RATING" using valid by simp
  moreover have "\<forall>a \<in> set as. p_matched_at (?h a) = Some (rd_matched_now rd a)" by simp
  ultimately obtain r where r: "exhaustive_balance (\<lambda>a. p_skill_rating (?h a)) as = Some r"
    and m: "match_of (rd_matched_now rd) ?h as (build_match rd ?h as r)"
    and waits: "wait_times rd ?h as = map (\<lambda>a. millis_since (rd_matched_now rd a) (p_join_timestamp (?h a))) as"
    by (rule build_match_of [OF as])
  show ?thesis
    by (rule that [OF m [unfolded match_of_marked]])
      (simp add: finish_def r [unfolded rating] mark_all_eq [OF as(1)] waits join Let_def del: update_on_apply)
qed

lemma match_of_claimed:
  "match_of now (update_on A (\<lambda>_. claimed_by w t) h) as m = match_of now h as m"
  by (rule match_of_cong) simp

lemma after_claim_simps [simp]:
  "sh_pool (after_claim ctx rd as sh) = sh_pool sh"
  "sh_history (after_claim ctx rd as sh) = sh_history sh"
  "sh_metrics (after_claim ctx rd as sh) = count_cycle (sh_metrics sh)"
  "sh_heap (after_claim ctx rd as sh) =
     update_on (set as) (\<lambda>_. claimed_by (wc_worker_id ctx) (rd_unix_ms rd)) (sh_heap sh)"
  by (simp_all add: after_claim_def)

text \<open>The first ten of a list sorted by a key precede the rest of it.\<close>

lemma sorted_prefix_le:
  assumes "sorted (map f xs)" and "a \<in> set (take n xs)" and "b \<in> set xs - set (take n xs)"
  shows "f a \<le> f b"
proof -
  from assms(1) have "sorted (map f (take n xs) @ map f (drop n xs))" by (simp flip: map_append)
  moreover have "b \<in> set (drop n xs)"
    using assms(3) by (metis DiffD1 DiffD2 Un_iff append_take_drop_id set_append)
  ultimately show ?thesis using assms(2) unfolding sorted_append by auto
qed

text \<open>The candidates claimed joined before the others of the window; so a seed that is the oldest is claimed.\<close>

lemma take_first:
  assumes "dashmap D" and "pool_ok D (sh_heap sh) (sh_pool sh)" and "distinct cs"
    and "sorted (map (join_key (sh_heap sh)) cs)" and "set cs \<subseteq> in_window D ctx rd sh seed"
    and "length cs = min MAX_CANDIDATES_PER_SCAN (card (in_window D ctx rd sh seed))"
    and "card (in_window D ctx rd sh seed) \<le> MAX_CANDIDATES_PER_SCAN"
  shows "\<forall>a \<in> set (take n cs). \<forall>b \<in> in_window D ctx rd sh seed - set (take n cs).
    join_key (sh_heap sh) a < join_key (sh_heap sh) b"
proof (intro ballI)
  fix a b assume a: "a \<in> set (take n cs)" and b: "b \<in> in_window D ctx rd sh seed - set (take n cs)"
  have "card (set cs) = card (in_window D ctx rd sh seed)" using assms(3,6,7) by (simp add: distinct_card)
  with assms(5) have all: "set cs = in_window D ctx rd sh seed"
    using finite_in_window [OF assms(1)] by (simp add: card_subset_eq)
  then have "join_key (sh_heap sh) a \<le> join_key (sh_heap sh) b"
    using sorted_prefix_le [OF assms(4) a] b by simp
  moreover have "a \<in> members D (sh_pool sh)" "b \<in> members D (sh_pool sh)" "a \<noteq> b"
    using a b assms(5) set_take_subset [of n cs] in_window_members by blast+
  then have "join_key (sh_heap sh) a \<noteq> join_key (sh_heap sh) b"
    using inj_on_join_key [OF assms(2)] by (auto dest: inj_onD)
  ultimately show "join_key (sh_heap sh) a < join_key (sh_heap sh) b" by simp
qed

lemma oldest_is_first:
  assumes "dashmap D" and "oldest_waiting D (sh_heap sh) (sh_pool sh) = Some seed"
    and "seed \<in> in_window D ctx rd sh seed" and "A \<subseteq> in_window D ctx rd sh seed" and "A \<noteq> {}"
    and "\<forall>a \<in> A. \<forall>b \<in> in_window D ctx rd sh seed - A. join_key (sh_heap sh) a < join_key (sh_heap sh) b"
  shows "seed \<in> A"
proof (rule ccontr)
  assume "seed \<notin> A"
  obtain a where a: "a \<in> A" using assms(5) by blast
  with \<open>seed \<notin> A\<close> assms(3,6) have "join_key (sh_heap sh) a < join_key (sh_heap sh) seed" by auto
  moreover have "join_key (sh_heap sh) seed \<le> join_key (sh_heap sh) a"
    using oldest_waiting_Some(3) [OF assms(1,2)] a assms(4) in_window_members in_window_waiting by blast
  ultimately show False by simp
qed

lemma attempt_match_formed:
  assumes D: "dashmap D" and ok: "pool_ok D (sh_heap sh) (sh_pool sh)"
    and seed: "select_seed D ctx rd sh st = Some seed"
    and enough: "MATCH_SIZE \<le> card (in_window D ctx rd sh seed)"
  obtains as m sh' where "distinct as" and "length as = MATCH_SIZE"
    and "set as \<subseteq> in_window D ctx rd sh seed" and "match_of (rd_matched_now rd) (sh_heap sh) as m"
    and "attempt_match D ctx rd sh st = Some (Success m, sh', reset st)"
    and "\<And>a. sh_heap sh' a =
      (if a \<in> set as then mark_matched (rd_matched_now rd a)
         (claimed_by (wc_worker_id ctx) (rd_unix_ms rd) (sh_heap sh a)) else sh_heap sh a)"
    and "pool_ok D (sh_heap sh') (sh_pool sh')"
    and "members D (sh_pool sh') = members D (sh_pool sh) - set as"
    and "pool_len D (sh_pool sh') + MATCH_SIZE = pool_len D (sh_pool sh)"
    and "sh_history sh' = push_history (wc_match_history_limit ctx) m (sh_history sh)"
    and "sh_metrics sh' = update_metrics_on_success m
      (map (\<lambda>a. millis_since (rd_matched_now rd a) (p_join_timestamp (sh_heap sh a))) as)
      (m_skill_spread m) (count_cycle (sh_metrics sh))"
    and "card (in_window D ctx rd sh seed) \<le> MAX_CANDIDATES_PER_SCAN \<Longrightarrow>
      \<forall>a \<in> set as. \<forall>b \<in> in_window D ctx rd sh seed - set as. join_key (sh_heap sh) a < join_key (sh_heap sh) b"
proof (rule attempt_match_cases [OF D ok, of ctx rd st])
  fix seed' cs
  assume seed': "select_seed D ctx rd sh st = Some seed'"
    and cs: "distinct cs" "sorted (map (join_key (sh_heap sh)) cs)"
      "set cs \<subseteq> in_window D ctx rd sh seed'"
      "length cs = min MAX_CANDIDATES_PER_SCAN (card (in_window D ctx rd sh seed'))"
    and attempt: "attempt_match D ctx rd sh st =
        finish D ctx rd (take MATCH_SIZE cs) (after_claim ctx rd (take MATCH_SIZE cs) sh) st"
  let ?as = "take MATCH_SIZE cs" and ?sh = "after_claim ctx rd (take MATCH_SIZE cs) sh"
  from seed seed' have [simp]: "seed' = seed" by simp
  have as: "distinct ?as" "length ?as = MATCH_SIZE" "set ?as \<subseteq> in_window D ctx rd sh seed"
    using cs enough set_take_subset [of MATCH_SIZE cs]
    by (auto simp: MAX_CANDIDATES_PER_SCAN_def MATCH_SIZE_def)
  then have mem: "set ?as \<subseteq> members D (sh_pool sh)" using in_window_members by blast
  have ok': "pool_ok D (sh_heap ?sh) (sh_pool ?sh)"
    using ok pool_ok_heap_cong [of D "sh_pool sh" "sh_heap ?sh" "sh_heap sh"] by simp
  obtain m where m: "match_of (rd_matched_now rd) (sh_heap ?sh) ?as m" "finish D ctx rd ?as ?sh st =
      Some (Success m,
        ?sh\<lparr>sh_heap := update_on (set ?as) (\<lambda>a. mark_matched (rd_matched_now rd a)) (sh_heap ?sh),
           sh_pool := remove_all D (update_on (set ?as) (\<lambda>a. mark_matched (rd_matched_now rd a)) (sh_heap ?sh)) ?as (sh_pool ?sh),
           sh_history := push_history (wc_match_history_limit ctx) m (sh_history ?sh),
           sh_metrics := update_metrics_on_success m
             (map (\<lambda>a. millis_since (rd_matched_now rd a) (p_join_timestamp (sh_heap ?sh a))) ?as)
             (m_skill_spread m) (sh_metrics ?sh)\<rparr>,
        reset st)" (is "_ = Some (_, ?sh', _)")
    by (rule finish_success [OF as(1,2), where sh = ?sh]) (use mem members_rating [OF ok] in auto)
  have "pool_ok D (sh_heap ?sh') (sh_pool sh)"
    using ok pool_ok_heap_cong [of D "sh_pool sh" "sh_heap ?sh'" "sh_heap sh"] by simp
  note removed = remove_all_ok [OF D this as(1) mem]
  note fifo = take_first [OF D ok cs]
  show thesis
    by (rule that [of ?as m ?sh'])
      (use as m attempt removed fifo in
        \<open>simp_all add: match_of_claimed if_distrib [of p_join_timestamp] cong: if_cong\<close>)
qed (use seed enough in auto)

text \<open>The only way to a match.\<close>

lemma success_formed:
  assumes "dashmap D" and "pool_ok D (sh_heap sh) (sh_pool sh)"
    and "attempt_match D ctx rd sh st = Some (Success m, sh', st')"
  obtains seed where "select_seed D ctx rd sh st = Some seed"
    and "MATCH_SIZE \<le> card (in_window D ctx rd sh seed)"
  by (rule attempt_match_cases [OF assms(1,2), of ctx rd st])
    (use assms(3) in \<open>auto simp: insufficient_def Let_def\<close>)

lemma success_cases:
  assumes D: "dashmap D" and ok: "pool_ok D (sh_heap sh) (sh_pool sh)"
    and res: "attempt_match D ctx rd sh st = Some (Success m, sh', st')"
  obtains seed as where "select_seed D ctx rd sh st = Some seed"
    and "distinct as" and "length as = MATCH_SIZE"
    and "set as \<subseteq> in_window D ctx rd sh seed" and "match_of (rd_matched_now rd) (sh_heap sh) as m"
    and "\<And>a. sh_heap sh' a =
      (if a \<in> set as then mark_matched (rd_matched_now rd a)
         (claimed_by (wc_worker_id ctx) (rd_unix_ms rd) (sh_heap sh a)) else sh_heap sh a)"
    and "pool_ok D (sh_heap sh') (sh_pool sh')"
    and "members D (sh_pool sh') = members D (sh_pool sh) - set as"
    and "pool_len D (sh_pool sh') + MATCH_SIZE = pool_len D (sh_pool sh)"
    and "sh_history sh' = push_history (wc_match_history_limit ctx) m (sh_history sh)"
    and "sh_metrics sh' = update_metrics_on_success m
      (map (\<lambda>a. millis_since (rd_matched_now rd a) (p_join_timestamp (sh_heap sh a))) as)
      (m_skill_spread m) (count_cycle (sh_metrics sh))"
    and "card (in_window D ctx rd sh seed) \<le> MAX_CANDIDATES_PER_SCAN \<Longrightarrow>
      \<forall>a \<in> set as. \<forall>b \<in> in_window D ctx rd sh seed - set as. join_key (sh_heap sh) a < join_key (sh_heap sh) b"
    and "st' = reset st"
proof (rule success_formed [OF assms], rule attempt_match_formed [OF D ok], assumption, assumption)
  fix seed as m' sh''
  assume "select_seed D ctx rd sh st = Some seed" "distinct as" "length as = MATCH_SIZE"
    "set as \<subseteq> in_window D ctx rd sh seed" "match_of (rd_matched_now rd) (sh_heap sh) as m'"
    and res': "attempt_match D ctx rd sh st = Some (Success m', sh'', reset st)"
    and "\<And>a. sh_heap sh'' a =
      (if a \<in> set as then mark_matched (rd_matched_now rd a)
         (claimed_by (wc_worker_id ctx) (rd_unix_ms rd) (sh_heap sh a)) else sh_heap sh a)"
    and "pool_ok D (sh_heap sh'') (sh_pool sh'')"
    "members D (sh_pool sh'') = members D (sh_pool sh) - set as"
    "pool_len D (sh_pool sh'') + MATCH_SIZE = pool_len D (sh_pool sh)"
    "sh_history sh'' = push_history (wc_match_history_limit ctx) m' (sh_history sh)"
    "sh_metrics sh'' = update_metrics_on_success m'
      (map (\<lambda>a. millis_since (rd_matched_now rd a) (p_join_timestamp (sh_heap sh a))) as)
      (m_skill_spread m') (count_cycle (sh_metrics sh))"
    "card (in_window D ctx rd sh seed) \<le> MAX_CANDIDATES_PER_SCAN \<Longrightarrow>
      \<forall>a \<in> set as. \<forall>b \<in> in_window D ctx rd sh seed - set as. join_key (sh_heap sh) a < join_key (sh_heap sh) b"
  moreover from res res' have "m' = m" "sh'' = sh'" "st' = reset st" by auto
  ultimately show thesis using that by blast
qed

lemma attempt_match_total:
  assumes "dashmap D" and "pool_ok D (sh_heap sh) (sh_pool sh)"
  obtains r sh' st' where "attempt_match D ctx rd sh st = Some (r, sh', st')"
    and "pool_ok D (sh_heap sh') (sh_pool sh')"
proof (rule attempt_match_cases [OF assms, of ctx rd st])
  fix seed cs
  assume formed: "select_seed D ctx rd sh st = Some seed" "MATCH_SIZE \<le> card (in_window D ctx rd sh seed)"
  show ?thesis by (rule attempt_match_formed [OF assms formed]) (rule that)
qed (use assms(2) that in \<open>auto simp: insufficient_def Let_def\<close>)

lemma failed_attempt:
  assumes "dashmap D" and "pool_ok D (sh_heap sh) (sh_pool sh)"
    and "attempt_match D ctx rd sh st = Some (r, sh', st')" and "\<forall>m. r \<noteq> Success m"
  obtains (empty) "select_seed D ctx rd sh st = None" and "(r, sh', st') = (PoolEmpty, sh, st)"
    | (short) seed where "select_seed D ctx rd sh st = Some seed" and "card (in_window D ctx rd sh seed) < MATCH_SIZE"
      and "(r, sh', st') = insufficient ctx rd seed (card (in_window D ctx rd sh seed)) sh st"
proof (cases rule: attempt_match_cases [OF assms(1,2), of ctx rd st])
  case (3 seed cs)
  obtain m sh'' where "attempt_match D ctx rd sh st = Some (Success m, sh'', reset st)"
    using attempt_match_formed [OF assms(1,2) 3(1,2)] by metis
  with assms(3,4) show ?thesis by auto
qed (use assms(3) empty short in auto)

lemma failed_attempt_keeps:
  assumes "dashmap D" and "pool_ok D (sh_heap sh) (sh_pool sh)"
    and "attempt_match D ctx rd sh st = Some (r, sh', st')" and "\<forall>m. r \<noteq> Success m"
  shows "sh_heap sh' = sh_heap sh \<and> sh_pool sh' = sh_pool sh \<and> sh_history sh' = sh_history sh \<and>
    (if r = PoolEmpty then sh_metrics sh' = sh_metrics sh \<and> st' = st
     else sh_metrics sh' = (sh_metrics sh)
       \<lparr>mt_worker_cycles_total := mt_worker_cycles_total (sh_metrics sh) + 1,
        mt_match_attempts_insufficient := mt_match_attempts_insufficient (sh_metrics sh) + 1\<rparr>)"
  by (cases rule: failed_attempt [OF assms])
    (simp_all add: insufficient_def Let_def count_cycle_def count_insufficient_def)

section \<open>Attempts of one worker\<close>

text \<open>What one worker does while no other task acts: one attempt after the other, keeping its state.\<close>

fun attempts ::
    "'m dash \<Rightarrow> worker_context \<Rightarrow> readings list \<Rightarrow> 'm shared \<Rightarrow> worker_state \<Rightarrow>
       (match_attempt_result list \<times> 'm shared \<times> worker_state) option" where
  "attempts D ctx [] sh st = Some ([], sh, st)"
| "attempts D ctx (rd # rds) sh st =
     (case attempt_match D ctx rd sh st of
        None \<Rightarrow> None
      | Some (r, sh, st) \<Rightarrow>
          (case attempts D ctx rds sh st of
             None \<Rightarrow> None
           | Some (rs, sh, st) \<Rightarrow> Some (r # rs, sh, st)))"

text \<open>How many times in a row a worker has failed on a seed.\<close>

definition failures_on :: "uuid \<Rightarrow> worker_state \<Rightarrow> nat" where
  "failures_on i st = (if ws_current_seed_id st = Some i then unat (ws_consecutive_failures st) else 0)"

lemma failures_on_record:
  "failures_on i st < 3 \<Longrightarrow> failures_on i (record_failure i st) = Suc (failures_on i st)"
  by (auto simp: failures_on_def record_failure_def unat_word_ariths)

lemma select_seed_guard:
  assumes "oldest_waiting D (sh_heap sh) (sh_pool sh) = Some p"
    and "scan_bounds (rd_guard_now rd) (p_skill_rating (sh_heap sh p))
           (p_join_timestamp (sh_heap sh p)) (wc_config ctx) = (lo, hi)"
  shows "select_seed D ctx rd sh st =
    (if failures_on (p_id (sh_heap sh p)) st < 3 then Some p
     else (case oldest_waiting_excluding_range D (sh_heap sh) lo hi (sh_pool sh) of
             Some alternate \<Rightarrow> Some alternate
           | None \<Rightarrow> Some p))"
  using assms by (auto simp: select_seed_def Let_def SEED_RETRY_LIMIT_def word_le_nat_alt failures_on_def)

lemma attempts_fail:
  assumes "dashmap D" and "pool_ok D (sh_heap sh) (sh_pool sh)"
    and "oldest_waiting D (sh_heap sh) (sh_pool sh) = Some p"
    and "failures_on (p_id (sh_heap sh p)) st + length rds \<le> 3"
    and "\<forall>rd \<in> set rds. card (in_window D ctx rd sh p) < MATCH_SIZE"
  shows "\<exists>rs sh' st'. attempts D ctx rds sh st = Some (rs, sh', st') \<and> length rs = length rds \<and>
    (\<forall>r \<in> set rs. \<exists>n w s. r = InsufficientCandidates n w (p_skill_rating (sh_heap sh p)) s) \<and>
    sh_heap sh' = sh_heap sh \<and> sh_pool sh' = sh_pool sh \<and>
    failures_on (p_id (sh_heap sh p)) st' = failures_on (p_id (sh_heap sh p)) st + length rds"
  using assms(2-)
proof (induction rds arbitrary: sh st)
  case Nil
  then show ?case by simp
next
  case (Cons rd rds)
  let ?i = "p_id (sh_heap sh p)"
  have few: "failures_on ?i st < 3" using Cons.prems(3) by simp
  obtain lo hi where "scan_bounds (rd_guard_now rd) (p_skill_rating (sh_heap sh p))
           (p_join_timestamp (sh_heap sh p)) (wc_config ctx) = (lo, hi)" by force
  from select_seed_guard [OF Cons.prems(2) this, of st] few have seed: "select_seed D ctx rd sh st = Some p" by simp
  have "card (in_window D ctx rd sh p) < MATCH_SIZE" using Cons.prems(4) by simp
  with seed have step: "attempt_match D ctx rd sh st = Some (insufficient ctx rd p (card (in_window D ctx rd sh p)) sh st)"
    by (cases rule: attempt_match_cases [OF assms(1) Cons.prems(1), of ctx rd st]) auto
  let ?sh = "sh\<lparr>sh_metrics := count_insufficient (count_cycle (sh_metrics sh))\<rparr>"
  have same: "in_window D ctx rd' ?sh p = in_window D ctx rd' sh p" for rd' by (simp add: in_window_def)
  from Cons.IH [of ?sh "record_failure ?i st"] Cons.prems failures_on_record [OF few]
  obtain rs sh' st' where "attempts D ctx rds ?sh (record_failure ?i st) = Some (rs, sh', st')" "length rs = length rds"
      "\<forall>r \<in> set rs. \<exists>n w s. r = InsufficientCandidates n w (p_skill_rating (sh_heap sh p)) s"
      "sh_heap sh' = sh_heap sh" "sh_pool sh' = sh_pool sh" "failures_on ?i st' = Suc (failures_on ?i st) + length rds"
    by (auto simp: same)
  with step show ?case by (simp add: insufficient_def Let_def)
qed

section \<open>A concrete queue\<close>

text \<open>Players \<open>0 .. n - 1\<close>, who joined in this order with rating 1500, and one idle worker.\<close>

definition demo_heap :: heap where "demo_heap = numbered (\<lambda>a. a) (\<lambda>_. 1500)"

definition demo_shared :: "nat \<Rightarrow> ((uuid \<times> addr) list) shared" where
  "demo_shared n =
     \<lparr>sh_heap = demo_heap, sh_pool = pool_of dash_alist demo_heap [0..<n],
      sh_metrics = metrics_new\<lparr>mt_total_players_enqueued := of_nat n, mt_current_queue_size := of_nat n\<rparr>,
      sh_history = []\<rparr>"

definition demo_ctx :: worker_context where
  "demo_ctx = \<lparr>wc_worker_id = 1, wc_config = default_config, wc_match_history_limit = MATCH_HISTORY_LIMIT\<rparr>"

definition demo_readings :: readings where
  "demo_readings =
     \<lparr>rd_guard_now = 50, rd_scan_now = 50, rd_stage_now = 50, rd_unix_ms = 1000,
      rd_matched_now = (\<lambda>a. 100 + a), rd_wait_now = (\<lambda>_. 200), rd_capture_now = (\<lambda>_. 200),
      rd_match_id = 77, rd_unix_secs = 1, rd_held = {}\<rparr>"

lemma demo_pool:
  assumes "n < 2 ^ 128"
  shows "pool_ok dash_alist (sh_heap (demo_shared n)) (sh_pool (demo_shared n))"
    and "members dash_alist (sh_pool (demo_shared n)) = {..<n}"
  using numbered_pool [OF dashmap_dash_alist assms, of "\<lambda>_. 1500" "\<lambda>a. a"]
  by (simp_all add: demo_shared_def demo_heap_def MAX_SKILL_RATING_def)

lemma demo_seed:
  assumes "0 < n" and "n < 2 ^ 128"
  shows "select_seed dash_alist demo_ctx demo_readings (demo_shared n) worker_state_new = Some 0"
proof -
  have "oldest_waiting dash_alist (sh_heap (demo_shared n)) (sh_pool (demo_shared n)) = Some 0"
    by (rule oldest_waiting_eqI)
      (use assms(1) demo_pool(2) [OF assms(2)] in
        \<open>auto simp: demo_shared_def demo_heap_def join_key_def less_prod_def\<close>)
  then show ?thesis by (simp add: select_seed_def worker_state_new_def)
qed

lemma demo_window:
  assumes "n < 2 ^ 128"
  shows "in_window dash_alist demo_ctx demo_readings (demo_shared n) 0 = {..<n}"
  using demo_pool(2) [OF assms] scan_bounds_contain [of 1500]
  by (auto simp: in_window_def eligible_def seed_bounds_def demo_shared_def demo_heap_def MAX_SKILL_RATING_def)

lemma demo_success:
  assumes "10 \<le> n" and "n < 2 ^ 128"
  shows "\<exists>m sh'. attempt_match dash_alist demo_ctx demo_readings (demo_shared n) worker_state_new =
    Some (Success m, sh', reset worker_state_new)"
proof (rule attempt_match_formed [OF dashmap_dash_alist demo_pool(1) demo_seed])
  show "MATCH_SIZE \<le> card (in_window dash_alist demo_ctx demo_readings (demo_shared n) 0)"
    using assms by (simp add: demo_window MATCH_SIZE_def)
qed (use assms in auto)

lemma demo_insufficient:
  assumes "0 < n" and "n < 10"
  shows "attempt_match dash_alist demo_ctx demo_readings (demo_shared n) worker_state_new =
    Some (insufficient demo_ctx demo_readings 0 n (demo_shared n) worker_state_new)"
proof -
  from assms have n: "n < 2 ^ 128" by simp
  note seed = demo_seed [OF assms(1) n] and window = demo_window [OF n]
  show ?thesis
    by (rule attempt_match_cases [OF dashmap_dash_alist demo_pool(1) [OF n], of demo_ctx demo_readings worker_state_new])
      (use seed window assms(2) in \<open>simp_all add: MATCH_SIZE_def\<close>)
qed

section \<open>Properties\<close>

text \<open>
  the outcome of an attempt that no other task interferes with.  It never panics and never
  loses a claim: it reports an empty pool exactly when nobody waits; otherwise it forms a match
  exactly when ten waiting players, the seed included, lie in the seed's window, and reports
  the exact number it found when they do not.
\<close>

theorem attempt_match_outcome:
  assumes "dashmap D" and "pool_ok D (sh_heap sh) (sh_pool sh)"
  shows "case select_seed D ctx rd sh st of
      None \<Rightarrow> (\<forall>a \<in> members D (sh_pool sh). \<not> is_waiting (sh_heap sh a)) \<and>
        attempt_match D ctx rd sh st = Some (PoolEmpty, sh, st)
    | Some seed \<Rightarrow> seed \<in> in_window D ctx rd sh seed \<and>
        (if card (in_window D ctx rd sh seed) < MATCH_SIZE
         then \<exists>w s sh'. attempt_match D ctx rd sh st =
           Some (InsufficientCandidates (card (in_window D ctx rd sh seed)) w
             (p_skill_rating (sh_heap sh seed)) s, sh', record_failure (p_id (sh_heap sh seed)) st)
         else \<exists>m sh'. attempt_match D ctx rd sh st = Some (Success m, sh', reset st))"
proof (cases "select_seed D ctx rd sh st")
  case None
  with select_seed_None [OF assms(1), of ctx rd sh st] attempt_match_empty [OF None] show ?thesis by simp
next
  case (Some seed)
  have "\<exists>m sh'. attempt_match D ctx rd sh st = Some (Success m, sh', reset st)"
    if "\<not> card (in_window D ctx rd sh seed) < MATCH_SIZE"
    using attempt_match_formed [OF assms Some] that by (metis not_less)
  moreover have "\<exists>w s sh'. attempt_match D ctx rd sh st =
      Some (InsufficientCandidates (card (in_window D ctx rd sh seed)) w
        (p_skill_rating (sh_heap sh seed)) s, sh', record_failure (p_id (sh_heap sh seed)) st)"
    if "card (in_window D ctx rd sh seed) < MATCH_SIZE"
    using that Some by (cases rule: attempt_match_cases [OF assms, of ctx rd st])
      (auto simp: insufficient_def Let_def)
  ultimately show ?thesis using Some seed_in_window [OF assms Some] by simp
qed

theorem attempt_match_outcome_witness:
  "(\<exists>m sh'. attempt_match dash_alist demo_ctx demo_readings (demo_shared 10) worker_state_new =
      Some (Success m, sh', worker_state_new)) \<and>
   (\<exists>w s sh'. attempt_match dash_alist demo_ctx demo_readings (demo_shared 9) worker_state_new =
      Some (InsufficientCandidates 9 w 1500 s, sh', \<lparr>ws_consecutive_failures = 1, ws_current_seed_id = Some 0\<rparr>))"
  using attempt_match_outcome [OF dashmap_dash_alist demo_pool(1) [of 10], of demo_ctx demo_readings worker_state_new]
    attempt_match_outcome [OF dashmap_dash_alist demo_pool(1) [of 9], of demo_ctx demo_readings worker_state_new]
  by (simp add: demo_seed demo_window MATCH_SIZE_def)
    (simp add: worker_state_new_def reset_def record_failure_def demo_shared_def demo_heap_def)

text \<open>
  C2: a match is made of ten different players who were waiting inside the seed's window.  Its
  two teams of five hold exactly these ten; they end up matched and leave the pool, whose two
  structures stay in step, and no other player and no other pool entry is touched.
\<close>

theorem success_matches_ten_waiting_players:
  assumes "dashmap D" and "pool_ok D (sh_heap sh) (sh_pool sh)"
    and "attempt_match D ctx rd sh st = Some (Success m, sh', st')"
  shows "\<exists>seed as. select_seed D ctx rd sh st = Some seed \<and>
    distinct as \<and> length as = MATCH_SIZE \<and> set as \<subseteq> in_window D ctx rd sh seed \<and>
    length (tm_players (m_team_a m)) = TEAM_SIZE \<and> length (tm_players (m_team_b m)) = TEAM_SIZE \<and>
    image_mset ps_id (mset (match_players m)) = image_mset (\<lambda>a. p_id (sh_heap sh a)) (mset as) \<and>
    (\<forall>a \<in> set as. p_state (sh_heap sh' a) = MATCHED) \<and>
    (\<forall>a. a \<notin> set as \<longrightarrow> sh_heap sh' a = sh_heap sh a) \<and>
    pool_ok D (sh_heap sh') (sh_pool sh') \<and>
    members D (sh_pool sh') = members D (sh_pool sh) - set as \<and> st' = reset st"
proof (rule success_cases [OF assms])
  fix seed as
  assume "select_seed D ctx rd sh st = Some seed" "distinct as" "length as = MATCH_SIZE"
    "set as \<subseteq> in_window D ctx rd sh seed" and m: "match_of (rd_matched_now rd) (sh_heap sh) as m"
    and heap: "\<And>a. sh_heap sh' a = (if a \<in> set as then mark_matched (rd_matched_now rd a)
         (claimed_by (wc_worker_id ctx) (rd_unix_ms rd) (sh_heap sh a)) else sh_heap sh a)"
    and "pool_ok D (sh_heap sh') (sh_pool sh')"
    "members D (sh_pool sh') = members D (sh_pool sh) - set as" "st' = reset st"
  moreover from heap have "\<forall>a \<in> set as. p_state (sh_heap sh' a) = MATCHED"
    and "\<forall>a. a \<notin> set as \<longrightarrow> sh_heap sh' a = sh_heap sh a"
    by (simp_all add: mark_matched_step)
  ultimately show ?thesis
    using match_of_players [OF m] by blast
qed

theorem success_matches_ten_waiting_players_witness:
  "\<exists>m sh' st'. attempt_match dash_alist demo_ctx demo_readings (demo_shared 10) worker_state_new =
     Some (Success m, sh', st') \<and> members dash_alist (sh_pool sh') = {} \<and>
     image_mset ps_id (mset (match_players m)) = mset (map word_of_nat [0..<10])"
proof -
  obtain m sh' st' where res: "attempt_match dash_alist demo_ctx demo_readings (demo_shared 10) worker_state_new =
      Some (Success m, sh', st')"
    using demo_success [of 10] by auto
  from success_matches_ten_waiting_players [OF dashmap_dash_alist demo_pool(1) res]
  obtain seed as where seed: "select_seed dash_alist demo_ctx demo_readings (demo_shared 10) worker_state_new = Some seed"
    and as: "distinct as" "length as = 10" "set as \<subseteq> in_window dash_alist demo_ctx demo_readings (demo_shared 10) seed"
      "image_mset ps_id (mset (match_players m)) = image_mset (\<lambda>a. p_id (sh_heap (demo_shared 10) a)) (mset as)"
      "members dash_alist (sh_pool sh') = members dash_alist (sh_pool (demo_shared 10)) - set as"
    by (auto simp: MATCH_SIZE_def)
  from seed have "seed = 0" using demo_seed [of 10] by simp
  with as(3) have "set as \<subseteq> {..<10}" by (simp add: demo_window)
  with as(1,2) have "set as = {..<10}" by (intro card_subset_eq) (simp_all add: distinct_card)
  with as(1) have "mset as = mset [0..<10]"
    using mset_set_set [of as] mset_set_set [of "[0..<10]"] by (simp only: set_upt distinct_upt lessThan_atLeast0 refl)
  then have "image_mset ps_id (mset (match_players m)) = mset (map word_of_nat [0..<10])"
    unfolding as(4) mset_map by (simp only: demo_shared_def shared.simps demo_heap_def numbered_simps)
  moreover have "members dash_alist (sh_pool sh') = {}"
    unfolding as(5) using \<open>set as = {..<10}\<close> demo_pool(2) [of 10] by simp
  ultimately show ?thesis using res by blast
qed

lemma window_near:
  assumes "dashmap D" and "pool_ok D (sh_heap sh) (sh_pool sh)" and seed: "select_seed D ctx rd sh st = Some seed"
    and a: "a \<in> in_window D ctx rd sh seed"
  shows "abs_diff (p_skill_rating (sh_heap sh a)) (p_skill_rating (sh_heap sh seed)) \<le>
    relaxation_window (rd_scan_now rd) (p_join_timestamp (sh_heap sh seed)) (wc_config ctx)"
proof -
  note valid = members_rating [OF assms(2)]
  from a have "fst (seed_bounds ctx rd (sh_heap sh seed)) \<le> p_skill_rating (sh_heap sh a) \<and>
      p_skill_rating (sh_heap sh a) \<le> snd (seed_bounds ctx rd (sh_heap sh seed))"
    by (simp add: in_window_def eligible_def)
  then show ?thesis
    using scan_bounds_iff [OF valid [OF in_window_members [OF a]] valid [OF select_seed_Some(1) [OF assms(1) seed]]]
    by (simp add: seed_bounds_def)
qed

lemma spread_bound:
  assumes "\<And>x. x \<in> X \<Longrightarrow> abs_diff x r \<le> (w :: u32)" and "finite X" and "X \<noteq> {}"
  shows "unat (Max X - Min X) \<le> 2 * unat w"
proof -
  have "unat (abs_diff (Max X) r) \<le> unat w" "unat (abs_diff (Min X) r) \<le> unat w"
    using assms Max_in Min_in by (auto simp: word_le_nat_alt [symmetric])
  moreover have "Min X \<le> Max X" using assms(2,3) by (meson Max_in Min_le)
  ultimately show ?thesis
    by (auto simp: unat_abs_diff unat_sub word_le_nat_alt split: if_splits)
qed

text \<open>
  C3: quality of a match formed by an attempt that no other task interferes with.  Every matched
  player is within the seed's relaxation window.  The two teams divide the ten, with the smallest
  difference of totals that any division into two teams of five has, and that difference is the
  delta reported.  Every player is recorded with his rating and with his wait from joining to the
  instant at which he was marked, which is also stored with him; the totals, the spread (at most
  twice the window), the average wait and the longest wait are those of the ten.
\<close>

theorem match_quality:
  assumes "dashmap D" and "pool_ok D (sh_heap sh) (sh_pool sh)"
    and "attempt_match D ctx rd sh st = Some (Success m, sh', st')"
  shows "\<exists>seed as xs ys. select_seed D ctx rd sh st = Some seed \<and> distinct as \<and> length as = 10 \<and>
    (let rating = (\<lambda>a. p_skill_rating (sh_heap sh a));
         wait = (\<lambda>a. millis_since (rd_matched_now rd a) (p_join_timestamp (sh_heap sh a)));
         shot = (\<lambda>a. \<lparr>ps_id = p_id (sh_heap sh a), ps_skill_rating = rating a, ps_wait_ms = wait a\<rparr>);
         window = relaxation_window (rd_scan_now rd) (p_join_timestamp (sh_heap sh seed)) (wc_config ctx)
     in (\<forall>a \<in> set as. abs_diff (rating a) (rating seed) \<le> window) \<and>
        is_split as xs ys \<and> (\<forall>xs' ys'. is_split as xs' ys' \<longrightarrow> team_difference rating xs ys \<le> team_difference rating xs' ys') \<and>
        tm_players (m_team_a m) = map shot xs \<and> tm_players (m_team_b m) = map shot ys \<and>
        unat (tm_total_rating (m_team_a m)) = rating_sum rating xs \<and>
        unat (tm_total_rating (m_team_b m)) = rating_sum rating ys \<and>
        unat (m_team_delta m) = team_difference rating xs ys \<and>
        m_skill_spread m = Max (rating ` set as) - Min (rating ` set as) \<and>
        unat (m_skill_spread m) \<le> 2 * unat window \<and>
        m_avg_wait_ms m = sum_list (map wait as) div 10 \<and> m_max_wait_ms m = Max (wait ` set as) \<and>
        (\<forall>a \<in> set as. p_matched_at (sh_heap sh' a) = Some (rd_matched_now rd a)))"
proof (rule success_cases [OF assms])
  fix seed as
  let ?r = "\<lambda>a. p_skill_rating (sh_heap sh a)" and ?now = "rd_matched_now rd"
  let ?w = "relaxation_window (rd_scan_now rd) (p_join_timestamp (sh_heap sh seed)) (wc_config ctx)"
  assume seed: "select_seed D ctx rd sh st = Some seed"
    and as: "distinct as" "length as = MATCH_SIZE" "set as \<subseteq> in_window D ctx rd sh seed"
    and m: "match_of ?now (sh_heap sh) as m"
    and heap: "\<And>a. sh_heap sh' a = (if a \<in> set as then mark_matched (?now a)
         (claimed_by (wc_worker_id ctx) (rd_unix_ms rd) (sh_heap sh a)) else sh_heap sh a)"
  have near: "\<forall>a \<in> set as. abs_diff (?r a) (?r seed) \<le> ?w"
    using window_near [OF assms(1,2) seed] as(3) by blast
  have "unat (Max (?r ` set as) - Min (?r ` set as)) \<le> 2 * unat ?w"
    by (rule spread_bound [of _ "?r seed"]) (use near as(2) in \<open>auto simp: MATCH_SIZE_def\<close>)
  moreover have "\<forall>a \<in> set as. p_matched_at (sh_heap sh' a) = Some (?now a)" by (simp add: heap)
  moreover from m obtain xs ys where "optimal_split ?r as xs ys" "teams_of ?now (sh_heap sh) xs ys m"
    by (auto simp: match_of_def)
  moreover have "length as = 10" using as(2) by (simp add: MATCH_SIZE_def)
  ultimately show ?thesis
    using seed as(1) near m unfolding match_of_def teams_of_def optimal_split_def player_shot_def Let_def
    by (intro exI [of _ seed] exI [of _ as] exI [of _ xs] exI [of _ ys] conjI) simp_all
qed

text \<open>Players of equal rating: the delta is zero.\<close>

theorem match_quality_witness:
  "\<exists>m sh' st'. attempt_match dash_alist demo_ctx demo_readings (demo_shared 25) worker_state_new =
     Some (Success m, sh', st') \<and> m_team_delta m = 0 \<and> tm_total_rating (m_team_a m) = 7500"
proof -
  obtain m sh' st' where res: "attempt_match dash_alist demo_ctx demo_readings (demo_shared 25) worker_state_new =
      Some (Success m, sh', st')"
    using demo_success [of 25] by auto
  have rating: "(\<lambda>a. p_skill_rating (sh_heap (demo_shared 25) a)) = (\<lambda>a. 1500)"
    by (simp add: demo_shared_def demo_heap_def)
  have sum: "rating_sum (\<lambda>a. 1500) xs = 1500 * length xs" for xs :: "addr list"
    by (simp add: rating_sum_def sum_list_triv)
  have pool: "pool_ok dash_alist (sh_heap (demo_shared 25)) (sh_pool (demo_shared 25))" by (rule demo_pool) simp
  from match_quality [OF dashmap_dash_alist pool res, unfolded Let_def rating]
  obtain as xs ys :: "addr list" where split: "is_split as xs ys" and total: "unat (tm_total_rating (m_team_a m)) = rating_sum (\<lambda>a. 1500) xs"
    and delta: "unat (m_team_delta m) = team_difference (\<lambda>a. 1500) xs ys"
    by blast
  have len: "length xs = 5" "length ys = 5" using split by (simp_all add: is_split_def TEAM_SIZE_def)
  have "m_team_delta m = 0" using delta len by (simp add: team_difference_def sum unat_eq_0)
  moreover have "tm_total_rating (m_team_a m) = 7500" using total len by (simp add: sum word_unat_eq_iff)
  ultimately show ?thesis using res by blast
qed

text \<open>
  C24: first come, first served inside the window.  With at most 200 eligible players the ten
  who leave joined before every eligible player who stays, and a seed that is the globally
  longest waiting player is always among them.
\<close>

theorem match_takes_longest_waiting:
  assumes "dashmap D" and "pool_ok D (sh_heap sh) (sh_pool sh)"
    and "attempt_match D ctx rd sh st = Some (Success m, sh', st')"
    and "select_seed D ctx rd sh st = Some seed"
    and "card (in_window D ctx rd sh seed) \<le> MAX_CANDIDATES_PER_SCAN"
  shows "(\<forall>a \<in> members D (sh_pool sh) - members D (sh_pool sh').
      \<forall>b \<in> in_window D ctx rd sh seed \<inter> members D (sh_pool sh').
        join_key (sh_heap sh) a < join_key (sh_heap sh) b) \<and>
    (oldest_waiting D (sh_heap sh) (sh_pool sh) = Some seed \<longrightarrow> seed \<notin> members D (sh_pool sh'))"
proof (rule success_cases [OF assms(1-3)])
  fix seed' as
  assume seed': "select_seed D ctx rd sh st = Some seed'"
    and as: "length as = MATCH_SIZE" "set as \<subseteq> in_window D ctx rd sh seed'"
      "members D (sh_pool sh') = members D (sh_pool sh) - set as"
    and fifo: "card (in_window D ctx rd sh seed') \<le> MAX_CANDIDATES_PER_SCAN \<Longrightarrow>
      \<forall>a \<in> set as. \<forall>b \<in> in_window D ctx rd sh seed' - set as. join_key (sh_heap sh) a < join_key (sh_heap sh) b"
  from seed' assms(4) have [simp]: "seed' = seed" by simp
  have "seed \<in> set as" if "oldest_waiting D (sh_heap sh) (sh_pool sh) = Some seed"
    by (rule oldest_is_first [OF assms(1) that seed_in_window [OF assms(1,2,4)]])
      (use as fifo assms(5) in \<open>auto simp: MATCH_SIZE_def\<close>)
  with fifo as(3) assms(5) show ?thesis by auto
qed

theorem match_takes_longest_waiting_witness:
  "\<exists>m sh' st'. attempt_match dash_alist demo_ctx demo_readings (demo_shared 25) worker_state_new =
     Some (Success m, sh', st') \<and> 0 \<notin> members dash_alist (sh_pool sh')"
proof -
  obtain m sh' st' where res: "attempt_match dash_alist demo_ctx demo_readings (demo_shared 25) worker_state_new =
      Some (Success m, sh', st')"
    using demo_success [of 25] by auto
  have "select_seed dash_alist demo_ctx demo_readings (demo_shared 25) worker_state_new = Some 0"
    by (rule demo_seed) simp_all
  moreover from this have "oldest_waiting dash_alist (sh_heap (demo_shared 25)) (sh_pool (demo_shared 25)) = Some 0"
    by (auto simp: select_seed_def worker_state_new_def split: option.splits)
  moreover have "card (in_window dash_alist demo_ctx demo_readings (demo_shared 25) 0) \<le> MAX_CANDIDATES_PER_SCAN"
    by (simp add: demo_window MAX_CANDIDATES_PER_SCAN_def)
  ultimately show ?thesis
    using match_takes_longest_waiting [OF dashmap_dash_alist demo_pool(1) res] res by auto
qed

text \<open>
  C25: an attempt that forms no match, and that no other task interferes with, changes neither a
  player, nor the pool, nor the history.  If nobody waits it reports an empty pool and changes
  nothing at all, not even a counter.  Otherwise it reports how many it found, counts one cycle and
  one insufficient attempt, and the worker remembers the failure: one more if its last failure was
  on this seed, the first one on this seed if not.
\<close>

theorem failed_attempt_changes_nothing:
  assumes "dashmap D" and "pool_ok D (sh_heap sh) (sh_pool sh)"
    and "attempt_match D ctx rd sh st = Some (r, sh', st')" and "\<forall>m. r \<noteq> Success m"
  shows "sh_heap sh' = sh_heap sh \<and> sh_pool sh' = sh_pool sh \<and> sh_history sh' = sh_history sh \<and>
    (case select_seed D ctx rd sh st of
       None \<Rightarrow> r = PoolEmpty \<and> sh' = sh \<and> st' = st
     | Some seed \<Rightarrow>
         (let p = sh_heap sh seed; found = card (in_window D ctx rd sh seed);
              (lo, hi) = scan_bounds (rd_scan_now rd) (p_skill_rating p) (p_join_timestamp p) (wc_config ctx)
          in found < 10 \<and>
             r = InsufficientCandidates found (hi - lo) (p_skill_rating p)
                   (relaxation_stage (rd_stage_now rd) (p_join_timestamp p) (wc_config ctx)) \<and>
             sh_metrics sh' = (sh_metrics sh)
               \<lparr>mt_worker_cycles_total := mt_worker_cycles_total (sh_metrics sh) + 1,
                mt_match_attempts_insufficient := mt_match_attempts_insufficient (sh_metrics sh) + 1\<rparr> \<and>
             st' = \<lparr>ws_consecutive_failures =
                     (if ws_current_seed_id st = Some (p_id p) then ws_consecutive_failures st + 1 else 1),
                   ws_current_seed_id = Some (p_id p)\<rparr>))"
  by (cases rule: failed_attempt [OF assms])
    (simp_all add: insufficient_def Let_def count_cycle_def count_insufficient_def seed_bounds_def record_failure_def
      MATCH_SIZE_def split_beta)

text \<open>An empty queue, and nine players: the worker remembers one failure on the first.\<close>

theorem failed_attempt_changes_nothing_witness:
  "attempt_match dash_alist demo_ctx demo_readings (demo_shared 0) worker_state_new = Some (PoolEmpty, demo_shared 0, worker_state_new) \<and>
   (\<exists>r sh'. attempt_match dash_alist demo_ctx demo_readings (demo_shared 9) worker_state_new =
     Some (r, sh', \<lparr>ws_consecutive_failures = 1, ws_current_seed_id = Some 0\<rparr>) \<and>
     sh_heap sh' = sh_heap (demo_shared 9) \<and> sh_pool sh' = sh_pool (demo_shared 9))"
proof
  have pool: "pool_ok dash_alist (sh_heap (demo_shared n)) (sh_pool (demo_shared n))" if "n < 10" for n
    by (rule demo_pool) (use that in simp)
  have "members dash_alist (sh_pool (demo_shared 0)) = {}" using demo_pool(2) [of 0] by simp
  then have none: "select_seed dash_alist demo_ctx demo_readings (demo_shared 0) worker_state_new = None"
    using select_seed_None [OF dashmap_dash_alist, of demo_ctx demo_readings "demo_shared 0" worker_state_new] by simp
  show "attempt_match dash_alist demo_ctx demo_readings (demo_shared 0) worker_state_new = Some (PoolEmpty, demo_shared 0, worker_state_new)"
    using failed_attempt_changes_nothing [OF dashmap_dash_alist pool attempt_match_empty [OF none]]
      attempt_match_empty [OF none] by (simp add: none)
  obtain r sh' st' where res: "attempt_match dash_alist demo_ctx demo_readings (demo_shared 9) worker_state_new = Some (r, sh', st')"
      and no: "\<forall>m. r \<noteq> Success m"
    using demo_insufficient [of 9] by (auto simp: insufficient_def Let_def)
  have "p_id (sh_heap (demo_shared 9) 0) = 0" by (simp add: demo_shared_def demo_heap_def)
  with failed_attempt_changes_nothing [OF dashmap_dash_alist pool res no] res
  show "\<exists>r sh'. attempt_match dash_alist demo_ctx demo_readings (demo_shared 9) worker_state_new =
     Some (r, sh', \<lparr>ws_consecutive_failures = 1, ws_current_seed_id = Some 0\<rparr>) \<and>
     sh_heap sh' = sh_heap (demo_shared 9) \<and> sh_pool sh' = sh_pool (demo_shared 9)"
    by (simp add: demo_seed Let_def split_beta) (simp add: worker_state_new_def)
qed

text \<open>
  C11: claiming is all or nothing, for candidates in any states (other tasks may have claimed,
  matched or evicted them since the scan), as long as no other task acts between the first
  compare-and-swap and the end of the loop and its rollback.  With ten candidates still waiting the
  worker owns exactly the first ten of them and has touched nobody else; with fewer it reports how
  many it got, counts the failure and remembers it, and the rollback leaves every player in the state
  he was in, with the claim fields of those it had claimed cleared: whoever had clear fields before,
  as every waiting player has between whole operations, is restored exactly.  (What other tasks may
  do meanwhile is the subject of theory Atomic.)
\<close>

theorem claim_all_or_nothing:
  assumes "distinct candidates"
  shows "let free = filter (\<lambda>a. p_state (sh_heap sh a) = WAITING) candidates;
        (res, sh', st') = claim ctx rd seed candidates sh st
    in sh_pool sh' = sh_pool sh \<and> sh_history sh' = sh_history sh \<and>
       (if length free < 10
        then res = Inl (ClaimFailed (length free) 10) \<and>
          sh_metrics sh' = (sh_metrics sh)
            \<lparr>mt_match_attempts_claim_failed := mt_match_attempts_claim_failed (sh_metrics sh) + 1\<rparr> \<and>
          st' = record_failure (p_id (sh_heap sh seed)) st \<and>
          (\<forall>a. sh_heap sh' a =
             (if a \<in> set free then (sh_heap sh a)\<lparr>p_claimed_by := 0, p_claim_timestamp := 0\<rparr> else sh_heap sh a)) \<and>
          ((\<forall>a \<in> set candidates. player_ok (sh_heap sh a)) \<longrightarrow> sh_heap sh' = sh_heap sh)
        else res = Inr (take 10 free) \<and> sh_metrics sh' = sh_metrics sh \<and> st' = st \<and>
          (\<forall>a. sh_heap sh' a =
             (if a \<in> set (take 10 free)
              then (sh_heap sh a)\<lparr>p_state := CLAIMED, p_claimed_by := wc_worker_id ctx,
                                   p_claim_timestamp := rd_unix_ms rd\<rparr>
              else sh_heap sh a)))"
proof -
  let ?free = "filter (\<lambda>a. is_waiting (sh_heap sh a)) candidates"
  let ?claim = "\<lambda>_. claimed_by (wc_worker_id ctx) (rd_unix_ms rd)"
  have free: "filter (\<lambda>a. p_state (sh_heap sh a) = WAITING) candidates = ?free" by (simp add: is_waiting_def)
  have loop: "claim_loop (wc_worker_id ctx) (rd_unix_ms rd) (sh_heap sh) [] candidates =
      (update_on (set (take MATCH_SIZE ?free)) ?claim (sh_heap sh), take MATCH_SIZE ?free)"
    using claim_loop_eq [OF assms(1), of "[]"] by (simp add: Let_def)
  have ids: "p_id (update_on A ?claim (sh_heap sh) a) = p_id (sh_heap sh a)" for A a by simp
  have rollback: "release_all ?free (update_on (set ?free) ?claim (sh_heap sh)) a =
      (if a \<in> set ?free then (sh_heap sh a)\<lparr>p_claimed_by := 0, p_claim_timestamp := 0\<rparr> else sh_heap sh a)" for a
  proof -
    have "release_claim (?claim a (sh_heap sh a)) = (sh_heap sh a)\<lparr>p_claimed_by := 0, p_claim_timestamp := 0\<rparr>"
      if "a \<in> set ?free" for a
      using that by (auto simp: release_claim_step claimed_by_def is_waiting_def)
    then show ?thesis using assms(1) by (auto simp: release_all_eq)
  qed
  have restore: "release_all ?free (update_on (set ?free) ?claim (sh_heap sh)) = sh_heap sh"
    if "\<forall>a \<in> set candidates. player_ok (sh_heap sh a)"
    unfolding fun_eq_iff rollback using that by (auto simp: player_ok_def is_waiting_def)
  show ?thesis
  proof (cases "length ?free < MATCH_SIZE")
    case True
    then have "take MATCH_SIZE ?free = ?free" by simp
    with True loop rollback restore show ?thesis
      by (simp add: claim_def Let_def ids free count_claim_failed_def MATCH_SIZE_def del: update_on_apply)
  next
    case False
    with loop show ?thesis by (simp add: claim_def Let_def claimed_by_def free MATCH_SIZE_def)
  qed
qed

text \<open>Nine waiting players are put back; of eleven, one of whom is evicted, the ten others are claimed.\<close>

theorem claim_all_or_nothing_witness:
  "sh_heap (fst (snd (claim demo_ctx demo_readings 0 [0..<9] (demo_shared 9) worker_state_new))) = sh_heap (demo_shared 9) \<and>
   fst (claim demo_ctx demo_readings 0 [0..<9] (demo_shared 9) worker_state_new) = Inl (ClaimFailed 9 10) \<and>
   fst (claim demo_ctx demo_readings 0 [0..<11]
     ((demo_shared 11)\<lparr>sh_heap := demo_heap(3 := (demo_heap 3)\<lparr>p_state := EVICTED\<rparr>)\<rparr>) worker_state_new) =
     Inr [0, 1, 2, 4, 5, 6, 7, 8, 9, 10]"
proof -
  have heap: "player_ok (demo_heap a)" "p_state (demo_heap a) = WAITING" for a
    by (simp_all add: demo_heap_def numbered_def player_ok_new) (simp add: player_new_def)
  let ?sh = "(demo_shared 11)\<lparr>sh_heap := demo_heap(3 := (demo_heap 3)\<lparr>p_state := EVICTED\<rparr>)\<rparr>"
  have list: "[0..<11] = [0, 1, 2, 3, 4, 5, 6, 7, 8, 9, 10 :: nat]" by (simp add: upt_conv_Cons)
  have nine: "filter (\<lambda>a. p_state (sh_heap (demo_shared 9) a) = WAITING) [0..<9] = [0..<9]"
    by (simp add: demo_shared_def heap)
  have ten: "filter (\<lambda>a. p_state (sh_heap ?sh a) = WAITING) [0..<11] = [0, 1, 2, 4, 5, 6, 7, 8, 9, 10]"
    unfolding list by (simp add: heap EVICTED_def WAITING_def)
  show ?thesis
    using claim_all_or_nothing [of "[0..<9]" "demo_shared 9" demo_ctx demo_readings 0 worker_state_new, unfolded nine]
      claim_all_or_nothing [of "[0..<11]" ?sh demo_ctx demo_readings 0 worker_state_new, unfolded ten]
    by (simp add: Let_def split_beta demo_shared_def heap del: upt_rec_numeral)
qed

text \<open>
  bookkeeping of a match.  The queue gauge falls by the number of players that left the
  pool, the created and matched counters grow by one and ten, the spread and delta sums by the
  values the match reports, and the history gains the match at its end, dropping from its
  front whatever exceeds the limit.
\<close>

theorem success_bookkeeping:
  assumes "dashmap D" and "pool_ok D (sh_heap sh) (sh_pool sh)"
    and "attempt_match D ctx rd sh st = Some (Success m, sh', st')"
  shows "pool_len D (sh_pool sh') + MATCH_SIZE = pool_len D (sh_pool sh) \<and>
    mt_current_queue_size (sh_metrics sh') = mt_current_queue_size (sh_metrics sh) - 10 \<and>
    mt_total_matches_created (sh_metrics sh') = mt_total_matches_created (sh_metrics sh) + 1 \<and>
    mt_total_players_matched (sh_metrics sh') = mt_total_players_matched (sh_metrics sh) + 10 \<and>
    mt_worker_cycles_total (sh_metrics sh') = mt_worker_cycles_total (sh_metrics sh) + 1 \<and>
    mt_skill_spread_sum (sh_metrics sh') = mt_skill_spread_sum (sh_metrics sh) + ucast (m_skill_spread m) \<and>
    mt_team_delta_sum (sh_metrics sh') = mt_team_delta_sum (sh_metrics sh) + ucast (m_team_delta m) \<and>
    sh_history sh' = drop (Suc (length (sh_history sh)) - wc_match_history_limit ctx) (sh_history sh @ [m]) \<and>
    (length (sh_history sh) \<le> wc_match_history_limit ctx \<longrightarrow>
       length (sh_history sh') \<le> wc_match_history_limit ctx)"
proof (rule success_cases [OF assms])
  fix as
  assume "pool_len D (sh_pool sh') + MATCH_SIZE = pool_len D (sh_pool sh)"
    "sh_history sh' = push_history (wc_match_history_limit ctx) m (sh_history sh)"
    "sh_metrics sh' = update_metrics_on_success m
      (map (\<lambda>a. millis_since (rd_matched_now rd a) (p_join_timestamp (sh_heap sh a))) as)
      (m_skill_spread m) (count_cycle (sh_metrics sh))"
  then show ?thesis
    by (auto simp: push_history_eq update_metrics_on_success_def count_cycle_def MATCH_SIZE_def)
qed

theorem success_bookkeeping_witness:
  "\<exists>m sh' st'. attempt_match dash_alist demo_ctx demo_readings (demo_shared 25) worker_state_new =
     Some (Success m, sh', st') \<and> sint (mt_current_queue_size (sh_metrics sh')) = 15 \<and>
     sh_history sh' = [m]"
proof -
  obtain m sh' st' where res: "attempt_match dash_alist demo_ctx demo_readings (demo_shared 25) worker_state_new =
      Some (Success m, sh', st')"
    using demo_success [of 25] by auto
  have "pool_ok dash_alist (sh_heap (demo_shared 25)) (sh_pool (demo_shared 25))"
    by (rule demo_pool) simp
  from success_bookkeeping [OF dashmap_dash_alist this res]
  have "mt_current_queue_size (sh_metrics sh') = 25 - 10"
    and "sh_history sh' = drop (Suc 0 - MATCH_HISTORY_LIMIT) [m]"
    by (simp_all add: demo_shared_def demo_ctx_def)
  then show ?thesis using res by (simp add: MATCH_HISTORY_LIMIT_def)
qed

text \<open>
  C26: the seed throughput guard, over the attempts of one worker that no other task interferes
  with.  A worker whose last failure was not on the longest waiting player makes up to three
  attempts, at whatever instants, whose windows hold fewer than ten waiting players.  Each of them is
  made with the longest waiting player as the seed and fails; after fewer than three he is still
  the seed of the next attempt, and after three the next seed is the longest waiting player outside his
  window, and he himself only when there is none.
\<close>

theorem seed_guard_skips_after_three_failures:
  assumes "dashmap D" and "pool_ok D (sh_heap sh) (sh_pool sh)"
    and "oldest_waiting D (sh_heap sh) (sh_pool sh) = Some p"
    and "ws_current_seed_id st \<noteq> Some (p_id (sh_heap sh p))" and "length rds \<le> 3"
    and "\<forall>rd \<in> set rds. card (in_window D ctx rd sh p) < MATCH_SIZE"
    and "scan_bounds (rd_guard_now rd') (p_skill_rating (sh_heap sh p))
           (p_join_timestamp (sh_heap sh p)) (wc_config ctx) = (lo, hi)"
  shows "\<exists>rs sh' st'. attempts D ctx rds sh st = Some (rs, sh', st') \<and> length rs = length rds \<and>
    (\<forall>r \<in> set rs. \<exists>n w s. r = InsufficientCandidates n w (p_skill_rating (sh_heap sh p)) s) \<and>
    sh_heap sh' = sh_heap sh \<and> sh_pool sh' = sh_pool sh \<and>
    select_seed D ctx rd' sh' st' =
      (if length rds < 3 then Some p
       else case oldest_waiting_excluding_range D (sh_heap sh) lo hi (sh_pool sh) of
              Some alternate \<Rightarrow> Some alternate
            | None \<Rightarrow> Some p)"
proof -
  have "failures_on (p_id (sh_heap sh p)) st + length rds \<le> 3" using assms(4,5) by (simp add: failures_on_def)
  from attempts_fail [OF assms(1-3) this assms(6)] obtain rs sh' st' where
    res: "attempts D ctx rds sh st = Some (rs, sh', st')" "length rs = length rds"
      "\<forall>r \<in> set rs. \<exists>n w s. r = InsufficientCandidates n w (p_skill_rating (sh_heap sh p)) s"
    and same: "sh_heap sh' = sh_heap sh" "sh_pool sh' = sh_pool sh"
    and count: "failures_on (p_id (sh_heap sh p)) st' = failures_on (p_id (sh_heap sh p)) st + length rds"
    by blast
  have "failures_on (p_id (sh_heap sh p)) st' = length rds" using count assms(4) by (simp add: failures_on_def)
  moreover have "oldest_waiting D (sh_heap sh') (sh_pool sh') = Some p" by (simp add: same assms(3))
  ultimately have "select_seed D ctx rd' sh' st' =
      (if length rds < 3 then Some p
       else case oldest_waiting_excluding_range D (sh_heap sh) lo hi (sh_pool sh) of
              Some alternate \<Rightarrow> Some alternate
            | None \<Rightarrow> Some p)"
    using select_seed_guard [of D sh' p rd' ctx lo hi st'] assms(7) by (simp add: same)
  with res same show ?thesis by blast
qed

text \<open>Two low players and one far above them: the guard moves on to the far one.\<close>

definition split_heap :: heap where
  "split_heap = numbered (\<lambda>a. a) (\<lambda>a. if a = 2 then 2900 else 100)"

definition split_shared :: "((uuid \<times> addr) list) shared" where
  "split_shared =
     \<lparr>sh_heap = split_heap, sh_pool = pool_of dash_alist split_heap [0..<3],
      sh_metrics = metrics_new, sh_history = []\<rparr>"

lemma split_members: "members dash_alist (sh_pool split_shared) = {..<3}"
  using numbered_pool(2) [OF dashmap_dash_alist, of 3 "\<lambda>a. if a = 2 then 2900 else 100" "\<lambda>a. a"]
  by (simp add: split_shared_def split_heap_def MAX_SKILL_RATING_def)

theorem seed_guard_skips_after_three_failures_witness:
  "(\<exists>rs sh' st'. attempts dash_alist demo_ctx [demo_readings, demo_readings] split_shared worker_state_new =
      Some (rs, sh', st') \<and> select_seed dash_alist demo_ctx demo_readings sh' st' = Some 0) \<and>
   (\<exists>rs sh' st'. attempts dash_alist demo_ctx [demo_readings, demo_readings, demo_readings] split_shared worker_state_new =
      Some (rs, sh', st') \<and> select_seed dash_alist demo_ctx demo_readings sh' st' = Some 2)"
proof -
  have first: "oldest_waiting dash_alist (sh_heap split_shared) (sh_pool split_shared) = Some 0"
    by (rule oldest_waiting_eqI)
      (auto simp: split_members, auto simp: split_shared_def split_heap_def join_key_def less_prod_def)
  have bounds: "scan_bounds 50 100 0 default_config = (50, 150)"
    by (simp add: scan_bounds_def relaxation_window_def millis_since_def default_config_def
        saturating_sub_def saturating_add_def MAX_SKILL_RATING_def)
  have second: "oldest_waiting_excluding_range dash_alist (sh_heap split_shared) 50 150 (sh_pool split_shared) = Some 2"
    by (rule oldest_waiting_excluding_range_eqI)
      (auto simp: split_members, auto simp: split_shared_def split_heap_def split: if_splits)
  have p: "p_skill_rating (sh_heap split_shared 0) = 100" "p_join_timestamp (sh_heap split_shared 0) = 0"
    by (simp_all add: split_shared_def split_heap_def)
  have guard: "scan_bounds (rd_guard_now demo_readings) (p_skill_rating (sh_heap split_shared 0))
      (p_join_timestamp (sh_heap split_shared 0)) (wc_config demo_ctx) = (50, 150)"
    by (simp add: p bounds demo_readings_def demo_ctx_def)
  have pool: "pool_ok dash_alist (sh_heap split_shared) (sh_pool split_shared)"
    using numbered_pool(1) [OF dashmap_dash_alist, of 3 "\<lambda>a. if a = 2 then 2900 else 100" "\<lambda>a. a"]
    by (simp add: split_shared_def split_heap_def MAX_SKILL_RATING_def)
  have "card (in_window dash_alist demo_ctx rd split_shared 0) \<le> card {..<3 :: addr}" for rd
    by (rule card_mono) (use in_window_members [of _ dash_alist demo_ctx rd split_shared 0] split_members in auto)
  then have few: "card (in_window dash_alist demo_ctx rd split_shared 0) < MATCH_SIZE" for rd
    by (simp add: MATCH_SIZE_def le_less_trans [of _ 3])
  have new: "ws_current_seed_id worker_state_new \<noteq> Some i" for i by (simp add: worker_state_new_def)
  note guarded = seed_guard_skips_after_three_failures [OF dashmap_dash_alist pool first new _ _ guard]
  from guarded [of "[demo_readings, demo_readings]"] guarded [of "[demo_readings, demo_readings, demo_readings]"]
  show ?thesis by (simp add: few second) blast
qed

end
