(* ===== verification/Engine.thy ===== *)
theory Engine
  imports Matcher
begin

text \<open>
  Model of src/src/engine/mod.rs: the core that the HTTP layer and the workers share, with its
  enqueue, cancel and read operations, and the service as a system whose steps are whole
  operations.  A new player is allocated at the next free heap address.  The tokio \<open>Notify\<close> is
  represented by the number of \<open>notify_one\<close> calls made on it.
\<close>

datatype enqueue_error = AlreadyQueued uuid | InvalidSkillRating u32 u32

datatype cancel_error = NotFound uuid | CurrentlyBeingMatched uuid

text \<open>
  The error messages; \<open>show_uuid\<close> is the \<open>Display\<close> of the third-party \<open>Uuid\<close>.  The source
  writes the range with an en dash, whose three UTF-8 bytes are spelt out.
\<close>

fun enqueue_error_display :: "(uuid \<Rightarrow> string) \<Rightarrow> enqueue_error \<Rightarrow> string" where
  "enqueue_error_display show_uuid (AlreadyQueued i) =
     ''Player '' @ show_uuid i @ '' is already in the queue''"
| "enqueue_error_display show_uuid (InvalidSkillRating r mx) =
     ''Skill rating '' @ show_word r @ '' is outside the valid range (0'' @
     [CHR 0xE2, CHR 0x80, CHR 0x93] @ show_word mx @ '')''"

fun cancel_error_display :: "(uuid \<Rightarrow> string) \<Rightarrow> cancel_error \<Rightarrow> string" where
  "cancel_error_display show_uuid (NotFound i) = ''Player '' @ show_uuid i @ '' not found in queue''"
| "cancel_error_display show_uuid (CurrentlyBeingMatched i) =
     ''Player '' @ show_uuid i @ '' cannot be cancelled '' @ [CHR 0xE2, CHR 0x80, CHR 0x94] @
     '' currently being matched''"

record 'm core =
  co_shared :: "'m shared"
  co_next :: addr
  co_notifications :: nat
  co_config :: config
  co_started_at :: instant

definition core_new :: "'m dash \<Rightarrow> instant \<Rightarrow> config \<Rightarrow> metrics \<Rightarrow> heap \<Rightarrow> 'm core" where
  "core_new D now c m h =
     \<lparr>co_shared = \<lparr>sh_heap = h, sh_pool = pool_new D, sh_metrics = m, sh_history = []\<rparr>,
      co_next = 0, co_notifications = 0, co_config = c, co_started_at = now\<rparr>"

definition count_enqueued :: "metrics \<Rightarrow> metrics" where
  "count_enqueued m =
     m\<lparr>mt_total_players_enqueued := mt_total_players_enqueued m + 1,
       mt_current_queue_size := mt_current_queue_size m + 1\<rparr>"

definition enqueue ::
    "'m dash \<Rightarrow> instant \<Rightarrow> uuid \<Rightarrow> u32 \<Rightarrow> 'm core \<Rightarrow> (enqueue_error + usize) \<times> 'm core" where
  "enqueue D now i skill_rating core =
     (if skill_rating > MAX_SKILL_RATING
      then (Inl (InvalidSkillRating skill_rating MAX_SKILL_RATING), core)
      else if pool_contains D i (sh_pool (co_shared core)) then (Inl (AlreadyQueued i), core)
      else let sh = co_shared core;
               a = co_next core;
               h = (sh_heap sh)(a := player_new now i skill_rating);
               pl = pool_insert D h a (sh_pool sh);
               m = count_enqueued (sh_metrics sh)
           in (Inr (pool_len D pl),
               core\<lparr>co_shared := sh\<lparr>sh_heap := h, sh_pool := pl, sh_metrics := m\<rparr>,
                    co_next := Suc a, co_notifications := Suc (co_notifications core)\<rparr>))"

definition count_cancelled :: "metrics \<Rightarrow> metrics" where
  "count_cancelled m =
     m\<lparr>mt_current_queue_size := mt_current_queue_size m - 1,
       mt_total_players_cancelled := mt_total_players_cancelled m + 1\<rparr>"

definition cancel :: "'m dash \<Rightarrow> uuid \<Rightarrow> 'm core \<Rightarrow> (cancel_error + unit) \<times> 'm core" where
  "cancel D i core =
     (let sh = co_shared core
      in case pool_get D i (sh_pool sh) of
           None \<Rightarrow> (Inl (NotFound i), core)
         | Some a \<Rightarrow>
             (case try_evict (sh_heap sh a) of
                (False, p) \<Rightarrow> (Inl (CurrentlyBeingMatched i), core)
              | (True, p) \<Rightarrow>
                  let h = (sh_heap sh)(a := p);
                      pl = snd (pool_remove D h i (sh_pool sh));
                      m = count_cancelled (sh_metrics sh)
                  in (Inr (), core\<lparr>co_shared := sh\<lparr>sh_heap := h, sh_pool := pl, sh_metrics := m\<rparr>\<rparr>)))"

definition recent_matches :: "usize \<Rightarrow> 'm core \<Rightarrow> match_record list" where
  "recent_matches limit core = take limit (rev (sh_history (co_shared core)))"

definition total_matches_formed :: "'m core \<Rightarrow> u64" where
  "total_matches_formed core = mt_total_matches_created (sh_metrics (co_shared core))"

definition core_metrics_snapshot :: "'m core \<Rightarrow> metrics_snapshot" where
  "core_metrics_snapshot core = snapshot (sh_metrics (co_shared core))"

definition players_waiting :: "'m core \<Rightarrow> i64" where
  "players_waiting core = mt_current_queue_size (sh_metrics (co_shared core))"

definition uptime_secs :: "instant \<Rightarrow> 'm core \<Rightarrow> u64" where
  "uptime_secs now core = word_of_nat ((now - co_started_at core) div 1000000000)"

definition make_worker_context :: "u64 \<Rightarrow> 'm core \<Rightarrow> worker_context" where
  "make_worker_context worker_id core =
     \<lparr>wc_worker_id = worker_id, wc_config = co_config core,
      wc_match_history_limit = MATCH_HISTORY_LIMIT\<rparr>"

section \<open>The invariant between operations\<close>

text \<open>
  Between whole operations every pool member waits, the structures are in step, addresses at
  or above the allocation pointer are unused, and the counters account for every player.
\<close>

definition counters_ok :: "'m dash \<Rightarrow> 'm shared \<Rightarrow> bool" where
  "counters_ok D sh \<longleftrightarrow>
     (let m = sh_metrics sh
      in mt_current_queue_size m = of_nat (pool_len D (sh_pool sh)) \<and>
         mt_total_players_enqueued m =
           mt_total_players_cancelled m + mt_total_players_matched m + of_nat (pool_len D (sh_pool sh)) \<and>
         mt_total_players_matched m = 10 * mt_total_matches_created m \<and>
         mt_skill_spread_count m = mt_total_matches_created m \<and>
         mt_team_delta_count m = mt_total_matches_created m)"

definition core_ok :: "'m dash \<Rightarrow> 'm core \<Rightarrow> bool" where
  "core_ok D core \<longleftrightarrow>
     (let sh = co_shared core
      in pool_ok D (sh_heap sh) (sh_pool sh) \<and>
         (\<forall>a \<in> members D (sh_pool sh). a < co_next core \<and> is_waiting (sh_heap sh a) \<and> player_ok (sh_heap sh a)) \<and>
         counters_ok D sh \<and> length (sh_history sh) \<le> MATCH_HISTORY_LIMIT)"

lemma core_okD:
  assumes "core_ok D core"
  shows "pool_ok D (sh_heap (co_shared core)) (sh_pool (co_shared core))"
    and "a \<in> members D (sh_pool (co_shared core)) \<Longrightarrow> a < co_next core"
    and "a \<in> members D (sh_pool (co_shared core)) \<Longrightarrow> is_waiting (sh_heap (co_shared core) a)"
    and "a \<in> members D (sh_pool (co_shared core)) \<Longrightarrow> player_ok (sh_heap (co_shared core) a)"
    and "counters_ok D (co_shared core)"
    and "length (sh_history (co_shared core)) \<le> MATCH_HISTORY_LIMIT"
  using assms by (auto simp: core_ok_def Let_def)

lemma pool_len_new: "dashmap D \<Longrightarrow> pool_len D (pool_new D) = 0"
  by (simp add: pool_len_members [OF _ pool_ok_new] members_new)

lemma core_ok_new: "dashmap D \<Longrightarrow> core_ok D (core_new D now c metrics_new h)"
  by (simp add: core_ok_def core_new_def pool_ok_new members_new counters_ok_def pool_len_new metrics_new_def)

lemma player_new_simps [simp]:
  "p_id (player_new now i r) = i" "p_skill_rating (player_new now i r) = r"
  "p_join_timestamp (player_new now i r) = now" "is_waiting (player_new now i r)"
  by (simp_all add: player_new_def is_waiting_def)

text \<open>A successful enqueue, on a well-formed core.\<close>

lemma enqueue_accepts:
  assumes D: "dashmap D" and ok: "core_ok D core"
    and "r \<le> MAX_SKILL_RATING" and "\<not> pool_contains D i (sh_pool (co_shared core))"
  defines "sh \<equiv> co_shared core" and "a \<equiv> co_next core"
  obtains sh' where "enqueue D now i r core =
      (Inr (Suc (pool_len D (sh_pool sh))),
       core\<lparr>co_shared := sh', co_next := Suc a, co_notifications := Suc (co_notifications core)\<rparr>)"
    and "sh_heap sh' = (sh_heap sh)(a := player_new now i r)"
    and "pool_map D (sh_pool sh') = (pool_map D (sh_pool sh))(i \<mapsto> a)"
    and "members D (sh_pool sh') = insert a (members D (sh_pool sh))"
    and "pool_ok D (sh_heap sh') (sh_pool sh')"
    and "pool_len D (sh_pool sh') = Suc (pool_len D (sh_pool sh))"
    and "sh_metrics sh' = count_enqueued (sh_metrics sh)"
    and "sh_history sh' = sh_history sh"
proof -
  let ?h = "(sh_heap sh)(a := player_new now i r)"
  let ?pl = "pool_insert D ?h a (sh_pool sh)"
  have "a \<notin> members D (sh_pool sh)" using core_okD(2) [OF ok] by (auto simp: a_def sh_def)
  then have ok': "pool_ok D ?h (sh_pool sh)"
    by (subst pool_ok_heap_cong [where h = "sh_heap sh"]) (use core_okD(1) [OF ok] in \<open>auto simp: sh_def\<close>)
  have new: "pool_map D (sh_pool sh) (p_id (?h a)) = None"
    using assms(4) by (simp add: pool_contains_def pool_map_def sh_def)
  have rating: "p_skill_rating (?h a) \<le> MAX_SKILL_RATING" using assms(3) by simp
  have len: "pool_len D ?pl = Suc (pool_len D (sh_pool sh))"
    by (rule pool_len_insert [OF D ok' new rating])
  show ?thesis
  proof (rule that [of "sh\<lparr>sh_heap := ?h, sh_pool := ?pl, sh_metrics := count_enqueued (sh_metrics sh)\<rparr>"])
    show "enqueue D now i r core = (Inr (Suc (pool_len D (sh_pool sh))),
        core\<lparr>co_shared := sh\<lparr>sh_heap := ?h, sh_pool := ?pl, sh_metrics := count_enqueued (sh_metrics sh)\<rparr>,
             co_next := Suc a, co_notifications := Suc (co_notifications core)\<rparr>)"
      using assms(3,4) len by (simp add: enqueue_def Let_def sh_def a_def linorder_not_less [symmetric])
    show "pool_ok D (sh_heap (sh\<lparr>sh_heap := ?h, sh_pool := ?pl, sh_metrics := count_enqueued (sh_metrics sh)\<rparr>))
        (sh_pool (sh\<lparr>sh_heap := ?h, sh_pool := ?pl, sh_metrics := count_enqueued (sh_metrics sh)\<rparr>))"
      using pool_ok_insert [OF D ok' new rating] by (simp del: fun_upd_apply)
  qed (use len pool_map_insert [OF D, of ?h a] members_insert [OF D, of "sh_pool sh" ?h a] new in simp_all)
qed

lemma core_ok_enqueue:
  assumes D: "dashmap D" and ok: "core_ok D core"
  shows "core_ok D (snd (enqueue D now i r core))"
proof (cases "r \<le> MAX_SKILL_RATING \<and> \<not> pool_contains D i (sh_pool (co_shared core))")
  case True
  then have acc: "r \<le> MAX_SKILL_RATING" "\<not> pool_contains D i (sh_pool (co_shared core))" by auto
  show ?thesis
  proof (rule enqueue_accepts [OF D ok acc, of now])
    fix sh'
    assume res: "enqueue D now i r core =
        (Inr (Suc (pool_len D (sh_pool (co_shared core)))),
         core\<lparr>co_shared := sh', co_next := Suc (co_next core), co_notifications := Suc (co_notifications core)\<rparr>)"
      and sh': "sh_heap sh' = (sh_heap (co_shared core))(co_next core := player_new now i r)"
        "members D (sh_pool sh') = insert (co_next core) (members D (sh_pool (co_shared core)))"
        "pool_ok D (sh_heap sh') (sh_pool sh')"
        "pool_len D (sh_pool sh') = Suc (pool_len D (sh_pool (co_shared core)))"
        "sh_metrics sh' = count_enqueued (sh_metrics (co_shared core))"
        "sh_history sh' = sh_history (co_shared core)"
    have "counters_ok D sh'"
      using core_okD(5) [OF ok] by (simp add: counters_ok_def Let_def sh' count_enqueued_def)
    moreover have "a < Suc (co_next core) \<and> is_waiting (sh_heap sh' a) \<and> player_ok (sh_heap sh' a)"
      if "a \<in> members D (sh_pool sh')" for a
      using that core_okD(2-4) [OF ok, of a] by (auto simp: sh' player_ok_new)
    ultimately show ?thesis
      using sh'(3) core_okD(6) [OF ok] by (simp add: core_ok_def res sh'(6))
  qed
next
  case False
  with ok show ?thesis by (auto simp: enqueue_def)
qed

text \<open>A cancellation of a queued player, on a well-formed core.\<close>

lemma cancel_accepts:
  assumes D: "dashmap D" and ok: "core_ok D core"
    and found: "pool_map D (sh_pool (co_shared core)) i = Some a"
  obtains sh' where "cancel D i core = (Inr (), core\<lparr>co_shared := sh'\<rparr>)"
    and "sh_heap sh' = (sh_heap (co_shared core))(a := (sh_heap (co_shared core) a)\<lparr>p_state := EVICTED\<rparr>)"
    and "pool_map D (sh_pool sh') = (pool_map D (sh_pool (co_shared core)))(i := None)"
    and "members D (sh_pool sh') = members D (sh_pool (co_shared core)) - {a}"
    and "pool_ok D (sh_heap sh') (sh_pool sh')"
    and "Suc (pool_len D (sh_pool sh')) = pool_len D (sh_pool (co_shared core))"
    and "sh_metrics sh' = count_cancelled (sh_metrics (co_shared core))"
    and "sh_history sh' = sh_history (co_shared core)"
proof -
  let ?sh = "co_shared core"
  let ?h = "(sh_heap ?sh)(a := (sh_heap ?sh a)\<lparr>p_state := EVICTED\<rparr>)"
  let ?pl = "snd (pool_remove D ?h i (sh_pool ?sh))"
  have mem: "a \<in> members D (sh_pool ?sh)" using found by (auto simp: members_def ran_def)
  then have waiting: "p_state (sh_heap ?sh a) = WAITING"
    using core_okD(3) [OF ok] by (simp add: is_waiting_def)
  have ok': "pool_ok D ?h (sh_pool ?sh)"
    by (subst pool_ok_heap_cong [where h = "sh_heap ?sh"]) (use core_okD(1) [OF ok] in auto)
  have "0 < pool_len D (sh_pool ?sh)"
    using pool_len_members [OF D ok'] finite_members [OF D, of "sh_pool ?sh"] mem
    by (auto simp: card_gt_0_iff)
  then have len: "Suc (pool_len D ?pl) = pool_len D (sh_pool ?sh)"
    using pool_len_remove [OF D ok', of i] found by (simp add: pool_contains_def flip: pool_map_def)
  show ?thesis
  proof (rule that [of "?sh\<lparr>sh_heap := ?h, sh_pool := ?pl, sh_metrics := count_cancelled (sh_metrics ?sh)\<rparr>"])
    show "cancel D i core = (Inr (),
        core\<lparr>co_shared := ?sh\<lparr>sh_heap := ?h, sh_pool := ?pl, sh_metrics := count_cancelled (sh_metrics ?sh)\<rparr>\<rparr>)"
      using found waiting by (simp add: cancel_def Let_def pool_get_def try_evict_step flip: pool_map_def)
    show "pool_ok D (sh_heap (?sh\<lparr>sh_heap := ?h, sh_pool := ?pl, sh_metrics := count_cancelled (sh_metrics ?sh)\<rparr>))
        (sh_pool (?sh\<lparr>sh_heap := ?h, sh_pool := ?pl, sh_metrics := count_cancelled (sh_metrics ?sh)\<rparr>))"
      using pool_ok_remove [OF D ok', of i] by (simp del: fun_upd_apply)
  qed (use len pool_map_remove [OF D, of ?h i] members_remove [OF D ok' found] in simp_all)
qed

lemma core_ok_cancel:
  assumes D: "dashmap D" and ok: "core_ok D core"
  shows "core_ok D (snd (cancel D i core))"
proof (cases "pool_map D (sh_pool (co_shared core)) i")
  case None
  with ok show ?thesis by (simp add: cancel_def Let_def pool_get_def flip: pool_map_def)
next
  case (Some a)
  show ?thesis
  proof (rule cancel_accepts [OF D ok Some])
    fix sh'
    assume res: "cancel D i core = (Inr (), core\<lparr>co_shared := sh'\<rparr>)"
      and sh': "sh_heap sh' = (sh_heap (co_shared core))(a := (sh_heap (co_shared core) a)\<lparr>p_state := EVICTED\<rparr>)"
        "members D (sh_pool sh') = members D (sh_pool (co_shared core)) - {a}"
        "pool_ok D (sh_heap sh') (sh_pool sh')"
        "Suc (pool_len D (sh_pool sh')) = pool_len D (sh_pool (co_shared core))"
        "sh_metrics sh' = count_cancelled (sh_metrics (co_shared core))"
        "sh_history sh' = sh_history (co_shared core)"
    have "counters_ok D sh'"
      using core_okD(5) [OF ok] by (simp add: counters_ok_def Let_def sh'(5) count_cancelled_def flip: sh'(4))
    moreover have "b < co_next core \<and> is_waiting (sh_heap sh' b) \<and> player_ok (sh_heap sh' b)"
      if "b \<in> members D (sh_pool sh')" for b
      using that core_okD(2-4) [OF ok, of b] by (auto simp: sh'(1,2))
    ultimately show ?thesis
      using sh'(3) core_okD(6) [OF ok] by (simp add: core_ok_def res sh'(6))
  qed
qed

lemma core_ok_attempt:
  assumes D: "dashmap D" and ok: "core_ok D core"
    and res: "attempt_match D (make_worker_context w core) rd (co_shared core) st = Some (r, sh', st')"
  shows "core_ok D (core\<lparr>co_shared := sh'\<rparr>)"
proof (cases "\<exists>m. r = Success m")
  case True
  then obtain m where r: "r = Success m" ..
  show ?thesis
  proof (rule success_cases [OF D core_okD(1) [OF ok] res [unfolded r]])
    fix as
    assume heap: "\<And>a. sh_heap sh' a =
        (if a \<in> set as then mark_matched (rd_matched_now rd a)
           (claimed_by (wc_worker_id (make_worker_context w core)) (rd_unix_ms rd) (sh_heap (co_shared core) a))
         else sh_heap (co_shared core) a)"
      and sh': "pool_ok D (sh_heap sh') (sh_pool sh')"
        "members D (sh_pool sh') = members D (sh_pool (co_shared core)) - set as"
        "pool_len D (sh_pool sh') + MATCH_SIZE = pool_len D (sh_pool (co_shared core))"
        "sh_history sh' = push_history (wc_match_history_limit (make_worker_context w core)) m (sh_history (co_shared core))"
        "sh_metrics sh' = update_metrics_on_success m
          (map (\<lambda>a. millis_since (rd_matched_now rd a) (p_join_timestamp (sh_heap (co_shared core) a))) as)
          (m_skill_spread m) (count_cycle (sh_metrics (co_shared core)))"
    have "counters_ok D sh'"
      using core_okD(5) [OF ok]
      by (simp add: counters_ok_def Let_def sh'(5) update_metrics_on_success_def count_cycle_def
          MATCH_SIZE_def algebra_simps flip: sh'(3))
    moreover have "b < co_next core \<and> is_waiting (sh_heap sh' b) \<and> player_ok (sh_heap sh' b)"
      if "b \<in> members D (sh_pool sh')" for b
      using that core_okD(2-4) [OF ok, of b] by (auto simp: sh'(2) heap)
    moreover have "length (sh_history sh') \<le> MATCH_HISTORY_LIMIT"
      using core_okD(6) [OF ok] by (simp add: sh'(4) push_history_eq make_worker_context_def)
    ultimately show ?thesis using sh'(1) by (simp add: core_ok_def)
  qed
next
  case False
  then have "\<forall>m. r \<noteq> Success m" by simp
  from failed_attempt_keeps [OF D core_okD(1) [OF ok] res this]
  have "sh_heap sh' = sh_heap (co_shared core)" "sh_pool sh' = sh_pool (co_shared core)"
    "sh_history sh' = sh_history (co_shared core)" "counters_ok D sh' = counters_ok D (co_shared core)"
    by (auto simp: counters_ok_def Let_def split: if_splits)
  with ok show ?thesis by (simp add: core_ok_def Let_def)
qed

section \<open>The service as a system of operations\<close>

definition engine_init :: "'m dash \<Rightarrow> 'm core \<Rightarrow> bool" where
  "engine_init D core \<longleftrightarrow> (\<exists>now c h. core = core_new D now c metrics_new h)"

inductive engine_step :: "'m dash \<Rightarrow> 'm core \<Rightarrow> 'm core \<Rightarrow> bool" for D :: "'m dash" where
  step_enqueue: "enqueue D now i r core = (res, core') \<Longrightarrow> engine_step D core core'"
| step_cancel: "cancel D i core = (res, core') \<Longrightarrow> engine_step D core core'"
| step_attempt: "attempt_match D (make_worker_context w core) rd (co_shared core) st = Some (r, sh', st') \<Longrightarrow>
    engine_step D core (core\<lparr>co_shared := sh'\<rparr>)"

inductive_cases engine_stepE: "engine_step D core core'"

lemma core_ok_step: "dashmap D \<Longrightarrow> core_ok D core \<Longrightarrow> engine_step D core core' \<Longrightarrow> core_ok D core'"
proof (erule engine_stepE)
  fix now i r res
  assume "dashmap D" "core_ok D core" "enqueue D now i r core = (res, core')"
  then show "core_ok D core'" using core_ok_enqueue [of D core now i r] by simp
next
  fix i res
  assume "dashmap D" "core_ok D core" "cancel D i core = (res, core')"
  then show "core_ok D core'" using core_ok_cancel [of D core i] by simp
qed (simp add: core_ok_attempt)

interpretation engine: inductive_invariant "engine_init D" "engine_step D" "\<lambda>core. dashmap D \<longrightarrow> core_ok D core"
  for D :: "'m dash"
  by unfold_locales (auto simp: engine_init_def core_ok_new intro: core_ok_step)

lemma reachable_core_ok: "dashmap D \<Longrightarrow> reach (engine_init D) (engine_step D) core \<Longrightarrow> core_ok D core"
  using engine.reachable_inv by blast

text \<open>Nobody is lost: whoever was ever created and is not in the pool has been matched or evicted.\<close>

definition all_filed :: "'m dash \<Rightarrow> 'm core \<Rightarrow> bool" where
  "all_filed D core \<longleftrightarrow>
     (\<forall>a < co_next core. a \<in> members D (sh_pool (co_shared core)) \<or>
        p_state (sh_heap (co_shared core) a) \<in> {MATCHED, EVICTED})"

lemma all_filed_enqueue:
  assumes D: "dashmap D" and ok: "core_ok D core" and all: "all_filed D core"
  shows "all_filed D (snd (enqueue D now i r core))"
proof (cases "r \<le> MAX_SKILL_RATING \<and> \<not> pool_contains D i (sh_pool (co_shared core))")
  case True
  then have acc: "r \<le> MAX_SKILL_RATING" "\<not> pool_contains D i (sh_pool (co_shared core))" by auto
  show ?thesis
    by (rule enqueue_accepts [OF D ok acc, of now]) (use all in \<open>auto simp: all_filed_def less_Suc_eq\<close>)
next
  case False
  with all show ?thesis by (auto simp: enqueue_def)
qed

lemma all_filed_cancel:
  assumes D: "dashmap D" and ok: "core_ok D core" and all: "all_filed D core"
  shows "all_filed D (snd (cancel D i core))"
proof (cases "pool_map D (sh_pool (co_shared core)) i")
  case None
  with all show ?thesis by (simp add: cancel_def Let_def pool_get_def flip: pool_map_def)
next
  case (Some a)
  show ?thesis by (rule cancel_accepts [OF D ok Some]) (use all in \<open>auto simp: all_filed_def\<close>)
qed

lemma all_filed_attempt:
  assumes D: "dashmap D" and ok: "core_ok D core" and all: "all_filed D core"
    and res: "attempt_match D ctx rd (co_shared core) st = Some (r, sh', st')"
  shows "all_filed D (core\<lparr>co_shared := sh'\<rparr>)"
proof (cases "\<exists>m. r = Success m")
  case True
  then obtain m where r: "r = Success m" ..
  show ?thesis
    by (rule success_cases [OF D core_okD(1) [OF ok] res [unfolded r]])
      (use all in \<open>auto simp: all_filed_def mark_matched_step\<close>)
next
  case False
  then have "\<forall>m. r \<noteq> Success m" by simp
  from failed_attempt_keeps [OF D core_okD(1) [OF ok] res this] all show ?thesis by (simp add: all_filed_def)
qed

lemma all_filed_step:
  assumes "dashmap D" and "core_ok D core" and "all_filed D core" and "engine_step D core core'"
  shows "all_filed D core'"
  using assms(4)
proof (rule engine_stepE)
  fix now i r res
  assume "enqueue D now i r core = (res, core')"
  with all_filed_enqueue [OF assms(1-3), of now i r] show ?thesis by simp
next
  fix i res
  assume "cancel D i core = (res, core')"
  with all_filed_cancel [OF assms(1-3), of i] show ?thesis by simp
qed (use all_filed_attempt [OF assms(1-3)] in simp)

lemma reachable_all_filed:
  assumes "dashmap D" and "reach (engine_init D) (engine_step D) core"
  shows "all_filed D core"
  using assms(2)
proof (induction rule: reach.induct)
  case (reach_init core)
  then show ?case by (auto simp: engine_init_def core_new_def all_filed_def)
next
  case (reach_step core core')
  then show ?case using all_filed_step [OF assms(1)] reachable_core_ok [OF assms(1)] by blast
qed

text \<open>A core with the first \<open>n\<close> players enqueued one after the other.\<close>

fun demo_core :: "nat \<Rightarrow> ((uuid \<times> addr) list) core" where
  "demo_core 0 = core_new dash_alist 0 default_config metrics_new (\<lambda>_. player_new 0 0 0)"
| "demo_core (Suc n) = snd (enqueue dash_alist n (of_nat n) 1500 (demo_core n))"

lemma demo_core_reach: "reach (engine_init dash_alist) (engine_step dash_alist) (demo_core n)"
proof (induction n)
  case 0
  show ?case by (rule reach_init) (auto simp: engine_init_def)
next
  case (Suc n)
  show ?case by (rule reach_step [OF Suc.IH]) (auto intro: step_enqueue [OF surjective_pairing])
qed

lemma demo_core_ok: "core_ok dash_alist (demo_core n)"
  by (rule reachable_core_ok [OF dashmap_dash_alist demo_core_reach])

lemma demo_core_map:
  "n < 2 ^ 128 \<Longrightarrow> pool_map dash_alist (sh_pool (co_shared (demo_core n))) i =
     (if unat i < n then Some (unat i) else None) \<and> co_next (demo_core n) = n"
proof (induction n arbitrary: i)
  case 0
  show ?case by (simp add: core_new_def pool_map_def pool_new_def dash_alist_def)
next
  case (Suc n)
  have n: "unat (of_nat n :: uuid) = n" using Suc.prems by (simp add: unat_uuid)
  have new: "\<not> pool_contains dash_alist (of_nat n) (sh_pool (co_shared (demo_core n)))"
    using Suc n by (simp add: pool_contains_def flip: pool_map_def)
  have rating: "(1500 :: u32) \<le> MAX_SKILL_RATING" by (simp add: MAX_SKILL_RATING_def)
  have eq: "i = of_nat n \<longleftrightarrow> unat i = n" using n by (auto simp: word_unat_eq_iff)
  from Suc have IH: "pool_map dash_alist (sh_pool (co_shared (demo_core n))) i =
      (if unat i < n then Some (unat i) else None)" "co_next (demo_core n) = n" by simp_all
  show ?case
    by (rule enqueue_accepts [OF dashmap_dash_alist demo_core_ok rating new, of n])
      (use IH eq in \<open>auto simp del: of_nat_eq_iff\<close>)
qed

section \<open>Properties\<close>

text \<open>
  enqueue, branch by branch.  A rating above 3000 and an identifier already in the queue
  are rejected without any effect, in this order; otherwise the player is filed as waiting,
  the counters and the gauge go up by one, one worker is notified, and the queue depth
  returned is the true one.
\<close>

theorem enqueue_outcome:
  assumes "dashmap D" and "core_ok D core"
  shows "if 3000 < unat r then enqueue D now i r core = (Inl (InvalidSkillRating r 3000), core)
    else if pool_contains D i (sh_pool (co_shared core))
    then enqueue D now i r core = (Inl (AlreadyQueued i), core)
    else \<exists>core'. enqueue D now i r core = (Inr (pool_len D (sh_pool (co_shared core'))), core') \<and>
      core_ok D core' \<and>
      pool_map D (sh_pool (co_shared core')) = (pool_map D (sh_pool (co_shared core)))(i \<mapsto> co_next core) \<and>
      sh_heap (co_shared core') (co_next core) = player_new now i r \<and>
      pool_len D (sh_pool (co_shared core')) = Suc (pool_len D (sh_pool (co_shared core))) \<and>
      sh_metrics (co_shared core') = count_enqueued (sh_metrics (co_shared core)) \<and>
      sh_history (co_shared core') = sh_history (co_shared core) \<and>
      co_notifications core' = Suc (co_notifications core)"
proof -
  have high: "3000 < unat r \<longleftrightarrow> MAX_SKILL_RATING < r"
    by (simp add: word_less_nat_alt MAX_SKILL_RATING_def)
  have "\<exists>core'. enqueue D now i r core = (Inr (pool_len D (sh_pool (co_shared core'))), core') \<and>
      core_ok D core' \<and>
      pool_map D (sh_pool (co_shared core')) = (pool_map D (sh_pool (co_shared core)))(i \<mapsto> co_next core) \<and>
      sh_heap (co_shared core') (co_next core) = player_new now i r \<and>
      pool_len D (sh_pool (co_shared core')) = Suc (pool_len D (sh_pool (co_shared core))) \<and>
      sh_metrics (co_shared core') = count_enqueued (sh_metrics (co_shared core)) \<and>
      sh_history (co_shared core') = sh_history (co_shared core) \<and>
      co_notifications core' = Suc (co_notifications core)"
    if acc: "r \<le> MAX_SKILL_RATING" "\<not> pool_contains D i (sh_pool (co_shared core))"
    by (rule enqueue_accepts [OF assms acc, of now])
      (use core_ok_enqueue [OF assms, of now i r] in auto)
  then show ?thesis
    unfolding high by (auto simp: enqueue_def MAX_SKILL_RATING_def not_less)
qed

theorem enqueue_outcome_witness:
  "fst (enqueue dash_alist 9 3 1500 (demo_core 3)) = Inr 4 \<and>
   fst (enqueue dash_alist 9 2 1500 (demo_core 3)) = Inl (AlreadyQueued 2) \<and>
   fst (enqueue dash_alist 9 3 3001 (demo_core 3)) = Inl (InvalidSkillRating 3001 3000)"
proof -
  have pool: "pool_contains dash_alist i (sh_pool (co_shared (demo_core 3))) \<longleftrightarrow> unat i < 3" for i
    using demo_core_map [of 3 i] by (simp add: pool_contains_def flip: pool_map_def)
  have len: "pool_len dash_alist (sh_pool (co_shared (demo_core 3))) = 3"
    by code_simp
  note outcome = enqueue_outcome [OF dashmap_dash_alist demo_core_ok [of 3], where now = 9]
  show ?thesis
    using outcome [of 1500 3] outcome [of 1500 2] outcome [of 3001 3]
    by (auto simp: pool len)
qed

text \<open>
  cancel, branch by branch.  An unknown identifier is reported as such and changes nothing;
  a queued player is evicted and leaves both structures, the gauge and the cancel counter.
  Between whole operations no queued player is claimed, so the third outcome never arises.
\<close>

theorem cancel_outcome:
  assumes "dashmap D" and "core_ok D core"
  shows "case pool_map D (sh_pool (co_shared core)) i of
      None \<Rightarrow> cancel D i core = (Inl (NotFound i), core)
    | Some a \<Rightarrow> \<exists>core'. cancel D i core = (Inr (), core') \<and> core_ok D core' \<and>
        p_state (sh_heap (co_shared core') a) = EVICTED \<and>
        pool_map D (sh_pool (co_shared core')) = (pool_map D (sh_pool (co_shared core)))(i := None) \<and>
        Suc (pool_len D (sh_pool (co_shared core'))) = pool_len D (sh_pool (co_shared core)) \<and>
        sh_metrics (co_shared core') = count_cancelled (sh_metrics (co_shared core)) \<and>
        sh_history (co_shared core') = sh_history (co_shared core)"
proof (cases "pool_map D (sh_pool (co_shared core)) i")
  case None
  then show ?thesis by (simp add: cancel_def Let_def pool_get_def flip: pool_map_def)
next
  case (Some a)
  show ?thesis
    by (rule cancel_accepts [OF assms Some]) (use Some core_ok_cancel [OF assms, of i] in auto)
qed

theorem cancel_outcome_witness:
  "fst (cancel dash_alist 1 (demo_core 3)) = Inr () \<and>
   fst (cancel dash_alist 7 (demo_core 3)) = Inl (NotFound 7)"
  using cancel_outcome [OF dashmap_dash_alist demo_core_ok [of 3], of 1]
    cancel_outcome [OF dashmap_dash_alist demo_core_ok [of 3], of 7]
    demo_core_map [of 3 1] demo_core_map [of 3 7]
  by auto

text \<open>
  C13: conservation, when operations do not overlap.  After any sequence of whole enqueues, cancels
  and match attempts of any workers, each of which ends before the next one starts, the queue gauge is
  the number of players in the pool, everyone ever enqueued is cancelled, matched or still queued,
  ten players were matched per match, and the history is bounded.  (While operations overlap the
  gauge may be off, see theories Races and Atomic_Properties.  Counters are 64-bit words; the
  equations are exact as long as they do not wrap.)
\<close>

theorem reachable_counters_conserved:
  assumes "dashmap D" and "reach (engine_init D) (engine_step D) core"
  shows "let sh = co_shared core; m = sh_metrics sh; n = pool_len D (sh_pool sh)
    in mt_current_queue_size m = of_nat n \<and>
       mt_total_players_enqueued m = mt_total_players_cancelled m + mt_total_players_matched m + of_nat n \<and>
       mt_total_players_matched m = 10 * mt_total_matches_created m \<and>
       length (sh_history sh) \<le> 10000"
  using core_okD(5,6) [OF reachable_core_ok [OF assms]]
  by (simp add: counters_ok_def Let_def MATCH_HISTORY_LIMIT_def)

theorem reachable_counters_conserved_witness:
  "mt_current_queue_size (sh_metrics (co_shared (demo_core 12))) =
     of_nat (pool_len dash_alist (sh_pool (co_shared (demo_core 12))))"
  using reachable_counters_conserved [OF dashmap_dash_alist demo_core_reach [of 12]]
  by (simp add: Let_def del: demo_core.simps)

text \<open>
  C14: the queue loses nobody, when operations do not overlap.  After any sequence of whole enqueues,
  cancels and match attempts, each of which ends before the next one starts, the two structures of
  the pool agree, and the players filed in it, each under his own identifier, are exactly all the
  players ever created who wait; whoever was created and is not filed is matched or evicted.  Every
  filed player has clear claim fields and a valid rating.
\<close>

theorem reachable_pool_consistent:
  assumes "dashmap D" and "reach (engine_init D) (engine_step D) core"
  shows "let h = sh_heap (co_shared core); pl = sh_pool (co_shared core)
    in pool_ok D h pl \<and>
       members D pl = {a. a < co_next core \<and> p_state (h a) = WAITING} \<and>
       (\<forall>a < co_next core. p_state (h a) = WAITING \<and> pool_map D pl (p_id (h a)) = Some a \<and>
            map_of (pl_index pl) (p_skill_rating (h a), p_id (h a)) = Some a \<and>
            player_ok (h a) \<and> unat (p_skill_rating (h a)) \<le> 3000 \<or>
          p_state (h a) \<in> {MATCHED, EVICTED} \<and> a \<notin> members D pl)"
proof -
  let ?h = "sh_heap (co_shared core)" and ?pl = "sh_pool (co_shared core)"
  note ok = reachable_core_ok [OF assms] and all = reachable_all_filed [OF assms]
  have filed: "p_state (?h a) = WAITING \<and> pool_map D ?pl (p_id (?h a)) = Some a \<and>
      map_of (pl_index ?pl) (p_skill_rating (?h a), p_id (?h a)) = Some a \<and>
      player_ok (?h a) \<and> unat (p_skill_rating (?h a)) \<le> 3000" if "a \<in> members D ?pl" for a
  proof -
    have "pool_map D ?pl (p_id (?h a)) = Some a" using that members_iff [OF core_okD(1) [OF ok]] by simp
    then show ?thesis
      using core_okD(3,4) [OF ok that] pool_okD(4) [OF core_okD(1) [OF ok]] members_rating [OF core_okD(1) [OF ok] that]
      by (simp add: is_waiting_def word_le_nat_alt MAX_SKILL_RATING_def)
  qed
  then have "members D ?pl = {a. a < co_next core \<and> p_state (?h a) = WAITING}"
    using core_okD(2) [OF ok] all by (auto simp: all_filed_def WAITING_def MATCHED_def EVICTED_def)
  with filed all core_okD(1) [OF ok] show ?thesis
    unfolding Let_def all_filed_def by (auto simp: WAITING_def MATCHED_def EVICTED_def)
qed

theorem reachable_pool_consistent_witness:
  "members dash_alist (sh_pool (co_shared (demo_core 12))) =
     {a. a < co_next (demo_core 12) \<and> p_state (sh_heap (co_shared (demo_core 12)) a) = WAITING}"
  using reachable_pool_consistent [OF dashmap_dash_alist demo_core_reach [of 12]] by (simp only: Let_def simp_thms)

text \<open>
  C27: enqueue followed by cancel of the same identifier, with no other operation in between.  The
  cancellation succeeds and leaves the new player evicted and every other player as he was; the queue
  is restored, both the primary store (as a map) and the index (entry by entry), and so is the gauge;
  the two events stay in the counters, and the identifier can be enqueued again.
\<close>

theorem enqueue_cancel_roundtrip:
  assumes "dashmap D" and "core_ok D core"
    and "r \<le> MAX_SKILL_RATING" and "\<not> pool_contains D i (sh_pool (co_shared core))"
  shows "\<exists>core'. cancel D i (snd (enqueue D now i r core)) = (Inr (), core') \<and>
    sh_heap (co_shared core') =
      (sh_heap (co_shared core))(co_next core := (player_new now i r)\<lparr>p_state := EVICTED\<rparr>) \<and>
    pool_map D (sh_pool (co_shared core')) = pool_map D (sh_pool (co_shared core)) \<and>
    pl_index (sh_pool (co_shared core')) = pl_index (sh_pool (co_shared core)) \<and>
    players_waiting core' = players_waiting core \<and>
    sh_metrics (co_shared core') = (sh_metrics (co_shared core))
      \<lparr>mt_total_players_enqueued := mt_total_players_enqueued (sh_metrics (co_shared core)) + 1,
       mt_total_players_cancelled := mt_total_players_cancelled (sh_metrics (co_shared core)) + 1\<rparr> \<and>
    (\<exists>n. fst (enqueue D now' i r core') = Inr n)"
proof (rule enqueue_accepts [OF assms, of now])
  fix sh'
  assume res: "enqueue D now i r core =
      (Inr (Suc (pool_len D (sh_pool (co_shared core)))),
       core\<lparr>co_shared := sh', co_next := Suc (co_next core), co_notifications := Suc (co_notifications core)\<rparr>)"
    (is "_ = (_, ?core)")
    and heap: "sh_heap sh' = (sh_heap (co_shared core))(co_next core := player_new now i r)"
    and map: "pool_map D (sh_pool sh') = (pool_map D (sh_pool (co_shared core)))(i \<mapsto> co_next core)"
    and m: "sh_metrics sh' = count_enqueued (sh_metrics (co_shared core))"
  have ok: "core_ok D ?core" using core_ok_enqueue [OF assms(1,2), of now i r] by (simp add: res)
  have found: "pool_map D (sh_pool (co_shared ?core)) i = Some (co_next core)" by (simp add: map)
  have none: "pool_map D (sh_pool (co_shared core)) i = None"
    using assms(4) by (simp add: pool_contains_def flip: pool_map_def)
  show ?thesis
  proof (rule cancel_accepts [OF assms(1) ok found])
    fix sh2
    assume c: "cancel D i ?core = (Inr (), ?core\<lparr>co_shared := sh2\<rparr>)"
      and heap': "sh_heap sh2 = (sh_heap (co_shared ?core))(co_next core := (sh_heap (co_shared ?core) (co_next core))\<lparr>p_state := EVICTED\<rparr>)"
      and map': "pool_map D (sh_pool sh2) = (pool_map D (sh_pool (co_shared ?core)))(i := None)"
      and ok': "pool_ok D (sh_heap sh2) (sh_pool sh2)"
      and m': "sh_metrics sh2 = count_cancelled (sh_metrics (co_shared ?core))"
    have restored: "pool_map D (sh_pool sh2) = pool_map D (sh_pool (co_shared core))"
      using none by (auto simp: map' map)
    have heap2: "sh_heap sh2 = (sh_heap (co_shared core))(co_next core := (player_new now i r)\<lparr>p_state := EVICTED\<rparr>)"
      by (simp add: heap' heap)
    have "pl_index (sh_pool sh2) = pl_index (sh_pool (co_shared core))"
    proof (rule pool_index_unique [OF ok' core_okD(1) [OF assms(2)] restored])
      fix j a
      assume "pool_map D (sh_pool (co_shared core)) j = Some a"
      then have "a \<noteq> co_next core" using core_okD(2) [OF assms(2), of a] by (auto simp: members_def ran_def)
      then show "p_skill_rating (sh_heap sh2 a) = p_skill_rating (sh_heap (co_shared core) a)" by (simp add: heap2)
    qed
    moreover from restored have "\<not> pool_contains D i (sh_pool sh2)"
      using none by (simp add: pool_contains_def flip: pool_map_def)
    then have "\<exists>n. fst (enqueue D now' i r (?core\<lparr>co_shared := sh2\<rparr>)) = Inr n"
      using assms(3) by (simp add: enqueue_def Let_def linorder_not_less)
    ultimately show ?thesis
      using c restored heap2
      by (intro exI [of _ "?core\<lparr>co_shared := sh2\<rparr>"])
        (simp add: res m m' count_enqueued_def count_cancelled_def players_waiting_def)
  qed
qed

theorem enqueue_cancel_roundtrip_witness:
  "\<exists>core'. cancel dash_alist 3 (snd (enqueue dash_alist 9 3 1500 (demo_core 3))) = (Inr (), core') \<and>
     p_state (sh_heap (co_shared core') (co_next (demo_core 3))) = EVICTED \<and>
     pl_index (sh_pool (co_shared core')) = pl_index (sh_pool (co_shared (demo_core 3)))"
proof -
  have "\<not> pool_contains dash_alist 3 (sh_pool (co_shared (demo_core 3)))"
    using demo_core_map [of 3 3] by (simp add: pool_contains_def flip: pool_map_def)
  moreover have "(1500 :: u32) \<le> MAX_SKILL_RATING" by (simp add: MAX_SKILL_RATING_def)
  ultimately obtain core' where "cancel dash_alist 3 (snd (enqueue dash_alist 9 3 1500 (demo_core 3))) = (Inr (), core')"
      "sh_heap (co_shared core') = (sh_heap (co_shared (demo_core 3)))
         (co_next (demo_core 3) := (player_new 9 3 1500)\<lparr>p_state := EVICTED\<rparr>)"
      "pl_index (sh_pool (co_shared core')) = pl_index (sh_pool (co_shared (demo_core 3)))"
    using enqueue_cancel_roundtrip [OF dashmap_dash_alist demo_core_ok, of 1500 3 3 9] by blast
  then show ?thesis by (intro exI [of _ core']) (simp del: demo_core.simps)
qed

text \<open>recent matches come newest first, as many as asked for and available.\<close>

theorem recent_matches_newest_first:
  "length (recent_matches limit core) = min limit (length (sh_history (co_shared core))) \<and>
   (\<forall>k < length (recent_matches limit core).
      recent_matches limit core ! k =
        sh_history (co_shared core) ! (length (sh_history (co_shared core)) - Suc k))"
  by (simp add: recent_matches_def rev_nth)

theorem recent_matches_newest_first_witness:
  "recent_matches 1 ((demo_core 0)\<lparr>co_shared := (co_shared (demo_core 0))
     \<lparr>sh_history := [match_new 1 5 (team_new []) (team_new []) 0 0 0,
                    match_new 2 6 (team_new []) (team_new []) 0 0 0]\<rparr>\<rparr>) ! 0 =
   match_new 2 6 (team_new []) (team_new []) 0 0 0"
  using recent_matches_newest_first [of 1 "(demo_core 0)\<lparr>co_shared := (co_shared (demo_core 0))
     \<lparr>sh_history := [match_new 1 5 (team_new []) (team_new []) 0 0 0,
                    match_new 2 6 (team_new []) (team_new []) 0 0 0]\<rparr>\<rparr>"]
  by simp

end
