(* ===== verification/Workers.thy ===== *)
theory Workers
  imports Engine
begin

text \<open>
  Model of src/src/workers/mod.rs: the tasks that are spawned, the event loop of a worker, and
  the Reaper's scan.  An event loop consumes the successive readinesses of its three wake
  sources; futures that are not ready at a poll leave it waiting.
\<close>

definition REAPER_INTERVAL_MS :: u64 where "REAPER_INTERVAL_MS = 1000"

section \<open>Spawning\<close>

datatype task = Worker_task u64 worker_context u64 | Reaper_task u64

definition spawn_all :: "'m core \<Rightarrow> task list" where
  "spawn_all core =
     map (\<lambda>i. Worker_task (of_nat i) (make_worker_context (of_nat i) core) (worker_tick_ms (co_config core)))
       [1..<Suc (worker_count (co_config core))] @
     [Reaper_task (stale_claim_timeout_ms (co_config core))]"

section \<open>The event loop of a worker\<close>

datatype wake = Shutdown | Notified | Tick

record poll =
  po_shutdown :: bool
  po_notified :: bool
  po_tick :: bool

text \<open>\<open>tokio::select!\<close> with \<open>biased\<close>: the first ready branch in the order of the source.\<close>

definition select_biased :: "poll \<Rightarrow> wake option" where
  "select_biased p =
     (if po_shutdown p then Some Shutdown
      else if po_notified p then Some Notified
      else if po_tick p then Some Tick
      else None)"

datatype loop_end = Exited | Still_running

text \<open>
  Each poll comes with the readings the attempt would use.  The result is \<open>None\<close> on a panic.
\<close>

fun worker_loop ::
    "'m dash \<Rightarrow> worker_context \<Rightarrow> (poll \<times> readings) list \<Rightarrow> 'm shared \<Rightarrow> worker_state \<Rightarrow>
       (loop_end \<times> match_attempt_result list \<times> 'm shared) option" where
  "worker_loop D ctx [] sh st = Some (Still_running, [], sh)"
| "worker_loop D ctx ((p, rd) # polls) sh st =
     (case select_biased p of
        None \<Rightarrow> worker_loop D ctx polls sh st
      | Some Shutdown \<Rightarrow> Some (Exited, [], sh)
      | Some _ \<Rightarrow>
          (case attempt_match D ctx rd sh st of
             None \<Rightarrow> None
           | Some (r, sh, st) \<Rightarrow>
               (case worker_loop D ctx polls sh st of
                  None \<Rightarrow> None
                | Some (e, rs, sh) \<Rightarrow> Some (e, r # rs, sh))))"

definition run_worker ::
    "'m dash \<Rightarrow> worker_context \<Rightarrow> (poll \<times> readings) list \<Rightarrow> 'm shared \<Rightarrow>
       (loop_end \<times> match_attempt_result list \<times> 'm shared) option" where
  "run_worker D ctx polls sh = worker_loop D ctx polls sh worker_state_new"

section \<open>The Reaper\<close>

text \<open>One visit of a scan, with nobody in between: see \<open>reaper_reset\<close> for the accesses it is made of.\<close>

definition reaper_visit :: "u64 \<Rightarrow> u64 \<Rightarrow> heap \<times> u32 \<Rightarrow> addr \<Rightarrow> heap \<times> u32" where
  "reaper_visit now_ms stale_timeout_ms s a =
     (case s of (h, recovered) \<Rightarrow>
        if p_state (h a) \<noteq> CLAIMED then (h, recovered)
        else let claim_ts = p_claim_timestamp (h a)
             in if claim_ts = 0 then (h, recovered)
                else let claim_age_ms = saturating_sub now_ms claim_ts
                     in if claim_age_ms > stale_timeout_ms
                        then (case reaper_reset (h a) of
                                (True, p) \<Rightarrow> (h(a := p), recovered + 1)
                              | (False, _) \<Rightarrow> (h, recovered))
                        else (h, recovered))"

definition reaper_tick :: "'m dash \<Rightarrow> u64 \<Rightarrow> u64 \<Rightarrow> 'm shared \<Rightarrow> 'm shared" where
  "reaper_tick D now_ms stale_timeout_ms sh =
     (let players = all_players D (sh_pool sh);
          (h, recovered) = foldl (reaper_visit now_ms stale_timeout_ms) (sh_heap sh, 0) players;
          m = sh_metrics sh;
          m' = (if recovered > 0
                then m\<lparr>mt_total_stale_claims_recovered := mt_total_stale_claims_recovered m + ucast recovered\<rparr>
                else m)
      in sh\<lparr>sh_heap := h, sh_metrics := m'\<rparr>)"

text \<open>The Reaper's loop runs one scan per tick until shutdown.\<close>

fun run_reaper :: "'m dash \<Rightarrow> u64 \<Rightarrow> (bool \<times> bool \<times> u64) list \<Rightarrow> 'm shared \<Rightarrow> loop_end \<times> 'm shared" where
  "run_reaper D timeout [] sh = (Still_running, sh)"
| "run_reaper D timeout ((shutdown, tick, now_ms) # polls) sh =
     (if shutdown then (Exited, sh)
      else if tick then run_reaper D timeout polls (reaper_tick D now_ms timeout sh)
      else run_reaper D timeout polls sh)"

section \<open>What one scan does\<close>

definition stale :: "u64 \<Rightarrow> u64 \<Rightarrow> player \<Rightarrow> bool" where
  "stale now_ms timeout p \<longleftrightarrow>
     p_state p = CLAIMED \<and> p_claim_timestamp p \<noteq> 0 \<and>
     unat timeout < unat now_ms - unat (p_claim_timestamp p)"

definition recovered_player :: "player \<Rightarrow> player" where
  "recovered_player p = p\<lparr>p_state := WAITING, p_claimed_by := 0, p_claim_timestamp := 0\<rparr>"

lemma reaper_visit_eq:
  "reaper_visit now timeout (h, n) a =
     (if stale now timeout (h a) then (h(a := recovered_player (h a)), n + 1) else (h, n))"
  by (auto simp: reaper_visit_def stale_def Let_def reaper_reset_step recovered_player_def
      word_less_nat_alt unat_saturating_sub)

lemma foldl_reaper_visit:
  "distinct as \<Longrightarrow>
   foldl (reaper_visit now timeout) (h, n) as =
     ((\<lambda>a. if a \<in> set as \<and> stale now timeout (h a) then recovered_player (h a) else h a),
      n + of_nat (length (filter (\<lambda>a. stale now timeout (h a)) as)))"
proof (induction as rule: rev_induct)
  case Nil
  show ?case by simp
next
  case (snoc a as)
  then show ?case by (auto simp: reaper_visit_eq fun_eq_iff)
qed

text \<open>On a consistent pool: the heap after a scan, and how many players it recovered.\<close>

lemma reaper_tick_heap:
  assumes "dashmap D" and "pool_ok D (sh_heap sh) (sh_pool sh)"
  shows "sh_heap (reaper_tick D now timeout sh) a =
    (if a \<in> members D (sh_pool sh) \<and> stale now timeout (sh_heap sh a)
     then recovered_player (sh_heap sh a) else sh_heap sh a)"
  using foldl_reaper_visit [OF iter_values_distinct [OF assms], of now timeout "sh_heap sh" 0]
  by (simp add: reaper_tick_def all_players_def Let_def iter_members [OF assms(1), simplified])

lemma reaper_tick_recovered:
  assumes D: "dashmap D" and ok: "pool_ok D (sh_heap sh) (sh_pool sh)"
    and n: "n = card {a \<in> members D (sh_pool sh). stale now timeout (sh_heap sh a)}" and "n < 2 ^ 32"
  shows "sh_metrics (reaper_tick D now timeout sh) =
    (sh_metrics sh)\<lparr>mt_total_stale_claims_recovered :=
       mt_total_stale_claims_recovered (sh_metrics sh) + of_nat n\<rparr>"
proof -
  let ?as = "map snd (dm_iter D (pl_primary (sh_pool sh)))"
  have distinct: "distinct ?as" by (rule iter_values_distinct [OF D ok])
  have "length (filter (\<lambda>a. stale now timeout (sh_heap sh a)) ?as) =
      card (set (filter (\<lambda>a. stale now timeout (sh_heap sh a)) ?as))"
    by (rule distinct_card [symmetric]) (simp only: distinct_filter distinct)
  also have "set (filter (\<lambda>a. stale now timeout (sh_heap sh a)) ?as) =
      {a \<in> members D (sh_pool sh). stale now timeout (sh_heap sh a)}"
    by (auto simp del: set_map simp: iter_members [OF D])
  finally have len: "length (filter (\<lambda>a. stale now timeout (sh_heap sh a)) ?as) = n"
    by (simp only: n)
  have count: "snd (foldl (reaper_visit now timeout) (sh_heap sh, 0) ?as) = of_nat n"
    by (simp only: foldl_reaper_visit [OF distinct] snd_conv len add_0)
  have "unat (of_nat n :: u32) = n"
    using \<open>n < 2 ^ 32\<close> by (simp add: unat_of_nat take_bit_nat_eq_self)
  then have cast: "(ucast (of_nat n :: u32) :: u64) = of_nat n" by (metis of_nat_unat)
  have "sh_metrics (reaper_tick D now timeout sh) =
      (if (of_nat n :: u32) > 0 then (sh_metrics sh)\<lparr>mt_total_stale_claims_recovered :=
         mt_total_stale_claims_recovered (sh_metrics sh) + ucast (of_nat n :: u32)\<rparr> else sh_metrics sh)"
    by (simp add: reaper_tick_def all_players_def Let_def split_beta count)
  also have "\<dots> = (sh_metrics sh)\<lparr>mt_total_stale_claims_recovered :=
      mt_total_stale_claims_recovered (sh_metrics sh) + of_nat n\<rparr>"
  proof (cases "n = 0")
    case False
    with \<open>unat (of_nat n :: u32) = n\<close> have "(of_nat n :: u32) > 0" by (simp add: word_less_nat_alt)
    then show ?thesis by (simp only: if_True cast)
  qed simp
  finally show ?thesis .
qed

lemma reaper_tick_simps [simp]:
  "sh_pool (reaper_tick D now timeout sh) = sh_pool sh"
  "sh_history (reaper_tick D now timeout sh) = sh_history sh"
  by (simp_all add: reaper_tick_def Let_def split_beta)

lemma reaper_tick_counters [simp]:
  "mt_total_players_matched (sh_metrics (reaper_tick D now timeout sh)) = mt_total_players_matched (sh_metrics sh)"
  "mt_current_queue_size (sh_metrics (reaper_tick D now timeout sh)) = mt_current_queue_size (sh_metrics sh)"
  by (auto simp: reaper_tick_def Let_def split: prod.split)

lemma count_cycle_counters [simp]:
  "mt_total_players_matched (count_cycle m) = mt_total_players_matched m"
  "mt_current_queue_size (count_cycle m) = mt_current_queue_size m"
  by (simp_all add: count_cycle_def)

lemma foldl_reaper_visit_unstamped:
  "p_claim_timestamp (h a) = 0 \<Longrightarrow> fst (foldl (reaper_visit now timeout) (h, n) as) a = h a"
proof (induction as arbitrary: h n)
  case (Cons b as)
  have "b \<noteq> a" if "stale now timeout (h b)" using that Cons.prems by (auto simp: stale_def)
  with Cons show ?case by (auto simp: reaper_visit_eq)
qed simp

lemma reaper_tick_unstamped:
  "p_claim_timestamp (sh_heap sh a) = 0 \<Longrightarrow> sh_heap (reaper_tick D now timeout sh) a = sh_heap sh a"
  using foldl_reaper_visit_unstamped [of "sh_heap sh" a now timeout 0 "all_players D (sh_pool sh)"]
  by (auto simp: reaper_tick_def Let_def split: prod.split)

section \<open>Progress of the loops\<close>

definition wakes :: "(poll \<times> readings) list \<Rightarrow> (poll \<times> readings) list" where
  "wakes polls = filter (\<lambda>(p, _). po_notified p \<or> po_tick p) (takeWhile (\<lambda>(p, _). \<not> po_shutdown p) polls)"

lemma worker_loop_progress:
  assumes "dashmap D" and "pool_ok D (sh_heap sh) (sh_pool sh)"
  shows "\<exists>e rs sh'. worker_loop D ctx polls sh st = Some (e, rs, sh') \<and>
    length rs = length (wakes polls) \<and> (e = Exited \<longleftrightarrow> (\<exists>(p, rd) \<in> set polls. po_shutdown p)) \<and>
    pool_ok D (sh_heap sh') (sh_pool sh')"
  using assms(2)
proof (induction polls arbitrary: sh st)
  case Nil
  then show ?case by (simp add: wakes_def)
next
  case (Cons x polls)
  obtain p rd where x: "x = (p, rd)" by force
  consider (stop) "select_biased p = Some Shutdown" | (sleep) "select_biased p = None"
    | (wake) w where "select_biased p = Some w" "w \<noteq> Shutdown" by force
  then show ?case
  proof cases
    case stop
    then have "po_shutdown p" by (auto simp: select_biased_def split: if_splits)
    with stop Cons.prems show ?thesis by (simp add: x wakes_def)
  next
    case sleep
    then have "\<not> po_shutdown p" "\<not> po_notified p" "\<not> po_tick p"
      by (auto simp: select_biased_def split: if_splits)
    with sleep Cons.IH [OF Cons.prems, of st] show ?thesis by (simp add: x wakes_def)
  next
    case wake
    then have poll: "\<not> po_shutdown p" "po_notified p \<or> po_tick p"
      by (auto simp: select_biased_def split: if_splits)
    obtain r sh1 st1 where step: "attempt_match D ctx rd sh st = Some (r, sh1, st1)"
        "pool_ok D (sh_heap sh1) (sh_pool sh1)"
      by (rule attempt_match_total [OF assms(1) Cons.prems])
    from Cons.IH [OF step(2), of st1] obtain e rs sh2 where
      "worker_loop D ctx polls sh1 st1 = Some (e, rs, sh2)" "length rs = length (wakes polls)"
      "e = Exited \<longleftrightarrow> (\<exists>(p, rd) \<in> set polls. po_shutdown p)" "pool_ok D (sh_heap sh2) (sh_pool sh2)"
      by blast
    with wake poll step show ?thesis
      by (cases w) (auto simp: x wakes_def)
  qed
qed

section \<open>A slow worker and the Reaper\<close>

text \<open>
  The interleaving in which worker 1 stalls between claiming and finishing: the Reaper scans,
  worker 2 makes a whole attempt, and then worker 1 goes on.
\<close>

definition stalled_race ::
    "'m dash \<Rightarrow> worker_context \<Rightarrow> readings \<Rightarrow> worker_state \<Rightarrow> u64 \<Rightarrow> u64 \<Rightarrow>
       worker_context \<Rightarrow> readings \<Rightarrow> worker_state \<Rightarrow> 'm shared \<Rightarrow>
       (match_attempt_result \<times> match_attempt_result \<times> 'm shared) option" where
  "stalled_race D ctx1 rd1 st1 reaper_now timeout ctx2 rd2 st2 sh =
     (case discover D ctx1 rd1 sh st1 of
        Some (Inr (seed, candidates), sh, st1) \<Rightarrow>
          (case claim ctx1 rd1 seed candidates sh st1 of
             (Inr as, sh, st1) \<Rightarrow>
               (case attempt_match D ctx2 rd2 (reaper_tick D reaper_now timeout sh) st2 of
                  Some (r2, sh, st2) \<Rightarrow>
                    (case finish D ctx1 rd1 as sh st1 of
                       Some (r1, sh, st1) \<Rightarrow> Some (r1, r2, sh)
                     | None \<Rightarrow> None)
                | None \<Rightarrow> None)
           | _ \<Rightarrow> None)
      | _ \<Rightarrow> None)"

lemma reaper_undoes_stale_claims:
  assumes D: "dashmap D" and ok: "pool_ok D (sh_heap sh) (sh_pool sh)"
    and quiet: "\<forall>a \<in> members D (sh_pool sh). is_waiting (sh_heap sh a) \<and> player_ok (sh_heap sh a)"
    and as: "set as \<subseteq> members D (sh_pool sh)"
    and old: "t \<noteq> 0" "unat timeout < unat now - unat t"
  shows "sh_heap (reaper_tick D now timeout
    (sh\<lparr>sh_metrics := m, sh_heap := update_on (set as) (\<lambda>_. claimed_by w t) (sh_heap sh)\<rparr>)) = sh_heap sh"
proof
  fix a
  let ?sh = "sh\<lparr>sh_metrics := m, sh_heap := update_on (set as) (\<lambda>_. claimed_by w t) (sh_heap sh)\<rparr>"
  have "pool_ok D (sh_heap ?sh) (sh_pool ?sh)"
    using pool_ok_heap_cong [of D "sh_pool sh" "sh_heap ?sh" "sh_heap sh"] ok by simp
  note heap = reaper_tick_heap [OF D this, of now timeout a]
  show "sh_heap (reaper_tick D now timeout ?sh) a = sh_heap sh a"
  proof (cases "a \<in> set as")
    case True
    with as quiet have "is_waiting (sh_heap sh a)" "player_ok (sh_heap sh a)" "a \<in> members D (sh_pool sh)"
      by auto
    with True old show ?thesis
      by (simp add: heap stale_def recovered_player_def claimed_by_def player_ok_def is_waiting_def)
  next
    case False
    then show ?thesis using quiet by (auto simp: heap stale_def is_waiting_def)
  qed
qed

lemma select_seed_cong:
  assumes "sh_heap sh' = sh_heap sh" and "sh_pool sh' = sh_pool sh"
  shows "select_seed D ctx rd sh' st = select_seed D ctx rd sh st"
  by (simp only: select_seed_def assms)

text \<open>
  Finishing looks at no state word: whoever the ten players are by then, they become a match.
\<close>

lemma finish_effect:
  assumes "distinct as" and "length as = MATCH_SIZE"
    and "\<forall>a \<in> set as. p_skill_rating (sh_heap sh a) \<le> MAX_SKILL_RATING"
  obtains m sh' where "finish D ctx rd as sh st = Some (Success m, sh', reset st)"
    and "match_of (rd_matched_now rd) (sh_heap sh) as m"
    and "\<forall>a. p_id (sh_heap sh' a) = p_id (sh_heap sh a) \<and>
      p_skill_rating (sh_heap sh' a) = p_skill_rating (sh_heap sh a) \<and>
      p_join_timestamp (sh_heap sh' a) = p_join_timestamp (sh_heap sh a)"
    and "mt_total_players_matched (sh_metrics sh') = mt_total_players_matched (sh_metrics sh) + 10"
    and "mt_current_queue_size (sh_metrics sh') = mt_current_queue_size (sh_metrics sh) - 10"
proof (rule finish_success [OF assms, where rd = rd and ctx = ctx and D = D and st = st])
  fix m
  assume m: "match_of (rd_matched_now rd) (sh_heap sh) as m"
    and res: "finish D ctx rd as sh st = Some (Success m,
        sh\<lparr>sh_heap := update_on (set as) (\<lambda>a. mark_matched (rd_matched_now rd a)) (sh_heap sh),
           sh_pool := remove_all D (update_on (set as) (\<lambda>a. mark_matched (rd_matched_now rd a)) (sh_heap sh)) as (sh_pool sh),
           sh_history := push_history (wc_match_history_limit ctx) m (sh_history sh),
           sh_metrics := update_metrics_on_success m
             (map (\<lambda>a. millis_since (rd_matched_now rd a) (p_join_timestamp (sh_heap sh a))) as)
             (m_skill_spread m) (sh_metrics sh)\<rparr>,
        reset st)"
  show ?thesis
    by (rule that [OF res m]) (simp_all add: update_metrics_on_success_def MATCH_SIZE_def)
qed

text \<open>Two sets of ten that both join before the rest of one window are equal.\<close>

lemma first_ten_unique:
  fixes k :: "addr \<Rightarrow> 'k::linorder"
  assumes "A \<subseteq> W" "B \<subseteq> W" "finite W" "card A = card B"
    and "\<forall>a \<in> A. \<forall>b \<in> W - A. k a < k b" and "\<forall>a \<in> B. \<forall>b \<in> W - B. k a < k b"
  shows "A = B"
proof (rule ccontr)
  assume "A \<noteq> B"
  have fin: "finite A" "finite B" using assms(1-3) finite_subset by blast+
  with \<open>A \<noteq> B\<close> assms(4) obtain a b where "a \<in> A - B" "b \<in> B - A"
    by (metis Diff_eq_empty_iff card_subset_eq equals0I)
  with assms(1,2,5,6) have "k a < k b" "k b < k a" by auto
  then show False by simp
qed

lemma stalled_race_outcome:
  assumes D: "dashmap D" and ok: "pool_ok D (sh_heap sh) (sh_pool sh)"
    and quiet: "\<forall>a \<in> members D (sh_pool sh). is_waiting (sh_heap sh a) \<and> player_ok (sh_heap sh a)"
    and oldest: "oldest_waiting D (sh_heap sh) (sh_pool sh) = Some seed"
    and seed1: "select_seed D ctx1 rd1 sh st1 = Some seed" and seed2: "select_seed D ctx2 rd2 sh st2 = Some seed"
    and enough1: "card (in_window D ctx1 rd1 sh seed) \<in> {MATCH_SIZE..MAX_CANDIDATES_PER_SCAN}"
    and enough2: "card (in_window D ctx2 rd2 sh seed) \<in> {MATCH_SIZE..MAX_CANDIDATES_PER_SCAN}"
    and old: "rd_unix_ms rd1 \<noteq> 0" "unat timeout < unat now - unat (rd_unix_ms rd1)"
  obtains as bs m1 m2 sh' where "stalled_race D ctx1 rd1 st1 now timeout ctx2 rd2 st2 sh = Some (Success m1, Success m2, sh')"
    and "match_of (rd_matched_now rd1) (sh_heap sh) as m1" and "match_of (rd_matched_now rd2) (sh_heap sh) bs m2"
    and "distinct as" and "distinct bs" and "seed \<in> set as \<inter> set bs"
    and "in_window D ctx2 rd2 sh seed = in_window D ctx1 rd1 sh seed \<Longrightarrow> set as = set bs"
    and "mt_total_players_matched (sh_metrics sh') = mt_total_players_matched (sh_metrics sh) + 20"
    and "mt_current_queue_size (sh_metrics sh') = mt_current_queue_size (sh_metrics sh) - 20"
proof -
  let ?W1 = "in_window D ctx1 rd1 sh seed" and ?W2 = "in_window D ctx2 rd2 sh seed"
  have valid: "p_skill_rating (sh_heap sh a) \<le> MAX_SKILL_RATING" if "a \<in> members D (sh_pool sh)" for a
    by (rule members_rating [OF ok that])
  obtain cs where scan: "\<And>held. range_scan D (sh_heap sh) held (fst (seed_bounds ctx1 rd1 (sh_heap sh seed)))
        (snd (seed_bounds ctx1 rd1 (sh_heap sh seed))) (sh_pool sh) = Some cs"
    and cs: "distinct cs" "sorted (map (join_key (sh_heap sh)) cs)" "set cs \<subseteq> ?W1"
      "length cs = min MAX_CANDIDATES_PER_SCAN (card ?W1)"
    using scan_in_window [OF D ok valid [OF select_seed_Some(1) [OF D seed1]], of ctx1 rd1] by metis
  have long: "MATCH_SIZE \<le> length cs" using cs(4) enough1 by (simp add: MAX_CANDIDATES_PER_SCAN_def MATCH_SIZE_def)
  let ?as = "take MATCH_SIZE cs"
  have as: "distinct ?as" "length ?as = MATCH_SIZE" "set ?as \<subseteq> ?W1"
    using cs(1,3) long set_take_subset [of MATCH_SIZE cs] by auto
  then have as_members: "set ?as \<subseteq> members D (sh_pool sh)" using in_window_members by blast
  have first: "\<forall>a \<in> set ?as. \<forall>b \<in> ?W1 - set ?as. join_key (sh_heap sh) a < join_key (sh_heap sh) b"
    by (rule take_first [OF D ok cs]) (use enough1 in simp)
  have waiting: "\<forall>a \<in> set cs. is_waiting (sh_heap sh a)" using cs(3) in_window_waiting by blast
  let ?sh1 = "sh\<lparr>sh_metrics := count_cycle (sh_metrics sh),
    sh_heap := update_on (set ?as) (\<lambda>_. claimed_by (wc_worker_id ctx1) (rd_unix_ms rd1)) (sh_heap sh)\<rparr>"
  have discover: "discover D ctx1 rd1 sh st1 = Some (Inr (seed, cs), sh\<lparr>sh_metrics := count_cycle (sh_metrics sh)\<rparr>, st1)"
    using discover_seed [OF seed1 scan] long by simp
  have claim: "claim ctx1 rd1 seed cs (sh\<lparr>sh_metrics := count_cycle (sh_metrics sh)\<rparr>) st1 = (Inr ?as, ?sh1, st1)"
    using claim_waiting [of cs "sh\<lparr>sh_metrics := count_cycle (sh_metrics sh)\<rparr>"] cs(1) waiting long by simp
  let ?sh2 = "reaper_tick D now timeout ?sh1"
  have heap2: "sh_heap ?sh2 = sh_heap sh" by (rule reaper_undoes_stale_claims [OF D ok quiet as_members old])
  have pool2: "sh_pool ?sh2 = sh_pool sh" by simp
  have window2: "in_window D ctx rd ?sh2 seed = in_window D ctx rd sh seed" for ctx rd
    by (simp add: in_window_def heap2)
  obtain bs m2 sh3 where bs: "distinct bs" "length bs = MATCH_SIZE" "set bs \<subseteq> ?W2"
    and m2: "match_of (rd_matched_now rd2) (sh_heap sh) bs m2"
      "attempt_match D ctx2 rd2 ?sh2 st2 = Some (Success m2, sh3, reset st2)"
    and heap3: "\<And>a. sh_heap sh3 a = (if a \<in> set bs then mark_matched (rd_matched_now rd2 a)
         (claimed_by (wc_worker_id ctx2) (rd_unix_ms rd2) (sh_heap sh a)) else sh_heap sh a)"
    and count3: "mt_total_players_matched (sh_metrics sh3) = mt_total_players_matched (sh_metrics sh) + 10"
      "mt_current_queue_size (sh_metrics sh3) = mt_current_queue_size (sh_metrics sh) - 10"
    and first2: "\<forall>a \<in> set bs. \<forall>b \<in> ?W2 - set bs. join_key (sh_heap sh) a < join_key (sh_heap sh) b"
  proof (rule attempt_match_formed [OF D, of ?sh2 ctx2 rd2 st2 seed])
    show "pool_ok D (sh_heap ?sh2) (sh_pool ?sh2)" using ok by (simp add: heap2)
    show "select_seed D ctx2 rd2 ?sh2 st2 = Some seed" using seed2 select_seed_cong [OF heap2 pool2] by simp
    show "MATCH_SIZE \<le> card (in_window D ctx2 rd2 ?sh2 seed)" using enough2 by (simp add: window2)
  next
    fix bs m2 sh3
    assume "distinct bs" "length bs = MATCH_SIZE" "set bs \<subseteq> in_window D ctx2 rd2 ?sh2 seed"
      "match_of (rd_matched_now rd2) (sh_heap ?sh2) bs m2"
      "attempt_match D ctx2 rd2 ?sh2 st2 = Some (Success m2, sh3, reset st2)"
      "\<And>a. sh_heap sh3 a = (if a \<in> set bs then mark_matched (rd_matched_now rd2 a)
         (claimed_by (wc_worker_id ctx2) (rd_unix_ms rd2) (sh_heap ?sh2 a)) else sh_heap ?sh2 a)"
      "card (in_window D ctx2 rd2 ?sh2 seed) \<le> MAX_CANDIDATES_PER_SCAN \<Longrightarrow>
        \<forall>a \<in> set bs. \<forall>b \<in> in_window D ctx2 rd2 ?sh2 seed - set bs. join_key (sh_heap ?sh2) a < join_key (sh_heap ?sh2) b"
    moreover assume "sh_metrics sh3 = update_metrics_on_success m2
      (map (\<lambda>a. millis_since (rd_matched_now rd2 a) (p_join_timestamp (sh_heap ?sh2 a))) bs)
      (m_skill_spread m2) (count_cycle (sh_metrics ?sh2))"
    then have "mt_total_players_matched (sh_metrics sh3) = mt_total_players_matched (sh_metrics sh) + 10"
      "mt_current_queue_size (sh_metrics sh3) = mt_current_queue_size (sh_metrics sh) - 10"
      by (simp_all add: update_metrics_on_success_def MATCH_SIZE_def)
    ultimately show thesis using that [of bs m2 sh3] enough2 unfolding heap2 window2 by simp
  qed
  have fields: "p_id (sh_heap sh3 a) = p_id (sh_heap sh a) \<and> p_skill_rating (sh_heap sh3 a) = p_skill_rating (sh_heap sh a) \<and>
      p_join_timestamp (sh_heap sh3 a) = p_join_timestamp (sh_heap sh a)" for a by (simp add: heap3)
  then have valid3: "\<forall>a \<in> set ?as. p_skill_rating (sh_heap sh3 a) \<le> MAX_SKILL_RATING"
    using as_members valid by auto
  obtain m1 sh4 where m1: "finish D ctx1 rd1 ?as sh3 st1 = Some (Success m1, sh4, reset st1)"
      "match_of (rd_matched_now rd1) (sh_heap sh3) ?as m1"
    and count4: "mt_total_players_matched (sh_metrics sh4) = mt_total_players_matched (sh_metrics sh3) + 10"
      "mt_current_queue_size (sh_metrics sh4) = mt_current_queue_size (sh_metrics sh3) - 10"
    by (rule finish_effect [OF as(1,2) valid3, where rd = rd1 and ctx = ctx1 and D = D and st = st1])
  have "match_of (rd_matched_now rd1) (sh_heap sh3) ?as m1 = match_of (rd_matched_now rd1) (sh_heap sh) ?as m1"
    by (rule match_of_cong) (simp add: fields)
  with m1(2) have m1': "match_of (rd_matched_now rd1) (sh_heap sh) ?as m1" by simp
  have "stalled_race D ctx1 rd1 st1 now timeout ctx2 rd2 st2 sh = Some (Success m1, Success m2, sh4)"
    by (simp add: stalled_race_def discover claim m2(2) m1(1))
  moreover have "seed \<in> set ?as \<inter> set bs"
  proof
    show "seed \<in> set ?as" by (rule oldest_is_first [OF D oldest seed_in_window [OF D ok seed1] as(3) _ first])
        (use as(2) in \<open>auto simp: MATCH_SIZE_def\<close>)
    show "seed \<in> set bs" by (rule oldest_is_first [OF D oldest seed_in_window [OF D ok seed2] bs(3) _ first2])
        (use bs(2) in \<open>auto simp: MATCH_SIZE_def\<close>)
  qed
  moreover have "set ?as = set bs" if "?W2 = ?W1"
  proof (rule first_ten_unique [where W = ?W1])
    show "card (set ?as) = card (set bs)" using as(1,2) bs(1,2) by (simp add: distinct_card)
    show "\<forall>a \<in> set bs. \<forall>b \<in> ?W1 - set bs. join_key (sh_heap sh) a < join_key (sh_heap sh) b" using first2 that by simp
  qed (use as(3) bs(3) that first finite_in_window [OF D] in simp_all)
  ultimately show ?thesis using that m1' m2(1) as(1) bs(1) count3 count4 by simp
qed

section \<open>Properties\<close>

text \<open>
  C32: one Reaper scan returns to the queue exactly the pool members that are claimed, carry a
  nonzero claim time and were claimed longer than the timeout ago, clears their claim fields,
  counts them, and changes nothing else: fresh claims, other states, the pool and the history
  are untouched.
\<close>

theorem reaper_recovers_exactly_stale_claims:
  assumes "dashmap D" and "pool_ok D (sh_heap sh) (sh_pool sh)" and "card (members D (sh_pool sh)) < 2 ^ 32"
  shows "let sh' = reaper_tick D now timeout sh;
      S = {a \<in> members D (sh_pool sh). stale now timeout (sh_heap sh a)}
    in (\<forall>a. sh_heap sh' a = (if a \<in> S then (sh_heap sh a)\<lparr>p_state := WAITING, p_claimed_by := 0, p_claim_timestamp := 0\<rparr>
                             else sh_heap sh a)) \<and>
       sh_pool sh' = sh_pool sh \<and> sh_history sh' = sh_history sh \<and>
       sh_metrics sh' = (sh_metrics sh)\<lparr>mt_total_stale_claims_recovered :=
         mt_total_stale_claims_recovered (sh_metrics sh) + of_nat (card S)\<rparr>"
proof -
  have "card {a \<in> members D (sh_pool sh). stale now timeout (sh_heap sh a)} \<le> card (members D (sh_pool sh))"
    by (rule card_mono) (use finite_members [OF assms(1)] in auto)
  with assms(3) have "card {a \<in> members D (sh_pool sh). stale now timeout (sh_heap sh a)} < 2 ^ 32" by simp
  from reaper_tick_recovered [OF assms(1,2) refl this] show ?thesis
    by (simp add: Let_def reaper_tick_heap [OF assms(1,2)] recovered_player_def)
qed

definition claimed_demo :: "((uuid \<times> addr) list) shared" where
  "claimed_demo = (demo_shared 3)\<lparr>sh_heap := demo_heap(1 := claimed_by 4 1000 (demo_heap 1))\<rparr>"

theorem reaper_recovers_exactly_stale_claims_witness:
  "p_state (sh_heap (reaper_tick dash_alist 1501 500 claimed_demo) 1) = WAITING \<and>
   p_state (sh_heap (reaper_tick dash_alist 1500 500 claimed_demo) 1) = CLAIMED"
proof -
  have pool: "pool_ok dash_alist (sh_heap claimed_demo) (sh_pool claimed_demo)"
    using pool_ok_heap_cong [of dash_alist "sh_pool (demo_shared 3)" "sh_heap claimed_demo" "sh_heap (demo_shared 3)"]
      demo_pool(1) [of 3]
    by (simp add: claimed_demo_def) (simp add: demo_shared_def)
  have mem: "members dash_alist (sh_pool claimed_demo) = {..<3}"
    using demo_pool(2) [of 3] by (simp add: claimed_demo_def)
  have one: "sh_heap claimed_demo 1 = claimed_by 4 1000 (demo_heap 1)" by (simp add: claimed_demo_def)
  show ?thesis
    using reaper_recovers_exactly_stale_claims [OF dashmap_dash_alist pool, of 1501 500]
      reaper_recovers_exactly_stale_claims [OF dashmap_dash_alist pool, of 1500 500]
    by (simp add: Let_def mem one [unfolded One_nat_def] stale_def claimed_by_def)
qed

text \<open>
  a claim whose timestamp was never written (the worker stopped between its
  compare-and-swap and the store) is skipped by every scan, now and later: the player stays
  claimed forever, although the comment in the code expects the next tick to catch him.
\<close>

theorem unstamped_claim_never_recovered:
  assumes "p_state (sh_heap sh a) = CLAIMED" and "p_claim_timestamp (sh_heap sh a) = 0"
  shows "p_state (sh_heap (snd (run_reaper D timeout polls sh)) a) = CLAIMED"
proof -
  have "sh_heap (snd (run_reaper D timeout polls sh)) a = sh_heap sh a"
    using assms(2)
    by (induction D timeout polls sh rule: run_reaper.induct) (simp_all add: reaper_tick_unstamped)
  with assms(1) show ?thesis by simp
qed

theorem unstamped_claim_never_recovered_witness:
  "p_state (sh_heap (snd (run_reaper dash_alist 500 [(False, True, 2000), (False, True, 900000)]
     (claimed_demo\<lparr>sh_heap := (sh_heap claimed_demo)(1 := claimed_by 4 0 (demo_heap 1))\<rparr>))) 1) = CLAIMED"
  by (rule unstamped_claim_never_recovered) (simp_all add: claimed_by_def)

text \<open>
  the task set has one worker per configured worker, numbered 1, 2, ..., and one Reaper;
  the identifier 0 is never given to a worker, and no two workers share one.
\<close>

definition worker_ids :: "task list \<Rightarrow> u64 list" where
  "worker_ids tasks = concat (map (\<lambda>t. case t of Worker_task i _ _ \<Rightarrow> [i] | Reaper_task _ \<Rightarrow> []) tasks)"

theorem spawned_worker_ids:
  assumes "config_ok (co_config core)"
  shows "length (spawn_all core) = Suc (worker_count (co_config core)) \<and>
    map unat (worker_ids (spawn_all core)) = [1..<Suc (worker_count (co_config core))] \<and>
    distinct (worker_ids (spawn_all core)) \<and> 0 \<notin> set (worker_ids (spawn_all core)) \<and>
    (\<forall>i ctx tick. Worker_task i ctx tick \<in> set (spawn_all core) \<longrightarrow> wc_worker_id ctx = i)"
proof -
  have count: "worker_count (co_config core) \<le> 64" using assms by (simp add: config_ok_def)
  have ids: "worker_ids (spawn_all core) = map of_nat [1..<Suc (worker_count (co_config core))]"
    by (simp add: worker_ids_def spawn_all_def comp_def del: upt_Suc)
  have unat: "map unat (worker_ids (spawn_all core)) = [1..<Suc (worker_count (co_config core))]"
    unfolding ids map_map comp_def
    by (rule map_idI) (use count in \<open>auto simp: unat_of_nat take_bit_nat_eq_self\<close>)
  then have "distinct (map unat (worker_ids (spawn_all core)))" by (simp only: distinct_upt)
  then have "distinct (worker_ids (spawn_all core))" by (simp only: distinct_map)
  moreover have "0 \<notin> set (worker_ids (spawn_all core))"
  proof
    assume "0 \<in> set (worker_ids (spawn_all core))"
    then have "unat (0 :: u64) \<in> set (map unat (worker_ids (spawn_all core)))" unfolding set_map by (rule imageI)
    then show False unfolding unat set_upt by simp
  qed
  ultimately show ?thesis
    using unat by (auto simp: make_worker_context_def spawn_all_def simp del: upt_Suc)
qed

theorem spawned_worker_ids_witness:
  "worker_ids (spawn_all (demo_core 0)) = map of_nat [1..<Suc (worker_count default_config)]"
proof -
  have "co_config (demo_core 0) = default_config" by (simp add: core_new_def)
  with spawned_worker_ids [of "demo_core 0"]
  have "map unat (worker_ids (spawn_all (demo_core 0))) = [1..<Suc (worker_count default_config)]" by simp
  then have "map of_nat (map unat (worker_ids (spawn_all (demo_core 0)))) =
      (map of_nat [1..<Suc (worker_count default_config)] :: u64 list)" by (rule arg_cong)
  then show ?thesis by (simp add: comp_def del: upt_Suc)
qed

text \<open>
  C34: the event loop of a worker never panics; it makes exactly one match attempt per wake-up
  before the first shutdown signal, lets shutdown win when several sources are ready, exits
  when it sees one and otherwise keeps running.
\<close>

theorem worker_attempts_once_per_wake:
  assumes "dashmap D" and "pool_ok D (sh_heap sh) (sh_pool sh)"
  shows "\<exists>e rs sh'. run_worker D ctx polls sh = Some (e, rs, sh') \<and>
    length rs = length (filter (\<lambda>(p, _). po_notified p \<or> po_tick p)
                          (takeWhile (\<lambda>(p, _). \<not> po_shutdown p) polls)) \<and>
    (e = Exited \<longleftrightarrow> (\<exists>(p, rd) \<in> set polls. po_shutdown p)) \<and>
    pool_ok D (sh_heap sh') (sh_pool sh')"
  using worker_loop_progress [OF assms] by (simp add: run_worker_def wakes_def)

theorem worker_attempts_once_per_wake_witness:
  "\<exists>r sh'. run_worker dash_alist demo_ctx
     [(\<lparr>po_shutdown = False, po_notified = True, po_tick = True\<rparr>, demo_readings),
      (\<lparr>po_shutdown = True, po_notified = True, po_tick = False\<rparr>, demo_readings)] (demo_shared 10) =
     Some (Exited, [r], sh')"
proof -
  have "pool_ok dash_alist (sh_heap (demo_shared 10)) (sh_pool (demo_shared 10))" by (rule demo_pool) simp
  from worker_attempts_once_per_wake [OF dashmap_dash_alist this, of demo_ctx
      "[(\<lparr>po_shutdown = False, po_notified = True, po_tick = True\<rparr>, demo_readings),
        (\<lparr>po_shutdown = True, po_notified = True, po_tick = False\<rparr>, demo_readings)]"]
  show ?thesis by (auto simp: length_Suc_conv)
qed

text \<open>
  C15: a worker that stalls longer than the claim timeout between claiming and finishing makes a
  player appear in two matches.  All queued players wait; the worker claims ten of them, the longest
  waiting player among them, and stalls.  The Reaper puts the ten back.  Another worker, which reads
  its own clocks and has its own state, makes an attempt with the longest waiting player as its seed
  and a window with at least ten (and not more players than a scan returns), and matches him; the
  first worker then finishes regardless, because \<open>mark_matched\<close> ignores the failure of its
  compare-and-swap.  Both report success and both matches have him; if the two windows hold the
  same players, all ten are in both.  Twenty are counted as matched and the gauge falls by twenty.
\<close>

theorem stalled_worker_double_matches:
  assumes "dashmap D" and "pool_ok D (sh_heap sh) (sh_pool sh)"
    and "\<forall>a \<in> members D (sh_pool sh). is_waiting (sh_heap sh a) \<and> player_ok (sh_heap sh a)"
    and "oldest_waiting D (sh_heap sh) (sh_pool sh) = Some seed"
    and "select_seed D ctx1 rd1 sh st1 = Some seed" and "select_seed D ctx2 rd2 sh st2 = Some seed"
    and "card (in_window D ctx1 rd1 sh seed) \<in> {10..200}" and "card (in_window D ctx2 rd2 sh seed) \<in> {10..200}"
    and "rd_unix_ms rd1 \<noteq> 0" and "unat timeout < unat now - unat (rd_unix_ms rd1)"
  shows "\<exists>m1 m2 sh'. stalled_race D ctx1 rd1 st1 now timeout ctx2 rd2 st2 sh = Some (Success m1, Success m2, sh') \<and>
    p_id (sh_heap sh seed) \<in> ps_id ` set (match_players m1) \<inter> ps_id ` set (match_players m2) \<and>
    (in_window D ctx2 rd2 sh seed = in_window D ctx1 rd1 sh seed \<longrightarrow>
       image_mset ps_id (mset (match_players m1)) = image_mset ps_id (mset (match_players m2))) \<and>
    mt_total_players_matched (sh_metrics sh') = mt_total_players_matched (sh_metrics sh) + 20 \<and>
    mt_current_queue_size (sh_metrics sh') = mt_current_queue_size (sh_metrics sh) - 20"
proof (rule stalled_race_outcome [OF assms(1-6) _ _ assms(9,10)])
  fix as bs m1 m2 sh'
  assume "stalled_race D ctx1 rd1 st1 now timeout ctx2 rd2 st2 sh = Some (Success m1, Success m2, sh')"
    and m: "match_of (rd_matched_now rd1) (sh_heap sh) as m1" "match_of (rd_matched_now rd2) (sh_heap sh) bs m2"
    and as: "distinct as" "distinct bs" "seed \<in> set as \<inter> set bs"
      "in_window D ctx2 rd2 sh seed = in_window D ctx1 rd1 sh seed \<Longrightarrow> set as = set bs"
    and "mt_total_players_matched (sh_metrics sh') = mt_total_players_matched (sh_metrics sh) + 20"
      "mt_current_queue_size (sh_metrics sh') = mt_current_queue_size (sh_metrics sh) - 20"
  moreover note ids = match_of_players(3) [OF m(1)] match_of_players(3) [OF m(2)]
  from arg_cong [OF ids(1), of set_mset] arg_cong [OF ids(2), of set_mset] as(3)
  have "p_id (sh_heap sh seed) \<in> ps_id ` set (match_players m1) \<inter> ps_id ` set (match_players m2)" by auto
  moreover have "image_mset ps_id (mset (match_players m1)) = image_mset ps_id (mset (match_players m2))"
    if "in_window D ctx2 rd2 sh seed = in_window D ctx1 rd1 sh seed"
    unfolding ids using as(4) [OF that] as(1,2) by (simp add: set_eq_iff_mset_eq_distinct)
  ultimately show ?thesis by blast
qed (use assms(7,8) in \<open>simp_all add: MATCH_SIZE_def MAX_CANDIDATES_PER_SCAN_def\<close>)

text \<open>Worker 2 comes a minute later, when its window is wider, and has failed before.\<close>

theorem stalled_worker_double_matches_witness:
  "\<exists>m1 m2 sh'. stalled_race dash_alist demo_ctx demo_readings worker_state_new 1501 500
       (demo_ctx\<lparr>wc_worker_id := 2\<rparr>) (demo_readings\<lparr>rd_scan_now := 60000000000, rd_guard_now := 60000000000\<rparr>)
       \<lparr>ws_consecutive_failures = 2, ws_current_seed_id = Some 0\<rparr> (demo_shared 10) =
       Some (Success m1, Success m2, sh') \<and>
     image_mset ps_id (mset (match_players m1)) = image_mset ps_id (mset (match_players m2)) \<and>
     sint (mt_current_queue_size (sh_metrics sh')) = - 10"
proof -
  let ?ctx = "demo_ctx\<lparr>wc_worker_id := 2\<rparr>" and ?st = "\<lparr>ws_consecutive_failures = 2, ws_current_seed_id = Some 0\<rparr>"
    and ?rd = "demo_readings\<lparr>rd_scan_now := 60000000000, rd_guard_now := 60000000000\<rparr>"
  have pool: "pool_ok dash_alist (sh_heap (demo_shared 10)) (sh_pool (demo_shared 10))"
    by (rule demo_pool) simp
  have quiet: "\<forall>a \<in> members dash_alist (sh_pool (demo_shared 10)).
      is_waiting (sh_heap (demo_shared 10) a) \<and> player_ok (sh_heap (demo_shared 10) a)"
    by (simp add: demo_shared_def demo_heap_def) (simp add: numbered_def player_ok_new)
  have seed: "select_seed dash_alist demo_ctx demo_readings (demo_shared 10) worker_state_new = Some 0"
    by (rule demo_seed) simp_all
  then have oldest: "oldest_waiting dash_alist (sh_heap (demo_shared 10)) (sh_pool (demo_shared 10)) = Some 0"
    by (auto simp: select_seed_def worker_state_new_def split: option.splits)
  then have seed2: "select_seed dash_alist ?ctx ?rd (demo_shared 10) ?st = Some 0"
    by (simp add: select_seed_def SEED_RETRY_LIMIT_def Let_def)
  have window: "in_window dash_alist demo_ctx demo_readings (demo_shared 10) 0 = {..<10}" by (simp add: demo_window)
  have window2: "in_window dash_alist ?ctx ?rd (demo_shared 10) 0 = {..<10}"
    using demo_pool(2) [of 10] scan_bounds_contain [of 1500]
    by (auto simp: in_window_def eligible_def seed_bounds_def demo_shared_def demo_heap_def MAX_SKILL_RATING_def)
  have late: "rd_unix_ms demo_readings \<noteq> 0" "unat (500 :: u64) < unat (1501 :: u64) - unat (rd_unix_ms demo_readings)"
    by (simp_all add: demo_readings_def)
  have "card (in_window dash_alist demo_ctx demo_readings (demo_shared 10) 0) \<in> {10..200}"
    "card (in_window dash_alist ?ctx ?rd (demo_shared 10) 0) \<in> {10..200}"
    unfolding window window2 by simp_all
  from stalled_worker_double_matches [OF dashmap_dash_alist pool quiet oldest seed seed2 this late]
  obtain m1 m2 sh' where "stalled_race dash_alist demo_ctx demo_readings worker_state_new 1501 500 ?ctx ?rd ?st (demo_shared 10) =
      Some (Success m1, Success m2, sh')"
    "image_mset ps_id (mset (match_players m1)) = image_mset ps_id (mset (match_players m2))"
    "mt_current_queue_size (sh_metrics sh') = mt_current_queue_size (sh_metrics (demo_shared 10)) - 20"
    unfolding window window2 by blast
  moreover have "mt_current_queue_size (sh_metrics (demo_shared 10)) - 20 = - 10" by (simp add: demo_shared_def)
  ultimately show ?thesis by auto
qed

end
