(* ===== verification/Api.thy ===== *)
theory Api
  imports Workers
begin

text \<open>
  Model of src/src/api/mod.rs: the five handlers with their status codes and bodies, and of the
  arithmetic helpers of src/src/utils/mod.rs.  Routing, extraction and JSON encoding belong to
  axum and serde: a request reaches the model as its typed content, a response leaves it as a
  status code and a typed body.  \<open>show_uuid\<close> is the \<open>Display\<close> of the third-party \<open>Uuid\<close>.
\<close>

section \<open>Helpers of utils\<close>

definition now_unix_ms :: "int \<Rightarrow> u64" where
  "now_unix_ms system_now = of_nat ((case duration_since_epoch system_now of None \<Rightarrow> 0 | Some ns \<Rightarrow> ns) div 1000000)"

definition now_unix_secs :: "int \<Rightarrow> u64" where
  "now_unix_secs system_now = of_nat ((case duration_since_epoch system_now of None \<Rightarrow> 0 | Some ns \<Rightarrow> ns) div 1000000000)"

definition clamp_rating :: "u32 \<Rightarrow> u32 \<Rightarrow> u32" where
  "clamp_rating rating mx = min rating mx"

definition average_u64 :: "u64 list \<Rightarrow> u64" where
  "average_u64 values = (if values = [] then 0 else sum_list values div of_nat (length values))"

text \<open>Both modules read the clock alike, and the second is the whole part of the millisecond.\<close>

lemma now_unix_ms_agrees: "now_unix_ms system_now = unix_ms system_now"
  by (simp add: now_unix_ms_def unix_ms_def)

lemma now_unix_secs_of_ms:
  assumes "system_now < 2 ^ 64 * 1000000"
  shows "now_unix_secs system_now = unix_ms system_now div 1000"
proof (rule word_unat_eq_iff [THEN iffD2])
  have "unat (now_unix_secs system_now) = nat system_now div 1000000000"
    using assms
    by (auto simp: now_unix_secs_def duration_since_epoch_def unat_of_nat nat_less_iff intro!: mod_less less_mult_imp_div_less)
  also have "\<dots> = unat (unix_ms system_now) div unat (1000 :: u64)"
    by (simp add: unat_unix_ms [OF assms] flip: div_mult2_eq)
  finally show "unat (now_unix_secs system_now) = unat (unix_ms system_now div 1000)"
    by (simp add: unat_div)
qed

section \<open>Errors and responses\<close>

datatype app_error =
    BadRequest string
  | Conflict string
  | Not_found string
  | UnprocessableEntity string

datatype body =
    Enqueue_body enqueue_response
  | Cancel_body uuid string
  | Health_body health_response
  | Metrics_body metrics_snapshot
  | Matches_body matches_response
  | Error_body error_response

record response =
  rs_status :: nat
  rs_body :: body

fun into_response :: "app_error \<Rightarrow> response" where
  "into_response (BadRequest msg) =
     \<lparr>rs_status = 400, rs_body = Error_body (error_response_new msg ''BAD_REQUEST'')\<rparr>"
| "into_response (Conflict msg) =
     \<lparr>rs_status = 409, rs_body = Error_body (error_response_new msg ''CONFLICT'')\<rparr>"
| "into_response (Not_found msg) =
     \<lparr>rs_status = 404, rs_body = Error_body (error_response_new msg ''NOT_FOUND'')\<rparr>"
| "into_response (UnprocessableEntity msg) =
     \<lparr>rs_status = 422, rs_body = Error_body (error_response_new msg ''VALIDATION_ERROR'')\<rparr>"

section \<open>Handlers\<close>

definition enqueue_handler ::
    "'m dash \<Rightarrow> (uuid \<Rightarrow> string) \<Rightarrow> instant \<Rightarrow> enqueue_request \<Rightarrow> 'm core \<Rightarrow>
       (app_error + enqueue_response) \<times> 'm core" where
  "enqueue_handler D show_uuid now rq core =
     (if eq_skill_rating rq > MAX_SKILL_RATING
      then (Inl (UnprocessableEntity (''skill_rating must be between 0 and '' @ show_word MAX_SKILL_RATING)), core)
      else case enqueue D now (eq_id rq) (eq_skill_rating rq) core of
          (Inr queue_depth, core') \<Rightarrow>
            (Inr \<lparr>er_player_id = eq_id rq, er_status = ''queued'', er_queue_depth = queue_depth\<rparr>, core')
        | (Inl (AlreadyQueued i), core') \<Rightarrow>
            (Inl (Conflict (''Player '' @ show_uuid i @ '' is already queued'')), core')
        | (Inl (InvalidSkillRating r mx), core') \<Rightarrow>
            (Inl (UnprocessableEntity (''skill_rating '' @ show_word r @ '' exceeds maximum '' @ show_word mx)), core'))"

definition cancel_handler ::
    "'m dash \<Rightarrow> (uuid \<Rightarrow> string) \<Rightarrow> uuid \<Rightarrow> 'm core \<Rightarrow> (app_error + uuid \<times> string) \<times> 'm core" where
  "cancel_handler D show_uuid player_id core =
     (case cancel D player_id core of
        (Inr _, core') \<Rightarrow> (Inr (player_id, ''cancelled''), core')
      | (Inl (NotFound i), core') \<Rightarrow>
          (Inl (Not_found (''Player '' @ show_uuid i @ '' not found'')), core')
      | (Inl (CurrentlyBeingMatched i), core') \<Rightarrow>
          (Inl (Conflict (''Player '' @ show_uuid i @ '' is currently being matched '' @
             [CHR 0xE2, CHR 0x80, CHR 0x94] @ '' retry shortly'')), core'))"

definition health_handler :: "instant \<Rightarrow> 'm core \<Rightarrow> health_response" where
  "health_handler now core =
     \<lparr>hr_status = ''ok'', hr_players_waiting = players_waiting core, hr_uptime_secs = uptime_secs now core\<rparr>"

definition metrics_handler :: "'m core \<Rightarrow> metrics_snapshot" where
  "metrics_handler core = core_metrics_snapshot core"

definition default_limit :: usize where "default_limit = 20"

definition matches_handler :: "usize \<Rightarrow> 'm core \<Rightarrow> matches_response" where
  "matches_handler param_limit core =
     (let limit = max param_limit 1;
          matches = recent_matches limit core;
          total = total_matches_formed core
      in \<lparr>mr_matches = matches, mr_total_matches_formed = total\<rparr>)"

text \<open>The routes, with the default of the query parameter.\<close>

datatype request =
    Post_enqueue enqueue_request
  | Delete_enqueue uuid
  | Get_health
  | Get_metrics
  | Get_matches "usize option"

fun dispatch ::
    "'m dash \<Rightarrow> (uuid \<Rightarrow> string) \<Rightarrow> instant \<Rightarrow> request \<Rightarrow> 'm core \<Rightarrow> response \<times> 'm core" where
  "dispatch D show_uuid now (Post_enqueue rq) core =
     (case enqueue_handler D show_uuid now rq core of
        (Inr r, core') \<Rightarrow> (\<lparr>rs_status = 200, rs_body = Enqueue_body r\<rparr>, core')
      | (Inl e, core') \<Rightarrow> (into_response e, core'))"
| "dispatch D show_uuid now (Delete_enqueue i) core =
     (case cancel_handler D show_uuid i core of
        (Inr (j, status), core') \<Rightarrow> (\<lparr>rs_status = 200, rs_body = Cancel_body j status\<rparr>, core')
      | (Inl e, core') \<Rightarrow> (into_response e, core'))"
| "dispatch D show_uuid now Get_health core =
     (\<lparr>rs_status = 200, rs_body = Health_body (health_handler now core)\<rparr>, core)"
| "dispatch D show_uuid now Get_metrics core =
     (\<lparr>rs_status = 200, rs_body = Metrics_body (metrics_handler core)\<rparr>, core)"
| "dispatch D show_uuid now (Get_matches limit) core =
     (\<lparr>rs_status = 200, rs_body = Matches_body
        (matches_handler (case limit of Some l \<Rightarrow> l | None \<Rightarrow> default_limit) core)\<rparr>, core)"

section \<open>Properties\<close>

text \<open>
  C37: the answers to an enqueue request that no other operation overlaps, on a core as it is between
  whole operations.  A rating above 3000 is answered with 422, the code VALIDATION_ERROR and the valid
  range; otherwise an identifier that is queued is answered with 409, the code CONFLICT and a message
  that names the player; both leave the service unchanged.  Otherwise the answer is 200 with the
  identifier, the word queued and the queue depth after the insertion, and the new player is filed
  under his identifier.  The message of the engine's own range check never reaches a client.
\<close>

theorem enqueue_request_status:
  assumes "dashmap D" and "core_ok D core"
  shows "case dispatch D show_uuid now (Post_enqueue rq) core of (resp, core') \<Rightarrow>
    core_ok D core' \<and>
    (if 3000 < unat (eq_skill_rating rq)
     then resp = \<lparr>rs_status = 422, rs_body = Error_body
         \<lparr>err_error = ''skill_rating must be between 0 and 3000'', err_code = ''VALIDATION_ERROR''\<rparr>\<rparr> \<and> core' = core
     else if pool_contains D (eq_id rq) (sh_pool (co_shared core))
     then resp = \<lparr>rs_status = 409, rs_body = Error_body
         \<lparr>err_error = ''Player '' @ show_uuid (eq_id rq) @ '' is already queued'', err_code = ''CONFLICT''\<rparr>\<rparr> \<and> core' = core
     else resp = \<lparr>rs_status = 200, rs_body = Enqueue_body
         \<lparr>er_player_id = eq_id rq, er_status = ''queued'',
          er_queue_depth = Suc (pool_len D (sh_pool (co_shared core)))\<rparr>\<rparr> \<and>
       pool_len D (sh_pool (co_shared core')) = Suc (pool_len D (sh_pool (co_shared core))) \<and>
       pool_map D (sh_pool (co_shared core')) = (pool_map D (sh_pool (co_shared core)))(eq_id rq \<mapsto> co_next core) \<and>
       sh_heap (co_shared core') (co_next core) = player_new now (eq_id rq) (eq_skill_rating rq))"
proof -
  have high: "3000 < unat (eq_skill_rating rq) \<longleftrightarrow> MAX_SKILL_RATING < eq_skill_rating rq"
    by (simp add: word_less_nat_alt MAX_SKILL_RATING_def)
  have shown: "show_word MAX_SKILL_RATING = ''3000''" by code_simp
  consider (high) "MAX_SKILL_RATING < eq_skill_rating rq"
    | (dup) "eq_skill_rating rq \<le> MAX_SKILL_RATING" "pool_contains D (eq_id rq) (sh_pool (co_shared core))"
    | (fresh) "eq_skill_rating rq \<le> MAX_SKILL_RATING" "\<not> pool_contains D (eq_id rq) (sh_pool (co_shared core))"
    by force
  then show ?thesis
  proof cases
    case high
    with assms(2) show ?thesis
      by (simp add: \<open>3000 < unat (eq_skill_rating rq) \<longleftrightarrow> MAX_SKILL_RATING < eq_skill_rating rq\<close>
          enqueue_handler_def error_response_new_def shown)
  next
    case dup
    with assms(2) show ?thesis
      by (simp add: high enqueue_handler_def enqueue_def error_response_new_def not_less [symmetric])
  next
    case fresh
    have "core_ok D (snd (enqueue D now (eq_id rq) (eq_skill_rating rq) core))"
      by (rule core_ok_enqueue [OF assms])
    then show ?thesis
      by - (rule enqueue_accepts [OF assms fresh, of now], use fresh in
          \<open>simp add: high enqueue_handler_def not_less [symmetric]\<close>)
  qed
qed

definition demo_request :: "uuid \<Rightarrow> u32 \<Rightarrow> request" where
  "demo_request i r = Post_enqueue \<lparr>eq_id = i, eq_skill_rating = r\<rparr>"

lemma demo_core_contains: "pool_contains dash_alist i (sh_pool (co_shared (demo_core 3))) \<longleftrightarrow> unat i < 3"
  using demo_core_map [of 3 i] by (simp add: pool_contains_def flip: pool_map_def)

theorem enqueue_request_status_witness:
  "rs_status (fst (dispatch dash_alist (\<lambda>_. ''id'') 9 (demo_request 5 3001) (demo_core 3))) = 422 \<and>
   fst (dispatch dash_alist (\<lambda>_. ''id'') 9 (demo_request 1 1500) (demo_core 3)) =
     \<lparr>rs_status = 409, rs_body = Error_body \<lparr>err_error = ''Player id is already queued'', err_code = ''CONFLICT''\<rparr>\<rparr> \<and>
   rs_status (fst (dispatch dash_alist (\<lambda>_. ''id'') 9 (demo_request 5 1500) (demo_core 3))) = 200"
proof -
  note status = enqueue_request_status [OF dashmap_dash_alist demo_core_ok [of 3],
      where show_uuid = "\<lambda>_. ''id''" and now = 9]
  show ?thesis
    using status [of "\<lparr>eq_id = 5, eq_skill_rating = 3001\<rparr>"] status [of "\<lparr>eq_id = 1, eq_skill_rating = 1500\<rparr>"]
      status [of "\<lparr>eq_id = 5, eq_skill_rating = 1500\<rparr>"]
    by (auto simp del: dispatch.simps demo_core.simps simp: demo_request_def demo_core_contains split: prod.splits)
qed

text \<open>
  C38: the answers to a cancel request: 404 exactly for an identifier that is not queued, 409
  exactly when the player is there but no longer waiting (claimed, but also already matched or
  evicted), 200 when he waits; only the last changes the service.
\<close>

theorem cancel_request_status:
  "case dispatch D show_uuid now (Delete_enqueue i) core of (resp, core') \<Rightarrow>
     (case pool_get D i (sh_pool (co_shared core)) of
        None \<Rightarrow> rs_status resp = 404 \<and> core' = core
      | Some a \<Rightarrow>
          if p_state (sh_heap (co_shared core) a) = WAITING
          then rs_status resp = 200 \<and> rs_body resp = Cancel_body i ''cancelled'' \<and>
            p_state (sh_heap (co_shared core') a) = EVICTED \<and>
            sh_pool (co_shared core') = snd (pool_remove D (sh_heap (co_shared core')) i (sh_pool (co_shared core)))
          else rs_status resp = 409 \<and> core' = core)"
proof (cases "pool_get D i (sh_pool (co_shared core))")
  case None
  then show ?thesis by (simp add: cancel_handler_def cancel_def Let_def)
next
  case (Some a)
  show ?thesis
  proof (cases "p_state (sh_heap (co_shared core) a) = WAITING")
    case True
    with Some show ?thesis by (simp add: cancel_handler_def cancel_def Let_def try_evict_step)
  next
    case False
    with Some show ?thesis by (simp add: cancel_handler_def cancel_def Let_def try_evict_step)
  qed
qed

text \<open>
  what the read endpoints report in any reachable state: the health probe gives the true
  number of queued players, the match list is never longer than the limit asked for (at least
  one), and the read endpoints never change the service.
\<close>

theorem reads_report_true_state:
  assumes "dashmap D" and "reach (engine_init D) (engine_step D) core"
    and "pool_len D (sh_pool (co_shared core)) < 2 ^ 63"
  shows "sint (hr_players_waiting (health_handler now core)) = int (pool_len D (sh_pool (co_shared core))) \<and>
    length (mr_matches (matches_handler limit core)) =
      min (max limit 1) (length (sh_history (co_shared core))) \<and>
    mr_total_matches_formed (matches_handler limit core) = sn_total_matches_created (metrics_handler core) \<and>
    sn_current_queue_size (metrics_handler core) = hr_players_waiting (health_handler now core) \<and>
    (\<forall>rq \<in> {Get_health, Get_metrics, Get_matches None, Get_matches (Some limit)}.
       rs_status (fst (dispatch D show_uuid now rq core)) = 200 \<and> snd (dispatch D show_uuid now rq core) = core)"
proof -
  have "mt_current_queue_size (sh_metrics (co_shared core)) = of_nat (pool_len D (sh_pool (co_shared core)))"
    using core_okD(5) [OF reachable_core_ok [OF assms(1,2)]] by (simp add: counters_ok_def Let_def)
  moreover have "sint (of_nat n :: i64) = int n" if "n < 2 ^ 63" for n
    using that by (simp add: signed_of_nat signed_take_bit_int_eq_self)
  ultimately show ?thesis
    using assms(3)
    by (simp add: health_handler_def players_waiting_def matches_handler_def recent_matches_def
        total_matches_formed_def metrics_handler_def core_metrics_snapshot_def Let_def)
qed

theorem reads_report_true_state_witness:
  "sint (hr_players_waiting (health_handler 100 (demo_core 3))) = 3"
proof -
  have "pool_len dash_alist (sh_pool (co_shared (demo_core 3))) = 3" by code_simp
  with reads_report_true_state [OF dashmap_dash_alist demo_core_reach [of 3], of 100] show ?thesis by simp
qed

text \<open>
  the averages of the metrics endpoint in any reachable state are zero before the first
  match, and afterwards the accumulated sums divided by the number of matches (for the wait
  time, by ten times that number).
\<close>

theorem metrics_averages:
  assumes "dashmap D" and "reach (engine_init D) (engine_step D) core"
  shows "let s = metrics_handler core; m = sh_metrics (co_shared core); n = sn_total_matches_created s
    in if n = 0 then sn_avg_wait_ms s = 0 \<and> sn_avg_skill_spread s = 0 \<and> sn_avg_team_delta s = 0
       else sn_avg_wait_ms s = mt_total_wait_time_ms m div (10 * n) \<and>
            sn_avg_skill_spread s = mt_skill_spread_sum m div n \<and>
            sn_avg_team_delta s = mt_team_delta_sum m div n"
  using core_okD(5) [OF reachable_core_ok [OF assms]]
  by (auto simp: metrics_handler_def core_metrics_snapshot_def counters_ok_def Let_def)

theorem metrics_averages_witness:
  "sn_avg_wait_ms (metrics_handler (demo_core 3)) = 0"
proof -
  have "sn_total_matches_created (metrics_handler (demo_core 3)) = 0" by code_simp
  with metrics_averages [OF dashmap_dash_alist demo_core_reach [of 3]] show ?thesis
    by (simp add: Let_def del: demo_core.simps)
qed

text \<open>
  the average helper stays between the smallest and the largest value as long as the sum
  does not wrap at 64 bits.
\<close>

theorem average_between_bounds:
  assumes "values \<noteq> []" and "\<forall>v \<in> set values. lo \<le> unat v \<and> unat v \<le> hi"
    and "length values * hi < 2 ^ 64" and "length values < 2 ^ 64"
  shows "lo \<le> unat (average_u64 values) \<and> unat (average_u64 values) \<le> hi"
proof -
  let ?s = "sum_list (map unat values)" and ?n = "length values"
  have upper: "?s \<le> ?n * hi" by (rule sum_list_map_bound) (use assms(2) in auto)
  have lower: "?n * lo \<le> ?s" using assms(2) by (induction "values") auto
  have "unat (sum_list values) = ?s"
    by (rule unat_sum_list_no_wrap) (use upper assms(3) in simp)
  moreover have "unat (of_nat ?n :: u64) = ?n"
    using assms(4) by (simp add: unat_of_nat take_bit_nat_eq_self)
  ultimately have avg: "unat (average_u64 values) = ?s div ?n"
    using assms(1) by (simp add: average_u64_def unat_div)
  have "?n * lo div ?n \<le> ?s div ?n" "?s div ?n \<le> ?n * hi div ?n"
    using lower upper by (simp_all only: div_le_mono)
  then show ?thesis using assms(1) by (simp add: avg)
qed

theorem average_between_bounds_witness:
  "10 \<le> unat (average_u64 [10, 20, 45]) \<and> unat (average_u64 [10, 20, 45]) \<le> 45"
  by (rule average_between_bounds) simp_all

end
