(* ===== verification/Service.thy ===== *)
theory Service
  imports Api
begin

text \<open>
  Model of src/src/main.rs, the composition of the service: configuration, the shared core, the
  task set, the listening socket, the wait for a signal, and the shutdown sequence.  The model
  is the trace of the observable events of a run and its exit status.  What tokio, axum and the
  operating system decide (whether the socket binds, which branch of a \<open>select!\<close> is ready, how
  a task ends) is an argument.
\<close>

definition HTTP_DRAIN_TIMEOUT_SECS :: u64 where "HTTP_DRAIN_TIMEOUT_SECS = 5"
definition WORKER_JOIN_TIMEOUT_SECS :: u64 where "WORKER_JOIN_TIMEOUT_SECS = 10"

section \<open>Signals\<close>

datatype signal = Sigint | Sigterm

text \<open>Which signal arrived first on Unix; elsewhere only the first can be awaited.\<close>

fun wait_for_signal :: "bool \<Rightarrow> signal list \<Rightarrow> signal option" where
  "wait_for_signal unix [] = None"
| "wait_for_signal unix (Sigint # later) = Some Sigint"
| "wait_for_signal unix (Sigterm # later) = (if unix then Some Sigterm else wait_for_signal unix later)"

section \<open>The trace of a run\<close>

datatype event =
    Config_loaded string
  | Fatal_config string
  | Tasks_spawned "task list"
  | Listening u16
  | Bind_failed u16
  | Server_exited bool
  | Signal_received signal
  | Shutdown_cancelled
  | Slept u64
  | Task_panicked
  | All_joined
  | Join_timeout nat
  | Final_metrics metrics_snapshot

text \<open>The join loop: each element is the branch that became ready, with the task's exit status.\<close>

datatype join_event = Join_next bool | Deadline_passed

fun join_loop :: "nat \<Rightarrow> join_event list \<Rightarrow> event list option" where
  "join_loop remaining [] = None"
| "join_loop remaining (Deadline_passed # later) =
     Some (if remaining > 0 then [Join_timeout remaining] else [])"
| "join_loop 0 (Join_next ok # later) = Some [All_joined]"
| "join_loop (Suc remaining) (Join_next ok # later) =
     map_option (\<lambda>es. if ok then es else Task_panicked # es) (join_loop remaining later)"

datatype main_select = Server_done bool | Signalled signal

fun select_event :: "main_select \<Rightarrow> event" where
  "select_event (Server_done ok) = Server_exited ok"
| "select_event (Signalled s) = Signal_received s"

text \<open>
  Startup: the core and the task set, or the fatal message.  A run that never leaves the join
  loop is \<open>None\<close>; \<open>serve\<close> is what the tasks and handlers make of the core until the end.
\<close>

definition startup :: "'m dash \<Rightarrow> instant \<Rightarrow> heap \<Rightarrow> env \<Rightarrow> string + 'm core \<times> task list" where
  "startup D now h env =
     (case from_env env of
        Inl e \<Rightarrow> Inl (config_error_display e)
      | Inr config \<Rightarrow>
          let core = core_new D now config metrics_new h
          in Inr (core, spawn_all core))"

definition run_main ::
    "'m dash \<Rightarrow> instant \<Rightarrow> heap \<Rightarrow> env \<Rightarrow> bool \<Rightarrow> main_select \<Rightarrow> ('m core \<Rightarrow> 'm core) \<Rightarrow>
       join_event list \<Rightarrow> (nat \<times> event list) option" where
  "run_main D now h env bound sel serve joins =
     (case startup D now h env of
        Inl msg \<Rightarrow> Some (1, [Fatal_config msg])
      | Inr (core, tasks) \<Rightarrow>
          let config = co_config core;
              started = [Config_loaded (config_display config), Tasks_spawned tasks]
          in if \<not> bound
             then Some (1, started @ [Bind_failed (server_port config), Shutdown_cancelled])
             else (case join_loop (length tasks) joins of
                     None \<Rightarrow> None
                   | Some joined \<Rightarrow>
                       Some (0, started @
                         [Listening (server_port config), select_event sel, Shutdown_cancelled,
                          Slept HTTP_DRAIN_TIMEOUT_SECS] @ joined @
                         [Final_metrics (core_metrics_snapshot (serve core))])))"

section \<open>Lemmas\<close>

fun clean :: "join_event \<Rightarrow> bool" where
  "clean (Join_next ok) = ok"
| "clean Deadline_passed = True"

fun is_join :: "join_event \<Rightarrow> bool" where
  "is_join (Join_next _) = True"
| "is_join Deadline_passed = False"

text \<open>How many tasks the loop joins: those that end before the deadline is seen.\<close>

definition joined :: "nat \<Rightarrow> join_event list \<Rightarrow> join_event list" where
  "joined remaining es = take remaining (takeWhile is_join es)"

lemma join_loop_returns:
  "remaining < length es \<or> Deadline_passed \<in> set es \<Longrightarrow> \<exists>out. join_loop remaining es = Some out"
  by (induction remaining es rule: join_loop.induct) auto

text \<open>
  The exact output of the loop: a panic for every joined task that panicked, and then the outcome.
  The empty task set is seen when every task has been joined and the set is polled once more
  before the deadline.
\<close>

lemma joined_simps [simp]:
  "joined remaining (Deadline_passed # later) = []" "joined 0 es = []"
  "joined (Suc remaining) (Join_next ok # later) = Join_next ok # joined remaining later"
  by (simp_all add: joined_def)

lemma join_loop_output:
  "join_loop remaining es = Some out \<Longrightarrow>
   out = replicate (length (filter (\<lambda>e. \<not> clean e) (joined remaining es))) Task_panicked @
     (if length (joined remaining es) < remaining then [Join_timeout (remaining - length (joined remaining es))]
      else if length (takeWhile is_join es) = remaining then [] else [All_joined])"
proof (induction remaining es arbitrary: out rule: join_loop.induct)
  case (4 remaining ok later)
  then obtain out' where out': "join_loop remaining later = Some out'" "out = (if ok then out' else Task_panicked # out')" by auto
  from "4.IH" [OF out'(1)] show ?case by (simp add: out'(2))
qed (auto split: if_splits)

lemma spawn_all_length: "length (spawn_all core) = Suc (worker_count (co_config core))"
  by (simp add: spawn_all_def)

lemma startup_Inr:
  "startup D now h env = Inr (core, tasks) \<longleftrightarrow>
     (\<exists>c. from_env env = Inr c \<and> core = core_new D now c metrics_new h \<and> tasks = spawn_all core)"
  by (auto simp: startup_def Let_def split: sum.split)

lemma startup_Inl:
  "startup D now h env = Inl msg \<longleftrightarrow> (\<exists>e. from_env env = Inl e \<and> msg = config_error_display e)"
  by (auto simp: startup_def Let_def split: sum.split)

lemma join_loop_events:
  "join_loop remaining es = Some out \<Longrightarrow>
   set out \<subseteq> {Task_panicked, All_joined} \<union> range Join_timeout"
  by (induction remaining es arbitrary: out rule: join_loop.induct) (auto split: if_splits)

lemma task_configs:
  "Worker_task i ctx tick \<in> set (spawn_all core) \<Longrightarrow> wc_config ctx = co_config core"
  by (auto simp: spawn_all_def make_worker_context_def)

lemma run_main_configured:
  assumes "from_env env = Inr c"
  shows "run_main D now h env bound sel serve joins =
    (let core = core_new D now c metrics_new h;
         started = [Config_loaded (config_display c), Tasks_spawned (spawn_all core)]
     in if \<not> bound then Some (1, started @ [Bind_failed (server_port c), Shutdown_cancelled])
        else map_option (\<lambda>joined. (0, started @
          [Listening (server_port c), select_event sel, Shutdown_cancelled, Slept HTTP_DRAIN_TIMEOUT_SECS] @
          joined @ [Final_metrics (core_metrics_snapshot (serve core))]))
          (join_loop (Suc (worker_count c)) joins))"
  using assms
  by (simp add: run_main_def startup_def Let_def spawn_all_length core_new_def split: option.split)

section \<open>Properties\<close>

text \<open>
  A run fails with status 1 exactly when the configuration is rejected or the port cannot
  be bound; tasks are spawned only under a validated configuration, which every worker
  carries, and whenever tasks were spawned they are cancelled before the process ends.
\<close>

theorem startup_and_exit_status:
  assumes "run_main D now h env bound sel serve joins = Some (code, es)"
  shows "(code = 1 \<longleftrightarrow> (\<exists>e. from_env env = Inl e) \<or> \<not> bound) \<and> code \<in> {0, 1} \<and>
    (\<forall>tasks. Tasks_spawned tasks \<in> set es \<longrightarrow>
       Shutdown_cancelled \<in> set es \<and>
       (\<exists>c. from_env env = Inr c \<and> config_ok c \<and> length tasks = Suc (worker_count c) \<and>
          (\<forall>i ctx tick. Worker_task i ctx tick \<in> set tasks \<longrightarrow> wc_config ctx = c)))"
proof (cases "from_env env")
  case (Inl e)
  with assms show ?thesis by (auto simp: run_main_def startup_def)
next
  case (Inr c)
  have same: "co_config (core_new D now c metrics_new h) = c" by (simp add: core_new_def)
  have carried: "wc_config ctx = c" if "Worker_task i ctx tick \<in> set (spawn_all (core_new D now c metrics_new h))" for i ctx tick
    using task_configs [OF that] by (simp add: same)
  have select: "select_event sel \<noteq> Tasks_spawned ts" for ts by (cases sel) auto
  show ?thesis
  proof (cases bound)
    case False
    with assms Inr from_env_Inr_config_ok [OF Inr] show ?thesis
      by (auto simp: run_main_configured [OF Inr] Let_def spawn_all_length same dest: carried)
  next
    case True
    with assms obtain out where out: "join_loop (Suc (worker_count c)) joins = Some out"
      and es: "code = 0" "es = [Config_loaded (config_display c), Tasks_spawned (spawn_all (core_new D now c metrics_new h)),
          Listening (server_port c), select_event sel, Shutdown_cancelled, Slept HTTP_DRAIN_TIMEOUT_SECS] @
          out @ [Final_metrics (core_metrics_snapshot (serve (core_new D now c metrics_new h)))]"
      by (auto simp: run_main_configured [OF Inr] Let_def)
    have "Tasks_spawned ts \<notin> set out" for ts using join_loop_events [OF out] by auto
    with True Inr from_env_Inr_config_ok [OF Inr] es select [symmetric] show ?thesis
      by (auto simp: spawn_all_length same dest: carried)
  qed
qed

theorem startup_and_exit_status_witness:
  "\<exists>es tasks. run_main dash_alist 0 (\<lambda>_. player_new 0 0 0) (env_of default_config) False (Signalled Sigint) (\<lambda>core. core) [] =
     Some (1, es) \<and> Tasks_spawned tasks \<in> set es \<and> Shutdown_cancelled \<in> set es \<and> length tasks = 5"
proof -
  have env: "from_env (env_of default_config) = Inr default_config"
    by (rule from_env_env_of) (rule default_config_ok)
  let ?tasks = "spawn_all (core_new dash_alist 0 default_config metrics_new (\<lambda>_. player_new 0 0 0))"
  let ?es = "[Config_loaded (config_display default_config), Tasks_spawned ?tasks,
    Bind_failed (server_port default_config), Shutdown_cancelled]"
  have run: "run_main dash_alist 0 (\<lambda>_. player_new 0 0 0) (env_of default_config) False (Signalled Sigint) (\<lambda>core. core) [] =
      Some (1, ?es)"
    by (simp add: run_main_configured [OF env] Let_def)
  from startup_and_exit_status [OF run] env have "length ?tasks = Suc (worker_count default_config)" by auto
  then show ?thesis using run by (intro exI [of _ ?es] exI [of _ ?tasks]) (simp add: default_config_def)
qed

text \<open>
  C39: Shutdown always finishes, and reports what it saw.  Once the deadline is seen, or once every
  task has ended and the empty task set is polled, the join loop returns and the run exits with
  status 0.  Its trace ends with one panic for each joined task that panicked, then, exactly if
  tasks were still running at the deadline, a timeout with their number, or, exactly if all had been
  joined and the set was polled again before the deadline, the message that all have ended; last
  come the metrics, after the server has been told to stop and has had its five seconds.
\<close>

theorem shutdown_finishes:
  assumes "from_env env = Inr c"
    and "Suc (worker_count c) < length joins \<or> Deadline_passed \<in> set joins"
  shows "let core = core_new D now c metrics_new h; tasks = Suc (worker_count c);
        ended = takeWhile is_join joins; panics = length (filter (\<lambda>e. e = Join_next False) (take tasks ended))
    in run_main D now h env True sel serve joins = Some (0,
      [Config_loaded (config_display c), Tasks_spawned (spawn_all core), Listening (server_port c),
       select_event sel, Shutdown_cancelled, Slept 5] @
      replicate panics Task_panicked @
      (if length ended < tasks then [Join_timeout (tasks - length ended)]
       else if length ended = tasks then [] else [All_joined]) @
      [Final_metrics (core_metrics_snapshot (serve core))])"
proof -
  let ?n = "Suc (worker_count c)"
  obtain out where out: "join_loop ?n joins = Some out"
    using join_loop_returns [OF assms(2)] by blast
  have "\<not> clean e \<longleftrightarrow> e = Join_next False" for e by (cases e) auto
  then have "filter (\<lambda>e. \<not> clean e) (joined ?n joins) = filter (\<lambda>e. e = Join_next False) (take ?n (takeWhile is_join joins))"
    by (simp add: joined_def)
  moreover have "length (joined ?n joins) < ?n \<longleftrightarrow> length (takeWhile is_join joins) < ?n"
    "length (joined ?n joins) < ?n \<Longrightarrow> length (joined ?n joins) = length (takeWhile is_join joins)"
    by (auto simp: joined_def)
  ultimately show ?thesis
    using join_loop_output [OF out]
    by (simp add: run_main_configured [OF assms(1)] Let_def out HTTP_DRAIN_TIMEOUT_SECS_def del: joined_simps)
qed

text \<open>
  With four workers and the Reaper: two tasks have ended at the deadline, one of them by a panic; or
  all five have, and the empty set is polled.
\<close>

theorem shutdown_finishes_witness:
  "(\<exists>es snap. run_main dash_alist 0 (\<lambda>_. player_new 0 0 0) (env_of default_config) True (Signalled Sigterm) (\<lambda>core. core)
       [Join_next True, Join_next False, Deadline_passed] = Some (0, es @ [Slept 5, Task_panicked, Join_timeout 3, Final_metrics snap])) \<and>
   (\<exists>es snap. run_main dash_alist 0 (\<lambda>_. player_new 0 0 0) (env_of default_config) True (Signalled Sigterm) (\<lambda>core. core)
       (replicate 6 (Join_next True)) = Some (0, es @ [Slept 5, All_joined, Final_metrics snap]))"
proof -
  have env: "from_env (env_of default_config) = Inr default_config"
    by (rule from_env_env_of) (rule default_config_ok)
  have six: "replicate 6 x = [x, x, x, x, x, x]" for x :: join_event by (simp add: numeral_eq_Suc)
  let ?core = "core_new dash_alist 0 default_config metrics_new (\<lambda>_. player_new 0 0 0)"
  let ?es = "[Config_loaded (config_display default_config), Tasks_spawned (spawn_all ?core), Listening (server_port default_config),
       Signal_received Sigterm, Shutdown_cancelled]" and ?snap = "core_metrics_snapshot ?core"
  have count: "worker_count default_config = 4" by (simp add: default_config_def)
  have "run_main dash_alist 0 (\<lambda>_. player_new 0 0 0) (env_of default_config) True (Signalled Sigterm) (\<lambda>core. core)
       [Join_next True, Join_next False, Deadline_passed] = Some (0, ?es @ [Slept 5, Task_panicked, Join_timeout 3, Final_metrics ?snap])"
    using shutdown_finishes [OF env, of "[Join_next True, Join_next False, Deadline_passed]" dash_alist 0 "\<lambda>_. player_new 0 0 0" "Signalled Sigterm" "\<lambda>core. core"]
    by (simp add: Let_def count)
  moreover have "run_main dash_alist 0 (\<lambda>_. player_new 0 0 0) (env_of default_config) True (Signalled Sigterm) (\<lambda>core. core)
       (replicate 6 (Join_next True)) = Some (0, ?es @ [Slept 5, All_joined, Final_metrics ?snap])"
    using shutdown_finishes [OF env, of "replicate 6 (Join_next True)" dash_alist 0 "\<lambda>_. player_new 0 0 0" "Signalled Sigterm" "\<lambda>core. core"]
    by (simp add: Let_def count six)
  ultimately show ?thesis by blast
qed

end
