(* ===== verification/Interleaving.thy ===== *)
theory Interleaving
  imports Workers
begin

text \<open>
  An abstraction of the interleaved service (theory Atomic holds the service itself): any number of
  workers, enqueue and cancel handlers and the Reaper, interleaved freely.

  The phases of a worker are the program points of src/src/engine/matcher.rs (phases 3 to 6)
  and of the methods of src/src/models/mod.rs and src/src/engine/bucket.rs it calls; the stages
  of a handler are those of \<open>enqueue\<close> and \<open>cancel\<close> in src/src/engine/mod.rs.  Players are their
  addresses, and the two maps of the pool are sets of players: identifiers play no part here.
  Candidate lists are arbitrary lists of players that have been filed in the index.

  A worker may die (panic or be cancelled) at any point; the Reaper resets the claims of dead
  workers and no others.  Theory Atomic_Simulation shows that the comparison the code makes has
  this effect as long as no live worker is late, and that the maps behave like the sets as long as no
  two players of one identifier meet in the pool.
\<close>

section \<open>States\<close>

datatype phase =
    Idle
  | Claiming "addr list" "addr list"
  | Stamp_owner addr "addr list" "addr list"
  | Stamp_time addr "addr list" "addr list"
  | Release_owner "addr list"
  | Release_time "addr list"
  | Release_state "addr list"
  | Mark_time "addr list" "addr list"
  | Mark_state "addr list" "addr list"
  | Unlink_primary "addr list" "addr list"
  | Unlink_index "addr list" "addr list"
  | Count_match "addr list"
  | Crashed "addr set" "addr set" "addr set"

text \<open>
  A dead worker leaves the players it had claimed, those it had removed from the pool without
  counting the match, and those it had marked but not removed.
\<close>

text \<open>What an enqueue or cancel handler of a player does next.\<close>

datatype handler = Done | At_primary | At_index | At_metrics

datatype reaper_phase = Scanning | Clear_owner addr | Clear_time addr

record sys =
  sy_heap :: heap
  sy_next :: addr
  sy_phase :: "u64 \<Rightarrow> phase"
  sy_reaper :: reaper_phase
  sy_matches :: "addr list list"
  sy_enqueue :: "addr \<Rightarrow> handler"
  sy_cancel :: "addr \<Rightarrow> handler"
  sy_primary :: "addr set"
  sy_index :: "addr set"
  sy_gauge :: int

text \<open>The players whose claim a worker holds, and those it has marked but not yet published.\<close>

fun live :: "phase \<Rightarrow> addr set" where
  "live (Claiming cs as) = set as"
| "live (Stamp_owner a cs as) = insert a (set as)"
| "live (Stamp_time a cs as) = insert a (set as)"
| "live (Release_owner as) = set as"
| "live (Release_time as) = set as"
| "live (Release_state as) = set as"
| "live (Mark_time todo as) = set todo"
| "live (Mark_state todo as) = set todo"
| "live (Crashed A U L) = A"
| "live _ = {}"

fun marked :: "phase \<Rightarrow> addr set" where
  "marked (Mark_time todo as) = set as - set todo"
| "marked (Mark_state todo as) = set as - set todo"
| "marked (Unlink_primary todo as) = set as"
| "marked (Unlink_index todo as) = set as"
| "marked _ = {}"

text \<open>Matched players still in the primary store, and those removed but not yet counted.\<close>

fun linked :: "phase \<Rightarrow> addr set" where
  "linked (Mark_time todo as) = set as - set todo"
| "linked (Mark_state todo as) = set as - set todo"
| "linked (Unlink_primary todo as) = set todo"
| "linked (Unlink_index todo as) = set (tl todo)"
| "linked (Crashed A U L) = L"
| "linked _ = {}"

fun unlinked :: "phase \<Rightarrow> addr set" where
  "unlinked (Unlink_primary todo as) = set as - set todo"
| "unlinked (Unlink_index todo as) = set as - set (tl todo)"
| "unlinked (Count_match as) = set as"
| "unlinked (Crashed A U L) = U"
| "unlinked _ = {}"

section \<open>Steps\<close>

abbreviation set_state :: "addr \<Rightarrow> u8 \<Rightarrow> heap \<Rightarrow> heap" where
  "set_state a s h \<equiv> h(a := (h a)\<lparr>p_state := s\<rparr>)"

text \<open>The enqueue of a player has inserted him into both structures.\<close>

definition filed :: "sys \<Rightarrow> addr \<Rightarrow> bool" where
  "filed s a \<longleftrightarrow> sy_enqueue s a \<in> {At_metrics, Done}"

inductive conc_step :: "sys \<Rightarrow> sys \<Rightarrow> bool" where
  enqueued: "a = sy_next s \<Longrightarrow>
    conc_step s (s\<lparr>sy_heap := (sy_heap s)(a := player_new now i r), sy_next := Suc a,
                   sy_enqueue := (sy_enqueue s)(a := At_primary)\<rparr>)"
| primary_inserted: "sy_enqueue s a = At_primary \<Longrightarrow>
    conc_step s (s\<lparr>sy_primary := insert a (sy_primary s), sy_enqueue := (sy_enqueue s)(a := At_index)\<rparr>)"
| index_inserted: "sy_enqueue s a = At_index \<Longrightarrow>
    conc_step s (s\<lparr>sy_index := insert a (sy_index s), sy_enqueue := (sy_enqueue s)(a := At_metrics)\<rparr>)"
| enqueue_counted: "sy_enqueue s a = At_metrics \<Longrightarrow>
    conc_step s (s\<lparr>sy_gauge := sy_gauge s + 1, sy_enqueue := (sy_enqueue s)(a := Done)\<rparr>)"
| cancelled: "a < sy_next s \<Longrightarrow> sy_enqueue s a \<noteq> At_primary \<Longrightarrow>
    compare_exchange WAITING EVICTED (sy_heap s a) = (True, p) \<Longrightarrow>
    conc_step s (s\<lparr>sy_heap := (sy_heap s)(a := p), sy_cancel := (sy_cancel s)(a := At_primary)\<rparr>)"
| cancel_primary: "sy_cancel s a = At_primary \<Longrightarrow>
    conc_step s (s\<lparr>sy_primary := sy_primary s - {a},
                   sy_cancel := (sy_cancel s)(a := if a \<in> sy_primary s then At_index else At_metrics)\<rparr>)"
| cancel_index: "sy_cancel s a = At_index \<Longrightarrow>
    conc_step s (s\<lparr>sy_index := sy_index s - {a}, sy_cancel := (sy_cancel s)(a := At_metrics)\<rparr>)"
| cancel_counted: "sy_cancel s a = At_metrics \<Longrightarrow>
    conc_step s (s\<lparr>sy_gauge := sy_gauge s - 1, sy_cancel := (sy_cancel s)(a := Done)\<rparr>)"
| scanned: "sy_phase s w = Idle \<Longrightarrow> \<forall>a \<in> set cs. a < sy_next s \<and> filed s a \<Longrightarrow>
    conc_step s (s\<lparr>sy_phase := (sy_phase s)(w := Claiming cs [])\<rparr>)"
| claim_won: "sy_phase s w = Claiming (a # cs) as \<Longrightarrow> length as \<noteq> MATCH_SIZE \<Longrightarrow>
    compare_exchange WAITING CLAIMED (sy_heap s a) = (True, p) \<Longrightarrow>
    conc_step s (s\<lparr>sy_heap := (sy_heap s)(a := p), sy_phase := (sy_phase s)(w := Stamp_owner a cs as)\<rparr>)"
| claim_lost: "sy_phase s w = Claiming (a # cs) as \<Longrightarrow> length as \<noteq> MATCH_SIZE \<Longrightarrow>
    compare_exchange WAITING CLAIMED (sy_heap s a) = (False, p) \<Longrightarrow>
    conc_step s (s\<lparr>sy_phase := (sy_phase s)(w := Claiming cs as)\<rparr>)"
| owner_stamped: "sy_phase s w = Stamp_owner a cs as \<Longrightarrow>
    conc_step s (s\<lparr>sy_heap := (sy_heap s)(a := (sy_heap s a)\<lparr>p_claimed_by := w\<rparr>),
                   sy_phase := (sy_phase s)(w := Stamp_time a cs as)\<rparr>)"
| time_stamped: "sy_phase s w = Stamp_time a cs as \<Longrightarrow>
    conc_step s (s\<lparr>sy_heap := (sy_heap s)(a := (sy_heap s a)\<lparr>p_claim_timestamp := t\<rparr>),
                   sy_phase := (sy_phase s)(w := Claiming cs (as @ [a]))\<rparr>)"
| too_few: "sy_phase s w = Claiming [] as \<Longrightarrow> length as < MATCH_SIZE \<Longrightarrow>
    conc_step s (s\<lparr>sy_phase := (sy_phase s)(w := Release_owner as)\<rparr>)"
| owner_released: "sy_phase s w = Release_owner (a # as) \<Longrightarrow>
    conc_step s (s\<lparr>sy_heap := (sy_heap s)(a := (sy_heap s a)\<lparr>p_claimed_by := 0\<rparr>),
                   sy_phase := (sy_phase s)(w := Release_time (a # as))\<rparr>)"
| time_released: "sy_phase s w = Release_time (a # as) \<Longrightarrow>
    conc_step s (s\<lparr>sy_heap := (sy_heap s)(a := (sy_heap s a)\<lparr>p_claim_timestamp := 0\<rparr>),
                   sy_phase := (sy_phase s)(w := Release_state (a # as))\<rparr>)"
| state_released: "sy_phase s w = Release_state (a # as) \<Longrightarrow>
    conc_step s (s\<lparr>sy_heap := (sy_heap s)(a := snd (compare_exchange CLAIMED WAITING (sy_heap s a))),
                   sy_phase := (sy_phase s)(w := Release_owner as)\<rparr>)"
| all_released: "sy_phase s w = Release_owner [] \<Longrightarrow>
    conc_step s (s\<lparr>sy_phase := (sy_phase s)(w := Idle)\<rparr>)"
| enough: "sy_phase s w = Claiming cs as \<Longrightarrow> length as = MATCH_SIZE \<Longrightarrow>
    conc_step s (s\<lparr>sy_phase := (sy_phase s)(w := Mark_time as as)\<rparr>)"
| match_timed: "sy_phase s w = Mark_time (a # todo) as \<Longrightarrow>
    conc_step s (s\<lparr>sy_heap := (sy_heap s)(a := (sy_heap s a)\<lparr>p_matched_at := Some now\<rparr>),
                   sy_phase := (sy_phase s)(w := Mark_state (a # todo) as)\<rparr>)"
| state_marked: "sy_phase s w = Mark_state (a # todo) as \<Longrightarrow>
    conc_step s (s\<lparr>sy_heap := (sy_heap s)(a := snd (compare_exchange CLAIMED MATCHED (sy_heap s a))),
                   sy_phase := (sy_phase s)(w := Mark_time todo as)\<rparr>)"
| all_marked: "sy_phase s w = Mark_time [] as \<Longrightarrow>
    conc_step s (s\<lparr>sy_phase := (sy_phase s)(w := Unlink_primary as as)\<rparr>)"
| primary_unlinked: "sy_phase s w = Unlink_primary (a # todo) as \<Longrightarrow> a \<in> sy_primary s \<Longrightarrow>
    conc_step s (s\<lparr>sy_primary := sy_primary s - {a}, sy_phase := (sy_phase s)(w := Unlink_index (a # todo) as)\<rparr>)"
| primary_absent: "sy_phase s w = Unlink_primary (a # todo) as \<Longrightarrow> a \<notin> sy_primary s \<Longrightarrow>
    conc_step s (s\<lparr>sy_phase := (sy_phase s)(w := Unlink_primary todo as)\<rparr>)"
| index_unlinked: "sy_phase s w = Unlink_index (a # todo) as \<Longrightarrow>
    conc_step s (s\<lparr>sy_index := sy_index s - {a}, sy_phase := (sy_phase s)(w := Unlink_primary todo as)\<rparr>)"
| published: "sy_phase s w = Unlink_primary [] as \<Longrightarrow>
    conc_step s (s\<lparr>sy_matches := as # sy_matches s, sy_phase := (sy_phase s)(w := Count_match as)\<rparr>)"
| match_counted: "sy_phase s w = Count_match as \<Longrightarrow>
    conc_step s (s\<lparr>sy_gauge := sy_gauge s - int MATCH_SIZE, sy_phase := (sy_phase s)(w := Idle)\<rparr>)"
| crashed: "conc_step s (s\<lparr>sy_phase := (sy_phase s)(w := Crashed (live (sy_phase s w))
                                             (unlinked (sy_phase s w)) (linked (sy_phase s w)))\<rparr>)"
| reaped: "sy_reaper s = Scanning \<Longrightarrow> sy_phase s w = Crashed A U L \<Longrightarrow> a \<in> A \<Longrightarrow>
    compare_exchange CLAIMED WAITING (sy_heap s a) = (True, p) \<Longrightarrow>
    conc_step s (s\<lparr>sy_heap := (sy_heap s)(a := p), sy_reaper := Clear_owner a,
                   sy_phase := (sy_phase s)(w := Crashed (A - {a}) U L)\<rparr>)"
| owner_cleared: "sy_reaper s = Clear_owner a \<Longrightarrow>
    conc_step s (s\<lparr>sy_heap := (sy_heap s)(a := (sy_heap s a)\<lparr>p_claimed_by := 0\<rparr>), sy_reaper := Clear_time a\<rparr>)"
| time_cleared: "sy_reaper s = Clear_time a \<Longrightarrow>
    conc_step s (s\<lparr>sy_heap := (sy_heap s)(a := (sy_heap s a)\<lparr>p_claim_timestamp := 0\<rparr>), sy_reaper := Scanning\<rparr>)"

definition conc_init :: "sys \<Rightarrow> bool" where
  "conc_init s \<longleftrightarrow> sy_next s = 0 \<and> (\<forall>w. sy_phase s w = Idle) \<and> sy_reaper s = Scanning \<and> sy_matches s = [] \<and>
     (\<forall>a. sy_enqueue s a = Done \<and> sy_cancel s a = Done) \<and> sy_primary s = {} \<and> sy_index s = {} \<and> sy_gauge s = 0"

end
