(* ===== verification/Ownership.thy ===== *)
theory Ownership
  imports Interleaving
begin

text \<open>
  Ownership under interleaving: every claimed player has one holder, matches are disjoint, the
  terminal states are final.  Each step is of one of a few kinds, and the invariant is kept by
  each kind.
\<close>

section \<open>The ownership invariant\<close>

fun phase_ok :: "addr \<Rightarrow> phase \<Rightarrow> bool" where
  "phase_ok n (Claiming cs as) \<longleftrightarrow> distinct as \<and> length as \<le> MATCH_SIZE \<and> set cs \<subseteq> {..<n}"
| "phase_ok n (Stamp_owner a cs as) \<longleftrightarrow> distinct (a # as) \<and> length as < MATCH_SIZE \<and> set cs \<subseteq> {..<n}"
| "phase_ok n (Stamp_time a cs as) \<longleftrightarrow> distinct (a # as) \<and> length as < MATCH_SIZE \<and> set cs \<subseteq> {..<n}"
| "phase_ok n (Release_owner as) \<longleftrightarrow> distinct as"
| "phase_ok n (Release_time as) \<longleftrightarrow> distinct as"
| "phase_ok n (Release_state as) \<longleftrightarrow> distinct as"
| "phase_ok n (Mark_time todo as) \<longleftrightarrow> distinct as \<and> distinct todo \<and> length as = MATCH_SIZE \<and> set todo \<subseteq> set as"
| "phase_ok n (Mark_state todo as) \<longleftrightarrow> distinct as \<and> distinct todo \<and> length as = MATCH_SIZE \<and> set todo \<subseteq> set as"
| "phase_ok n (Unlink_primary todo as) \<longleftrightarrow> distinct as \<and> distinct todo \<and> length as = MATCH_SIZE \<and> set todo \<subseteq> set as"
| "phase_ok n (Unlink_index todo as) \<longleftrightarrow>
     distinct as \<and> distinct todo \<and> length as = MATCH_SIZE \<and> set todo \<subseteq> set as \<and> todo \<noteq> []"
| "phase_ok n (Count_match as) \<longleftrightarrow> distinct as \<and> length as = MATCH_SIZE"
| "phase_ok n _ \<longleftrightarrow> True"

definition held :: "phase \<Rightarrow> addr set" where "held p = live p \<union> marked p"

definition conc_ok :: "sys \<Rightarrow> bool" where
  "conc_ok s \<longleftrightarrow>
     (\<forall>w. phase_ok (sy_next s) (sy_phase s w)) \<and>
     (\<forall>w. \<forall>a \<in> live (sy_phase s w). a < sy_next s \<and> p_state (sy_heap s a) = CLAIMED) \<and>
     (\<forall>w. \<forall>a \<in> marked (sy_phase s w). a < sy_next s \<and> p_state (sy_heap s a) = MATCHED \<and> a \<notin> set (concat (sy_matches s))) \<and>
     (\<forall>w w'. w \<noteq> w' \<longrightarrow> held (sy_phase s w) \<inter> held (sy_phase s w') = {}) \<and>
     (\<forall>a \<in> set (concat (sy_matches s)). a < sy_next s \<and> p_state (sy_heap s a) = MATCHED) \<and>
     distinct (concat (sy_matches s)) \<and> (\<forall>m \<in> set (sy_matches s). length m = MATCH_SIZE) \<and>
     (\<forall>a < sy_next s. p_state (sy_heap s a) = CLAIMED \<longrightarrow> (\<exists>w. a \<in> live (sy_phase s w)))"

text \<open>The pool and the gauge play no part in ownership.\<close>

lemma conc_ok_pool [simp]:
  "conc_ok (s\<lparr>sy_enqueue := e\<rparr>) = conc_ok s" "conc_ok (s\<lparr>sy_cancel := e\<rparr>) = conc_ok s"
  "conc_ok (s\<lparr>sy_primary := A\<rparr>) = conc_ok s" "conc_ok (s\<lparr>sy_index := A\<rparr>) = conc_ok s"
  "conc_ok (s\<lparr>sy_gauge := g\<rparr>) = conc_ok s"
  by (simp_all add: conc_ok_def)

lemma conc_okD:
  assumes "conc_ok s"
  shows "phase_ok (sy_next s) (sy_phase s w)"
    and "a \<in> live (sy_phase s w) \<Longrightarrow> a < sy_next s \<and> p_state (sy_heap s a) = CLAIMED"
    and "a \<in> marked (sy_phase s w) \<Longrightarrow>
      a < sy_next s \<and> p_state (sy_heap s a) = MATCHED \<and> a \<notin> set (concat (sy_matches s))"
    and "a \<in> held (sy_phase s w) \<Longrightarrow> a \<in> held (sy_phase s w') \<Longrightarrow> w = w'"
    and "a \<in> set (concat (sy_matches s)) \<Longrightarrow> a < sy_next s \<and> p_state (sy_heap s a) = MATCHED"
    and "distinct (concat (sy_matches s))"
    and "m \<in> set (sy_matches s) \<Longrightarrow> length m = MATCH_SIZE"
    and "a < sy_next s \<Longrightarrow> p_state (sy_heap s a) = CLAIMED \<Longrightarrow> \<exists>w. a \<in> live (sy_phase s w)"
  using assms unfolding conc_ok_def by blast+

lemma conc_okI:
  assumes "\<And>w. phase_ok (sy_next s) (sy_phase s w)"
    and "\<And>w a. a \<in> live (sy_phase s w) \<Longrightarrow> a < sy_next s \<and> p_state (sy_heap s a) = CLAIMED"
    and "\<And>w a. a \<in> marked (sy_phase s w) \<Longrightarrow>
      a < sy_next s \<and> p_state (sy_heap s a) = MATCHED \<and> a \<notin> set (concat (sy_matches s))"
    and "\<And>w w' a. a \<in> held (sy_phase s w) \<Longrightarrow> a \<in> held (sy_phase s w') \<Longrightarrow> w = w'"
    and "\<And>a. a \<in> set (concat (sy_matches s)) \<Longrightarrow> a < sy_next s \<and> p_state (sy_heap s a) = MATCHED"
    and "distinct (concat (sy_matches s))"
    and "\<And>m. m \<in> set (sy_matches s) \<Longrightarrow> length m = MATCH_SIZE"
    and "\<And>a. a < sy_next s \<Longrightarrow> p_state (sy_heap s a) = CLAIMED \<Longrightarrow> \<exists>w. a \<in> live (sy_phase s w)"
  shows "conc_ok s"
  using assms unfolding conc_ok_def by blast

section \<open>Kinds of steps\<close>

text \<open>
  Each step of a worker is of one of five kinds, by what it does to the state words and to the
  players the worker holds; the invariant is kept by each kind.
\<close>

definition worker_moves :: "sys \<Rightarrow> sys \<Rightarrow> u64 \<Rightarrow> phase \<Rightarrow> bool" where
  "worker_moves s t w p' \<longleftrightarrow>
     sy_next t = sy_next s \<and> sy_phase t = (sy_phase s)(w := p') \<and> phase_ok (sy_next s) p'"

lemma worker_movesD:
  assumes "conc_ok s" and "worker_moves s t w p'"
  shows "sy_next t = sy_next s" and "sy_phase t = (sy_phase s)(w := p')"
    and "phase_ok (sy_next t) (sy_phase t v)"
  using assms(2) conc_okD(1) [OF assms(1), of v] by (auto simp: worker_moves_def)

text \<open>Same players, same states (or fewer players tracked as marked, when the worker crashes).\<close>

lemma worker_keeps:
  assumes ok: "conc_ok s" and moves: "worker_moves s t w p'"
    and "\<And>a. p_state (sy_heap t a) = p_state (sy_heap s a)" and "sy_matches t = sy_matches s"
    and "live p' = live (sy_phase s w)" and "marked p' \<subseteq> marked (sy_phase s w)"
  shows "conc_ok t"
proof (rule conc_okI)
  note next_same = worker_movesD(1) [OF ok moves] and phases = worker_movesD(2) [OF ok moves]
    and all_phases_ok = worker_movesD(3) [OF ok moves] and rest = assms(3-)
  have sub: "live (sy_phase t v) = live (sy_phase s v)" "marked (sy_phase t v) \<subseteq> marked (sy_phase s v)" for v
    using rest(3,4) by (simp_all add: phases)
  show "a < sy_next t \<and> p_state (sy_heap t a) = CLAIMED" if "a \<in> live (sy_phase t v)" for v a
    using that conc_okD(2) [OF ok] by (simp add: sub next_same rest(1))
  show "a < sy_next t \<and> p_state (sy_heap t a) = MATCHED \<and> a \<notin> set (concat (sy_matches t))"
    if "a \<in> marked (sy_phase t v)" for v a
    using conc_okD(3) [OF ok subsetD [OF sub(2) that]] by (simp add: next_same rest(1,2))
  show "v = v'" if "a \<in> held (sy_phase t v)" "a \<in> held (sy_phase t v')" for v v' a
    using that sub conc_okD(4) [OF ok, of a v v'] unfolding held_def by blast
  show "\<exists>v. a \<in> live (sy_phase t v)" if "a < sy_next t" "p_state (sy_heap t a) = CLAIMED" for a
    using that conc_okD(8) [OF ok] by (simp add: sub next_same rest(1))
qed (use conc_okD(5-7) [OF ok] worker_movesD(3) [OF ok moves] in \<open>simp_all add: worker_movesD(1) [OF ok moves] assms(3,4)\<close>)

text \<open>A waiting player becomes claimed by the worker.\<close>

lemma worker_wins:
  assumes ok: "conc_ok s" and moves: "worker_moves s t w p'"
    and "p_state (sy_heap s a) = WAITING" and "a < sy_next s" and "sy_matches t = sy_matches s"
    and "\<And>b. p_state (sy_heap t b) = (if b = a then CLAIMED else p_state (sy_heap s b))"
    and "live p' = insert a (live (sy_phase s w))" and "marked p' = marked (sy_phase s w)"
  shows "conc_ok t"
proof (rule conc_okI)
  note next_same = worker_movesD(1) [OF ok moves] and phases = worker_movesD(2) [OF ok moves]
    and all_phases_ok = worker_movesD(3) [OF ok moves] and rest = assms(3-)
  have free: "a \<notin> live (sy_phase s v)" "a \<notin> marked (sy_phase s v)" for v
    using rest(1) conc_okD(2,3) [OF ok, of a v] by auto
  have unpublished: "a \<notin> set (concat (sy_matches s))" using rest(1) conc_okD(5) [OF ok, of a] by auto
  have sub: "live (sy_phase t v) = (if v = w then insert a (live (sy_phase s v)) else live (sy_phase s v))"
    "marked (sy_phase t v) = marked (sy_phase s v)" for v
    using rest(5,6) by (simp_all add: phases)
  show "b < sy_next t \<and> p_state (sy_heap t b) = CLAIMED" if "b \<in> live (sy_phase t v)" for v b
    using that conc_okD(2) [OF ok, of b v] rest(2) by (auto simp: sub next_same rest(4) split: if_splits)
  show "b < sy_next t \<and> p_state (sy_heap t b) = MATCHED \<and> b \<notin> set (concat (sy_matches t))"
    if "b \<in> marked (sy_phase t v)" for v b
    using that conc_okD(3) [OF ok, of b v] free(2) by (auto simp: sub next_same rest(3,4))
  show "v = v'" if "b \<in> held (sy_phase t v)" "b \<in> held (sy_phase t v')" for v v' b
    using that free conc_okD(4) [OF ok, of b v v'] unfolding held_def by (auto simp: sub split: if_splits)
  show "b < sy_next t \<and> p_state (sy_heap t b) = MATCHED" if "b \<in> set (concat (sy_matches t))" for b
    using that unpublished conc_okD(5) [OF ok, of b] by (auto simp: next_same rest(3,4))
  show "\<exists>v. b \<in> live (sy_phase t v)" if "b < sy_next t" "p_state (sy_heap t b) = CLAIMED" for b
  proof (cases "b = a")
    case True
    then show ?thesis by (intro exI [of _ w]) (simp add: sub)
  next
    case False
    with that obtain v where "b \<in> live (sy_phase s v)"
      using conc_okD(8) [OF ok, of b] by (auto simp: next_same rest(4))
    then show ?thesis by (intro exI [of _ v]) (auto simp: sub)
  qed
qed (use conc_okD(6,7) [OF ok] worker_movesD(3) [OF ok moves] in \<open>simp_all add: assms(5)\<close>)

text \<open>A claimed player of the worker leaves it: back to waiting, or marked as matched.\<close>

lemma worker_leaves:
  assumes ok: "conc_ok s" and moves: "worker_moves s t w p'"
    and live: "live (sy_phase s w) = insert a (live p')" "a \<notin> live p'"
    and "sy_matches t = sy_matches s" and new: "new \<noteq> CLAIMED"
    and st: "\<And>b. p_state (sy_heap t b) = (if b = a then new else p_state (sy_heap s b))"
    and marked: "marked p' = marked (sy_phase s w) \<or> new = MATCHED \<and> marked p' = insert a (marked (sy_phase s w))"
  shows "conc_ok t"
proof (rule conc_okI)
  note next_same = worker_movesD(1) [OF ok moves] and phases = worker_movesD(2) [OF ok moves]
    and all_phases_ok = worker_movesD(3) [OF ok moves] and rest = assms(3-)
  have a: "a < sy_next s" "p_state (sy_heap s a) = CLAIMED"
    using conc_okD(2) [OF ok, of a w] live(1) by auto
  have only: "a \<notin> live (sy_phase s v)" "a \<notin> marked (sy_phase s v)" if "v \<noteq> w" for v
    using that conc_okD(4) [OF ok, of a v w] live(1) by (auto simp: held_def)
  have not_marked: "a \<notin> marked (sy_phase s v)" for v
    using a(2) conc_okD(3) [OF ok, of a v] by auto
  have unpublished: "a \<notin> set (concat (sy_matches s))" using a(2) conc_okD(5) [OF ok, of a] by auto
  have sub: "live (sy_phase t v) = live (sy_phase s v) - {a}" for v
    using live only by (auto simp: phases)
  have mk: "marked (sy_phase t v) = marked (sy_phase s v) \<or>
      (new = MATCHED \<and> v = w \<and> marked (sy_phase t v) = insert a (marked (sy_phase s v)))" for v
    using marked by (auto simp: phases)
  show "b < sy_next t \<and> p_state (sy_heap t b) = CLAIMED" if "b \<in> live (sy_phase t v)" for v b
    using that conc_okD(2) [OF ok, of b v] by (simp add: sub next_same st)
  show "b < sy_next t \<and> p_state (sy_heap t b) = MATCHED \<and> b \<notin> set (concat (sy_matches t))"
    if "b \<in> marked (sy_phase t v)" for v b
    using that mk [of v] conc_okD(3) [OF ok, of b v] a(1) unpublished not_marked [of v]
    by (auto simp: next_same rest(3) st)
  have held_sub: "held (sy_phase t v) \<subseteq> held (sy_phase s v)" for v
    using mk [of v] live(1) by (auto simp: held_def sub)
  show "v = v'" if "b \<in> held (sy_phase t v)" "b \<in> held (sy_phase t v')" for v v' b
    using that held_sub conc_okD(4) [OF ok, of b v v'] by blast
  show "b < sy_next t \<and> p_state (sy_heap t b) = MATCHED" if "b \<in> set (concat (sy_matches t))" for b
    using that unpublished conc_okD(5) [OF ok, of b] by (auto simp: next_same rest(3) st)
  show "\<exists>v. b \<in> live (sy_phase t v)" if "b < sy_next t" "p_state (sy_heap t b) = CLAIMED" for b
  proof -
    have "b \<noteq> a" using that(2) new by (auto simp: st)
    with that obtain v where "b \<in> live (sy_phase s v)"
      using conc_okD(8) [OF ok, of b] by (auto simp: next_same st)
    with \<open>b \<noteq> a\<close> show ?thesis by (intro exI [of _ v]) (simp add: sub)
  qed
qed (use conc_okD(6,7) [OF ok] worker_movesD(3) [OF ok moves] in \<open>simp_all add: assms(5)\<close>)

text \<open>The worker publishes the players it has marked.\<close>

lemma worker_publishes:
  assumes ok: "conc_ok s" and moves: "worker_moves s t w p'"
    and "live (sy_phase s w) = {}" and "marked (sy_phase s w) = set as" and "distinct as"
    and "length as = MATCH_SIZE" and "live p' = {}" and "marked p' = {}"
    and "sy_matches t = as # sy_matches s" and "\<And>a. p_state (sy_heap t a) = p_state (sy_heap s a)"
  shows "conc_ok t"
proof (rule conc_okI)
  note next_same = worker_movesD(1) [OF ok moves] and phases = worker_movesD(2) [OF ok moves]
    and all_phases_ok = worker_movesD(3) [OF ok moves] and rest = assms(3-)
  have as: "a < sy_next s \<and> p_state (sy_heap s a) = MATCHED \<and> a \<notin> set (concat (sy_matches s))" if "a \<in> set as" for a
    using that conc_okD(3) [OF ok, of a w] rest(2) by simp
  have only: "a \<notin> marked (sy_phase s v)" if "v \<noteq> w" "a \<in> set as" for a v
    using that conc_okD(4) [OF ok, of a v w] rest(2) by (auto simp: held_def)
  have sub: "live (sy_phase t v) = live (sy_phase s v)"
    "marked (sy_phase t v) = (if v = w then {} else marked (sy_phase s v))" for v
    using rest(1,5,6) by (simp_all add: phases)
  show "b < sy_next t \<and> p_state (sy_heap t b) = CLAIMED" if "b \<in> live (sy_phase t v)" for v b
    using that conc_okD(2) [OF ok, of b v] by (simp add: sub next_same rest(8))
  show "b < sy_next t \<and> p_state (sy_heap t b) = MATCHED \<and> b \<notin> set (concat (sy_matches t))"
    if "b \<in> marked (sy_phase t v)" for v b
    using that only conc_okD(3) [OF ok, of b v] by (auto simp: sub next_same rest(7,8) split: if_splits)
  show "v = v'" if "b \<in> held (sy_phase t v)" "b \<in> held (sy_phase t v')" for v v' b
    using that conc_okD(4) [OF ok, of b v v'] by (auto simp: held_def sub split: if_splits)
  show "b < sy_next t \<and> p_state (sy_heap t b) = MATCHED" if "b \<in> set (concat (sy_matches t))" for b
    using that as conc_okD(5) [OF ok, of b] by (auto simp: next_same rest(7,8))
  show "distinct (concat (sy_matches t))"
    using conc_okD(6) [OF ok] rest(3) as by (auto simp: rest(7))
  show "length m = MATCH_SIZE" if "m \<in> set (sy_matches t)" for m
    using that conc_okD(7) [OF ok, of m] rest(4) by (auto simp: rest(7))
  show "\<exists>v. b \<in> live (sy_phase t v)" if "b < sy_next t" "p_state (sy_heap t b) = CLAIMED" for b
    using that conc_okD(8) [OF ok, of b] by (simp add: sub next_same rest(8))
qed (rule worker_movesD(3) [OF ok moves])

lemma compare_exchange_True:
  "compare_exchange x y p = (True, q) \<longleftrightarrow> p_state p = x \<and> q = p\<lparr>p_state := y\<rparr>"
  by (auto simp: compare_exchange_def)

text \<open>Environment steps: enqueue, cancel, and the stores of the Reaper.\<close>

lemma conc_ok_enqueued:
  assumes ok: "conc_ok s"
  shows "conc_ok (s\<lparr>sy_heap := (sy_heap s)(sy_next s := player_new now i r), sy_next := Suc (sy_next s)\<rparr>)"
    (is "conc_ok ?t")
proof (rule conc_okI)
  have new: "p_state (player_new now i r) = WAITING" by (simp add: player_new_def)
  have grow: "phase_ok n p \<Longrightarrow> phase_ok (Suc n) p" for n p
    by (cases p) (auto simp: less_Suc_eq)
  show "phase_ok (sy_next ?t) (sy_phase ?t w)" for w using grow [OF conc_okD(1) [OF ok]] by simp
  show "v = v'" if "a \<in> held (sy_phase ?t v)" "a \<in> held (sy_phase ?t v')" for v v' a
    using that conc_okD(4) [OF ok, of a v v'] by simp
  show "a < sy_next ?t \<and> p_state (sy_heap ?t a) = CLAIMED" if "a \<in> live (sy_phase ?t w)" for w a
    using that conc_okD(2) [OF ok, of a w] by auto
  show "a < sy_next ?t \<and> p_state (sy_heap ?t a) = MATCHED \<and> a \<notin> set (concat (sy_matches ?t))"
    if "a \<in> marked (sy_phase ?t w)" for w a
    using that conc_okD(3) [OF ok, of a w] by auto
  show "a < sy_next ?t \<and> p_state (sy_heap ?t a) = MATCHED" if "a \<in> set (concat (sy_matches ?t))" for a
    using that conc_okD(5) [OF ok, of a] by auto
  show "\<exists>w. a \<in> live (sy_phase ?t w)" if "a < sy_next ?t" "p_state (sy_heap ?t a) = CLAIMED" for a
    using that new conc_okD(8) [OF ok, of a] by (auto simp: less_Suc_eq split: if_splits)
qed (use conc_okD(6,7) [OF ok] in simp_all)

lemma conc_ok_cancelled:
  assumes ok: "conc_ok s" and "p_state (sy_heap s a) = WAITING"
    and "\<And>b. p_state (h' b) = (if b = a then EVICTED else p_state (sy_heap s b))"
  shows "conc_ok (s\<lparr>sy_heap := h'\<rparr>)"
proof (rule conc_okI)
  let ?t = "s\<lparr>sy_heap := h'\<rparr>"
  have st: "p_state (h' b) = p_state (sy_heap s b)" if "p_state (sy_heap s b) \<noteq> WAITING" for b
    using that assms(2,3) by auto
  show "b < sy_next ?t \<and> p_state (sy_heap ?t b) = CLAIMED" if "b \<in> live (sy_phase ?t w)" for w b
    using that conc_okD(2) [OF ok, of b w] by (simp add: st)
  show "b < sy_next ?t \<and> p_state (sy_heap ?t b) = MATCHED \<and> b \<notin> set (concat (sy_matches ?t))"
    if "b \<in> marked (sy_phase ?t w)" for w b
    using that conc_okD(3) [OF ok, of b w] by (simp add: st)
  show "v = v'" if "b \<in> held (sy_phase ?t v)" "b \<in> held (sy_phase ?t v')" for v v' b
    using that conc_okD(4) [OF ok, of b v v'] by simp
  show "b < sy_next ?t \<and> p_state (sy_heap ?t b) = MATCHED" if "b \<in> set (concat (sy_matches ?t))" for b
    using that conc_okD(5) [OF ok, of b] by (simp add: st)
  show "\<exists>w. b \<in> live (sy_phase ?t w)" if "b < sy_next ?t" "p_state (sy_heap ?t b) = CLAIMED" for b
    using that conc_okD(8) [OF ok, of b] by (auto simp: assms(3) split: if_splits)
qed (use conc_okD(1,6,7) [OF ok] in simp_all)

lemma conc_ok_quiet:
  assumes ok: "conc_ok s" and "\<And>b. p_state (h' b) = p_state (sy_heap s b)"
  shows "conc_ok (s\<lparr>sy_heap := h', sy_reaper := rp\<rparr>)"
  using ok by (simp add: conc_ok_def assms(2))

lemma conc_ok_step: "conc_step s t \<Longrightarrow> conc_ok s \<Longrightarrow> conc_ok t"
proof (induction rule: conc_step.induct)
  case (enqueued a s now i r)
  then show ?case using conc_ok_enqueued [of s now i r] by simp
next
  case (cancelled a s p)
  then show ?case
    using conc_ok_cancelled [of s a "(sy_heap s)(a := p)"] by (simp add: compare_exchange_True)
next
  case (scanned s w cs)
  then show ?case
    by - (rule worker_keeps [where s = s and w = w and p' = "Claiming cs []"]; auto simp: worker_moves_def)
next
  case (claim_won s w a cs as p)
  from conc_okD(1) [OF claim_won.prems, of w] claim_won.hyps(1,2)
  have ph: "distinct as" "length as < MATCH_SIZE" "a < sy_next s" "set cs \<subseteq> {..<sy_next s}" by auto
  have st: "p_state (sy_heap s a) = WAITING" "p = (sy_heap s a)\<lparr>p_state := CLAIMED\<rparr>"
    using claim_won.hyps(3) by (simp_all add: compare_exchange_True)
  have "a \<notin> set as"
    using st(1) conc_okD(2) [OF claim_won.prems, of a w] claim_won.hyps(1) by auto
  with claim_won.hyps(1) claim_won.prems ph st show ?case
    by - (rule worker_wins [where s = s and w = w and p' = "Stamp_owner a cs as" and a = a]; simp_all add: worker_moves_def)
next
  case (claim_lost s w a cs as p)
  with conc_okD(1) [OF claim_lost.prems, of w] show ?case
    by - (rule worker_keeps [where s = s and w = w and p' = "Claiming cs as"]; simp_all add: worker_moves_def)
next
  case (owner_stamped s w a cs as)
  with conc_okD(1) [OF owner_stamped.prems, of w] show ?case
    by - (rule worker_keeps [where s = s and w = w and p' = "Stamp_time a cs as"]; simp_all add: worker_moves_def)
next
  case (time_stamped s w a cs as t)
  with conc_okD(1) [OF time_stamped.prems, of w] show ?case
    by - (rule worker_keeps [where s = s and w = w and p' = "Claiming cs (as @ [a])"]; simp_all add: worker_moves_def)
next
  case (too_few s w as)
  with conc_okD(1) [OF too_few.prems, of w] show ?case
    by - (rule worker_keeps [where s = s and w = w and p' = "Release_owner as"]; simp_all add: worker_moves_def)
next
  case (owner_released s w a as)
  with conc_okD(1) [OF owner_released.prems, of w] show ?case
    by - (rule worker_keeps [where s = s and w = w and p' = "Release_time (a # as)"]; simp_all add: worker_moves_def)
next
  case (time_released s w a as)
  with conc_okD(1) [OF time_released.prems, of w] show ?case
    by - (rule worker_keeps [where s = s and w = w and p' = "Release_state (a # as)"]; simp_all add: worker_moves_def)
next
  case (state_released s w a as)
  have "p_state (sy_heap s a) = CLAIMED"
    using conc_okD(2) [OF state_released.prems, of a w] state_released.hyps by simp
  with state_released conc_okD(1) [OF state_released.prems, of w] show ?case
    by - (rule worker_leaves [where s = s and w = w and p' = "Release_owner as" and a = a and new = WAITING]; simp_all add: worker_moves_def compare_exchange_def)
next
  case (all_released s w)
  then show ?case
    by - (rule worker_keeps [where s = s and w = w and p' = Idle]; simp_all add: worker_moves_def)
next
  case (enough s w cs as)
  with conc_okD(1) [OF enough.prems, of w] show ?case
    by - (rule worker_keeps [where s = s and w = w and p' = "Mark_time as as"]; simp_all add: worker_moves_def)
next
  case (match_timed s w a todo as now)
  with conc_okD(1) [OF match_timed.prems, of w] show ?case
    by - (rule worker_keeps [where s = s and w = w and p' = "Mark_state (a # todo) as"]; simp_all add: worker_moves_def)
next
  case (state_marked s w a todo as)
  have "p_state (sy_heap s a) = CLAIMED"
    using conc_okD(2) [OF state_marked.prems, of a w] state_marked.hyps by simp
  with state_marked conc_okD(1) [OF state_marked.prems, of w] show ?case
    by - (rule worker_leaves [where s = s and w = w and p' = "Mark_time todo as" and a = a and new = MATCHED]; auto simp: worker_moves_def compare_exchange_def)
next
  case (all_marked s w as)
  with conc_okD(1) [OF all_marked.prems, of w] show ?case
    by - (rule worker_keeps [where s = s and w = w and p' = "Unlink_primary as as"]; simp_all add: worker_moves_def)
next
  case (primary_unlinked s w a todo as)
  with conc_okD(1) [OF primary_unlinked.prems, of w] show ?case
    by - (rule worker_keeps [where s = s and w = w and p' = "Unlink_index (a # todo) as"]; simp_all add: worker_moves_def)
next
  case (primary_absent s w a todo as)
  with conc_okD(1) [OF primary_absent.prems, of w] show ?case
    by - (rule worker_keeps [where s = s and w = w and p' = "Unlink_primary todo as"]; simp_all add: worker_moves_def)
next
  case (index_unlinked s w a todo as)
  with conc_okD(1) [OF index_unlinked.prems, of w] show ?case
    by - (rule worker_keeps [where s = s and w = w and p' = "Unlink_primary todo as"]; simp_all add: worker_moves_def)
next
  case (published s w as)
  with conc_okD(1) [OF published.prems, of w] show ?case
    by - (rule worker_publishes [where s = s and w = w and p' = "Count_match as" and as = as]; simp_all add: worker_moves_def)
next
  case (match_counted s w as)
  then show ?case
    by - (rule worker_keeps [where s = s and w = w and p' = Idle]; simp_all add: worker_moves_def)
next
  case (crashed s w)
  then show ?case
    by - (rule worker_keeps [where s = s and w = w and p' = "Crashed (live (sy_phase s w)) (unlinked (sy_phase s w)) (linked (sy_phase s w))"];
      simp_all add: worker_moves_def)
next
  case (reaped s w A U L a p)
  have "p = (sy_heap s a)\<lparr>p_state := WAITING\<rparr>" using reaped.hyps(4) by (simp add: compare_exchange_True)
  with reaped show ?case
    by - (rule worker_leaves [where s = s and w = w and p' = "Crashed (A - {a}) U L" and a = a and new = WAITING]; auto simp: worker_moves_def)
next
  case (owner_cleared s a)
  then show ?case by - (rule conc_ok_quiet; simp)
next
  case (time_cleared s a)
  then show ?case by - (rule conc_ok_quiet; simp)
qed simp_all

lemma conc_ok_init: "conc_init s \<Longrightarrow> conc_ok s"
  by (simp add: conc_init_def conc_ok_def held_def)

interpretation concurrent: inductive_invariant conc_init conc_step conc_ok
  by unfold_locales (auto intro: conc_ok_init conc_ok_step)

section \<open>Terminal states\<close>

lemma terminal_step:
  "conc_step s t \<Longrightarrow> a < sy_next s \<Longrightarrow> p_state (sy_heap s a) = x \<Longrightarrow> x = MATCHED \<or> x = EVICTED \<Longrightarrow>
   a < sy_next t \<and> p_state (sy_heap t a) = x"
  by (induction rule: conc_step.induct) (auto simp: compare_exchange_def split: if_splits)

lemma terminal_steps:
  assumes "conc_step\<^sup>*\<^sup>* s t" and "a < sy_next s" and "p_state (sy_heap s a) = x" and "x = MATCHED \<or> x = EVICTED"
  shows "a < sy_next t \<and> p_state (sy_heap t a) = x"
  using assms(1) by induction (use assms(2-4) terminal_step in blast)+

end
