(* ===== verification/Runs.thy ===== *)
theory Runs
  imports Ownership
begin

text \<open>
  Runs without interference: the atomic steps of one worker add up to the operations of the
  sequential model (claim loop, rollback, marking, removal), and an example system that ran.
\<close>

section \<open>Undisturbed runs are the operations of the sequential model\<close>

lemma sys_unchanged: "sy_phase s w = p \<Longrightarrow> s\<lparr>sy_phase := (sy_phase s)(w := p)\<rparr> = s"
  using fun_upd_idem [of "sy_phase s" w p] by simp

lemma step_run: "conc_step s t \<Longrightarrow> conc_step\<^sup>*\<^sup>* t u \<Longrightarrow> conc_step\<^sup>*\<^sup>* s u"
  by (rule converse_rtranclp_into_rtranclp)

lemma step_to: "conc_step s t \<Longrightarrow> t = t' \<Longrightarrow> conc_step s t'"
  by simp

text \<open>One claim: the compare-and-swap and the two stores are \<open>try_claim\<close>.\<close>

lemma claim_run:
  assumes "sy_phase s w = Claiming (a # cs) as" and "length as \<noteq> MATCH_SIZE"
  shows "conc_step\<^sup>*\<^sup>* s (s\<lparr>sy_heap := (sy_heap s)(a := snd (try_claim w t (sy_heap s a))),
    sy_phase := (sy_phase s)(w := Claiming cs (if fst (try_claim w t (sy_heap s a)) then as @ [a] else as))\<rparr>)"
proof (cases "p_state (sy_heap s a) = WAITING")
  case True
  let ?p = "(sy_heap s a)\<lparr>p_state := CLAIMED\<rparr>"
  let ?s1 = "s\<lparr>sy_heap := (sy_heap s)(a := ?p), sy_phase := (sy_phase s)(w := Stamp_owner a cs as)\<rparr>"
  let ?s2 = "s\<lparr>sy_heap := (sy_heap s)(a := ?p\<lparr>p_claimed_by := w\<rparr>), sy_phase := (sy_phase s)(w := Stamp_time a cs as)\<rparr>"
  have "conc_step s ?s1" by (rule claim_won [OF assms]) (simp add: compare_exchange_True True)
  moreover have "conc_step ?s1 ?s2" using owner_stamped [of ?s1 w a cs as] by simp
  moreover have "conc_step ?s2 (s\<lparr>sy_heap := (sy_heap s)(a := ?p\<lparr>p_claimed_by := w, p_claim_timestamp := t\<rparr>),
      sy_phase := (sy_phase s)(w := Claiming cs (as @ [a]))\<rparr>)"
    using time_stamped [of ?s2 w a cs as t] by simp
  ultimately show ?thesis
    using True by (simp add: try_claim_step)
next
  case False
  then have "conc_step s (s\<lparr>sy_phase := (sy_phase s)(w := Claiming cs as)\<rparr>)"
    by (intro claim_lost [OF assms]) (simp add: compare_exchange_def)
  with False show ?thesis by (simp add: try_claim_step r_into_rtranclp)
qed

text \<open>The whole loop, up to the point where it stops.\<close>

lemma claim_loop_run:
  "sy_phase s w = Claiming cs as \<Longrightarrow> length as \<le> MATCH_SIZE \<Longrightarrow>
   \<exists>rest. conc_step\<^sup>*\<^sup>* s (s\<lparr>sy_heap := fst (claim_loop w t (sy_heap s) as cs),
     sy_phase := (sy_phase s)(w := Claiming rest (snd (claim_loop w t (sy_heap s) as cs)))\<rparr>) \<and>
     (rest = [] \<or> length (snd (claim_loop w t (sy_heap s) as cs)) = MATCH_SIZE)"
proof (induction cs arbitrary: s as)
  case Nil
  then show ?case by (intro exI [of _ "[]"]) (simp del: fun_upd_apply add: sys_unchanged)
next
  case (Cons a cs)
  show ?case
  proof (cases "length as = MATCH_SIZE")
    case True
    with Cons.prems(1) show ?thesis
      by (intro exI [of _ "a # cs"]) (simp del: fun_upd_apply add: sys_unchanged)
  next
    case False
    obtain b p where won: "try_claim w t (sy_heap s a) = (b, p)" by force
    let ?s = "s\<lparr>sy_heap := (sy_heap s)(a := p), sy_phase := (sy_phase s)(w := Claiming cs (if b then as @ [a] else as))\<rparr>"
    have run: "conc_step\<^sup>*\<^sup>* s ?s" using claim_run [OF Cons.prems(1) False, of t] by (simp add: won)
    obtain h' got where res: "claim_loop w t (sy_heap s) as (a # cs) = (h', got)" by force
    have loop: "claim_loop w t (sy_heap ?s) (if b then as @ [a] else as) cs = (h', got)"
      using False res by (simp add: won split: bool.splits)
    have "length (if b then as @ [a] else as) \<le> MATCH_SIZE" using False Cons.prems(2) by simp
    from Cons.IH [of ?s, OF _ this] loop obtain rest where
      "conc_step\<^sup>*\<^sup>* ?s (s\<lparr>sy_heap := h', sy_phase := (sy_phase s)(w := Claiming rest got)\<rparr>)"
      "rest = [] \<or> length got = MATCH_SIZE"
      by (auto simp del: fun_upd_apply simp: fun_upd_same)
    with run show ?thesis
      unfolding res by (intro exI [of _ rest]) (auto intro: rtranclp_trans simp del: fun_upd_apply)
  qed
qed

lemma release_run:
  "sy_phase s w = Release_owner as \<Longrightarrow>
   conc_step\<^sup>*\<^sup>* s (s\<lparr>sy_heap := release_all as (sy_heap s), sy_phase := (sy_phase s)(w := Idle)\<rparr>)"
proof (induction as arbitrary: s)
  case Nil
  have "conc_step s (s\<lparr>sy_heap := sy_heap s, sy_phase := (sy_phase s)(w := Idle)\<rparr>)"
    using all_released [OF Nil] by simp
  then show ?case by (simp del: fun_upd_apply add: release_all_def r_into_rtranclp)
next
  case (Cons a as)
  let ?p = "(sy_heap s a)\<lparr>p_claimed_by := 0\<rparr>"
  let ?s1 = "s\<lparr>sy_heap := (sy_heap s)(a := ?p), sy_phase := (sy_phase s)(w := Release_time (a # as))\<rparr>"
  let ?s2 = "s\<lparr>sy_heap := (sy_heap s)(a := ?p\<lparr>p_claim_timestamp := 0\<rparr>), sy_phase := (sy_phase s)(w := Release_state (a # as))\<rparr>"
  let ?s3 = "s\<lparr>sy_heap := (sy_heap s)(a := release_claim (sy_heap s a)), sy_phase := (sy_phase s)(w := Release_owner as)\<rparr>"
  have "conc_step s ?s1" by (rule owner_released [OF Cons.prems])
  moreover have "conc_step ?s1 ?s2" using time_released [of ?s1 w a as] by simp
  moreover have "conc_step ?s2 ?s3" using state_released [of ?s2 w a as] by (simp add: release_claim_def)
  moreover have "conc_step\<^sup>*\<^sup>* ?s3 (s\<lparr>sy_heap := release_all (a # as) (sy_heap s), sy_phase := (sy_phase s)(w := Idle)\<rparr>)"
    using Cons.IH [of ?s3] by (simp del: fun_upd_apply add: release_all_def fun_upd_same)
  ultimately show ?case by (meson step_run)
qed

lemma mark_run:
  "sy_phase s w = Mark_time todo as \<Longrightarrow>
   conc_step\<^sup>*\<^sup>* s (s\<lparr>sy_heap := mark_all now todo (sy_heap s), sy_phase := (sy_phase s)(w := Mark_time [] as)\<rparr>)"
proof (induction todo arbitrary: s)
  case Nil
  then show ?case by (simp del: fun_upd_apply add: sys_unchanged mark_all_def)
next
  case (Cons a todo)
  let ?s1 = "s\<lparr>sy_heap := (sy_heap s)(a := (sy_heap s a)\<lparr>p_matched_at := Some (now a)\<rparr>),
    sy_phase := (sy_phase s)(w := Mark_state (a # todo) as)\<rparr>"
  let ?s2 = "s\<lparr>sy_heap := (sy_heap s)(a := mark_matched (now a) (sy_heap s a)), sy_phase := (sy_phase s)(w := Mark_time todo as)\<rparr>"
  have "conc_step s ?s1" by (rule match_timed [OF Cons.prems])
  moreover have "conc_step ?s1 ?s2" using state_marked [of ?s1 w a todo as] by (simp add: mark_matched_def)
  moreover have "conc_step\<^sup>*\<^sup>* ?s2 (s\<lparr>sy_heap := mark_all now (a # todo) (sy_heap s), sy_phase := (sy_phase s)(w := Mark_time [] as)\<rparr>)"
    using Cons.IH [of ?s2] by (simp del: fun_upd_apply add: mark_all_def fun_upd_same)
  ultimately show ?case by (meson step_run)
qed

text \<open>Removing the matched players from primary store and index, as \<open>PlayerPool::remove\<close> does.\<close>

fun unlink_all :: "addr list \<Rightarrow> addr set \<times> addr set \<Rightarrow> addr set \<times> addr set" where
  "unlink_all [] PI = PI"
| "unlink_all (a # as) (P, I) = unlink_all as (if a \<in> P then (P - {a}, I - {a}) else (P, I))"

lemma unlink_all_primary: "fst (unlink_all as (P, I)) = P - set as"
  by (induction as arbitrary: P I) auto

lemma unlink_all_index: "distinct as \<Longrightarrow> set as \<subseteq> P \<Longrightarrow> snd (unlink_all as (P, I)) = I - set as"
proof (induction as arbitrary: P I)
  case (Cons a as)
  then have "set as \<subseteq> P - {a}" by auto
  with Cons show ?case by auto
qed simp

abbreviation with_pool :: "addr set \<times> addr set \<Rightarrow> sys \<Rightarrow> sys" where
  "with_pool PI s \<equiv> s\<lparr>sy_primary := fst PI, sy_index := snd PI\<rparr>"

lemma unlink_run:
  "sy_phase s w = Unlink_primary todo as \<Longrightarrow>
   conc_step\<^sup>*\<^sup>* s (with_pool (unlink_all todo (sy_primary s, sy_index s))
     (s\<lparr>sy_phase := (sy_phase s)(w := Unlink_primary [] as)\<rparr>))"
proof (induction todo arbitrary: s)
  case Nil
  then show ?case by (simp del: fun_upd_apply add: sys_unchanged)
next
  case (Cons a todo)
  let ?next = "(sy_phase s)(w := Unlink_primary todo as)"
  show ?case
  proof (cases "a \<in> sy_primary s")
    case True
    let ?s1 = "s\<lparr>sy_primary := sy_primary s - {a}, sy_phase := (sy_phase s)(w := Unlink_index (a # todo) as)\<rparr>"
    let ?s2 = "s\<lparr>sy_primary := sy_primary s - {a}, sy_index := sy_index s - {a}, sy_phase := ?next\<rparr>"
    have "conc_step s ?s1" by (rule primary_unlinked [OF Cons.prems True])
    moreover have "conc_step ?s1 ?s2" using index_unlinked [of ?s1 w a todo as] by simp
    ultimately show ?thesis
      using Cons.IH [of ?s2] True by (simp del: fun_upd_apply add: fun_upd_same step_run)
  next
    case False
    let ?s1 = "s\<lparr>sy_phase := ?next\<rparr>"
    have "conc_step s ?s1" by (rule primary_absent [OF Cons.prems False])
    then show ?thesis
      using Cons.IH [of ?s1] False by (simp del: fun_upd_apply add: fun_upd_same step_run)
  qed
qed

text \<open>An idle worker's whole attempt, run without interference, once it has its candidates.\<close>

definition attempt_alone :: "u64 \<Rightarrow> u64 \<Rightarrow> (addr \<Rightarrow> instant) \<Rightarrow> addr list \<Rightarrow> sys \<Rightarrow> sys" where
  "attempt_alone w t now cs s =
     (let (h, as) = claim_loop w t (sy_heap s) [] cs
      in if length as < MATCH_SIZE then s\<lparr>sy_heap := release_all as h\<rparr>
         else with_pool (unlink_all as (sy_primary s, sy_index s))
           (s\<lparr>sy_heap := mark_all now as h, sy_matches := as # sy_matches s,
              sy_gauge := sy_gauge s - int MATCH_SIZE\<rparr>))"

lemma claim_loop_length: "length as \<le> MATCH_SIZE \<Longrightarrow> length (snd (claim_loop w t h as cs)) \<le> MATCH_SIZE"
  by (induction w t h as cs rule: claim_loop.induct) (auto split: prod.splits bool.splits)

lemma finish_run:
  assumes phase: "sy_phase s w = Mark_time as as"
  shows "conc_step\<^sup>*\<^sup>* s (with_pool (unlink_all as (sy_primary s, sy_index s))
    (s\<lparr>sy_heap := mark_all now as (sy_heap s), sy_matches := as # sy_matches s,
       sy_gauge := sy_gauge s - int MATCH_SIZE, sy_phase := (sy_phase s)(w := Idle)\<rparr>))"
proof -
  let ?ph = "\<lambda>p. (sy_phase s)(w := p)"
  let ?m = "s\<lparr>sy_heap := mark_all now as (sy_heap s), sy_phase := ?ph (Mark_time [] as)\<rparr>"
  let ?u = "s\<lparr>sy_heap := mark_all now as (sy_heap s), sy_phase := ?ph (Unlink_primary as as)\<rparr>"
  let ?PI = "unlink_all as (sy_primary s, sy_index s)"
  let ?v = "with_pool ?PI (s\<lparr>sy_heap := mark_all now as (sy_heap s), sy_phase := ?ph (Unlink_primary [] as)\<rparr>)"
  let ?c = "with_pool ?PI (s\<lparr>sy_heap := mark_all now as (sy_heap s), sy_matches := as # sy_matches s,
      sy_phase := ?ph (Count_match as)\<rparr>)"
  have "conc_step\<^sup>*\<^sup>* s ?m" by (rule mark_run [OF phase])
  also have "conc_step ?m ?u" using all_marked [of ?m w as] by simp
  also have "conc_step\<^sup>*\<^sup>* ?u ?v"
    using unlink_run [of ?u w as as] by (simp del: fun_upd_apply add: fun_upd_same)
  also have "conc_step ?v ?c" by (rule step_to, rule published [of ?v w as]) simp_all
  also have "conc_step ?c (with_pool ?PI (s\<lparr>sy_heap := mark_all now as (sy_heap s), sy_matches := as # sy_matches s,
      sy_gauge := sy_gauge s - int MATCH_SIZE, sy_phase := ?ph Idle\<rparr>))"
    by (rule step_to, rule match_counted [of ?c w as]) simp_all
  finally show ?thesis .
qed

lemma attempt_run:
  assumes idle: "sy_phase s w = Idle" and cs: "\<forall>a \<in> set cs. a < sy_next s \<and> filed s a"
  shows "conc_step\<^sup>*\<^sup>* s (attempt_alone w t now cs s)"
proof -
  obtain h as where res: "claim_loop w t (sy_heap s) [] cs = (h, as)" by force
  let ?s1 = "s\<lparr>sy_phase := (sy_phase s)(w := Claiming cs [])\<rparr>"
  have first: "conc_step s ?s1" by (rule scanned [OF idle cs])
  obtain rest where claims:
      "conc_step\<^sup>*\<^sup>* ?s1 (s\<lparr>sy_heap := h, sy_phase := (sy_phase s)(w := Claiming rest as)\<rparr>)"
      and rest: "rest = [] \<or> length as = MATCH_SIZE"
    using claim_loop_run [of ?s1 w cs "[]" t] res by auto
  have scan: "conc_step\<^sup>*\<^sup>* s (s\<lparr>sy_heap := h, sy_phase := (sy_phase s)(w := Claiming rest as)\<rparr>)"
    by (rule step_run [OF first claims])
  have idle_again: "(sy_phase s)(w := Idle) = sy_phase s" by (rule fun_upd_idem) (rule idle)
  let ?r = "\<lambda>p. s\<lparr>sy_heap := h, sy_phase := (sy_phase s)(w := p)\<rparr>"
  show ?thesis
  proof (cases "length as < MATCH_SIZE")
    case True
    with rest have "rest = []" by auto
    with True have "conc_step (?r (Claiming rest as)) (?r (Release_owner as))"
      using too_few [of "?r (Claiming [] as)" w as] by simp
    moreover have "conc_step\<^sup>*\<^sup>* (?r (Release_owner as)) (s\<lparr>sy_heap := release_all as h\<rparr>)"
      using release_run [of "?r (Release_owner as)" w as] by (simp del: fun_upd_apply add: fun_upd_same idle_again)
    ultimately show ?thesis
      unfolding attempt_alone_def res using scan True by (auto intro: rtranclp_trans [OF scan] step_run)
  next
    case False
    with claim_loop_length [of "[]" w t "sy_heap s" cs] have len: "length as = MATCH_SIZE"
      by (simp add: res)
    have "conc_step (?r (Claiming rest as)) (?r (Mark_time as as))"
      using enough [of "?r (Claiming rest as)" w rest as] len by simp
    moreover have "conc_step\<^sup>*\<^sup>* (?r (Mark_time as as)) (attempt_alone w t now cs s)"
      using finish_run [of "?r (Mark_time as as)" w as now] False
      by (simp del: fun_upd_apply add: fun_upd_same idle_again attempt_alone_def res)
    ultimately show ?thesis by (rule rtranclp_trans [OF scan step_run])
  qed
qed

lemma attempt_alone_waiting:
  assumes "distinct cs" and "MATCH_SIZE \<le> length (filter (\<lambda>a. is_waiting (sy_heap s a)) cs)"
  defines "as \<equiv> take MATCH_SIZE (filter (\<lambda>a. is_waiting (sy_heap s a)) cs)"
  shows "sy_matches (attempt_alone w t now cs s) = as # sy_matches s"
    and "sy_primary (attempt_alone w t now cs s) = sy_primary s - set as"
    and "set as \<subseteq> sy_primary s \<Longrightarrow> sy_index (attempt_alone w t now cs s) = sy_index s - set as"
    and "sy_gauge (attempt_alone w t now cs s) = sy_gauge s - 10"
    and "sy_heap (attempt_alone w t now cs s) =
      mark_all now (snd (claim_loop w t (sy_heap s) [] cs)) (fst (claim_loop w t (sy_heap s) [] cs))"
proof -
  have got: "snd (claim_loop w t (sy_heap s) [] cs) = as"
    using assms by (simp add: claim_loop_eq Let_def)
  have long: "\<not> length as < MATCH_SIZE" and distinct: "distinct as" using assms by simp_all
  have run: "attempt_alone w t now cs s = with_pool (unlink_all as (sy_primary s, sy_index s))
      (s\<lparr>sy_heap := mark_all now as (fst (claim_loop w t (sy_heap s) [] cs)), sy_matches := as # sy_matches s,
         sy_gauge := sy_gauge s - int MATCH_SIZE\<rparr>)"
    using long by (simp add: attempt_alone_def split_beta got)
  show "sy_matches (attempt_alone w t now cs s) = as # sy_matches s"
    and "sy_primary (attempt_alone w t now cs s) = sy_primary s - set as"
    and "set as \<subseteq> sy_primary s \<Longrightarrow> sy_index (attempt_alone w t now cs s) = sy_index s - set as"
    and "sy_gauge (attempt_alone w t now cs s) = sy_gauge s - 10"
    and "sy_heap (attempt_alone w t now cs s) =
      mark_all now (snd (claim_loop w t (sy_heap s) [] cs)) (fst (claim_loop w t (sy_heap s) [] cs))"
    by (simp_all add: run got unlink_all_primary unlink_all_index [OF distinct] MATCH_SIZE_def)
qed

section \<open>A system that ran\<close>

text \<open>Players join one after the other, and then worker 1 matches ten of eleven.\<close>

definition demo_start :: sys where
  "demo_start =
     \<lparr>sy_heap = (\<lambda>a. player_new 0 0 0), sy_next = 0, sy_phase = (\<lambda>w. Idle), sy_reaper = Scanning,
      sy_matches = [], sy_enqueue = (\<lambda>a. Done), sy_cancel = (\<lambda>a. Done), sy_primary = {},
      sy_index = {}, sy_gauge = 0\<rparr>"

definition demo_queued :: "nat \<Rightarrow> sys" where
  "demo_queued n = demo_start\<lparr>
     sy_heap := (\<lambda>a. if a < n then player_new a (word_of_nat (Suc a)) 1000 else player_new 0 0 0),
     sy_next := n, sy_primary := {..<n}, sy_index := {..<n}, sy_gauge := int n\<rparr>"

definition demo_matched :: sys where
  "demo_matched = attempt_alone 1 99 (\<lambda>a. 50) [0..<11] (demo_queued 11)"

lemma demo_queued_Suc: "conc_step\<^sup>*\<^sup>* (demo_queued n) (demo_queued (Suc n))"
proof -
  let ?q = "demo_queued n"
  let ?e = "\<lambda>st. (sy_enqueue ?q)(n := st)"
  have heap: "(sy_heap ?q)(n := player_new n (word_of_nat (Suc n)) 1000) = sy_heap (demo_queued (Suc n))"
    by (rule ext) (simp add: demo_queued_def less_Suc_eq)
  let ?s = "\<lambda>st. ?q\<lparr>sy_heap := sy_heap (demo_queued (Suc n)), sy_next := Suc n, sy_enqueue := ?e st\<rparr>"
  have next_q: "sy_next ?q = n" by (simp add: demo_queued_def)
  have "conc_step\<^sup>*\<^sup>* ?q ?q" by simp
  also have "conc_step ?q (?s At_primary)"
    by (rule step_to, rule enqueued [of n ?q n "word_of_nat (Suc n)" 1000]) (simp_all only: heap next_q)
  also have "conc_step (?s At_primary) (?s At_index\<lparr>sy_primary := insert n (sy_primary ?q)\<rparr>)"
    by (rule step_to, rule primary_inserted [of "?s At_primary" n]) simp_all
  also have "conc_step (?s At_index\<lparr>sy_primary := insert n (sy_primary ?q)\<rparr>)
      (?s At_metrics\<lparr>sy_primary := insert n (sy_primary ?q), sy_index := insert n (sy_index ?q)\<rparr>)"
    by (rule step_to, rule index_inserted [of _ n]) simp_all
  also have "conc_step (?s At_metrics\<lparr>sy_primary := insert n (sy_primary ?q), sy_index := insert n (sy_index ?q)\<rparr>)
      (?s Done\<lparr>sy_primary := insert n (sy_primary ?q), sy_index := insert n (sy_index ?q), sy_gauge := sy_gauge ?q + 1\<rparr>)"
    by (rule step_to, rule enqueue_counted [of _ n]) simp_all
  finally have "conc_step\<^sup>*\<^sup>* ?q
      (?s Done\<lparr>sy_primary := insert n (sy_primary ?q), sy_index := insert n (sy_index ?q), sy_gauge := sy_gauge ?q + 1\<rparr>)" .
  moreover have "?s Done\<lparr>sy_primary := insert n (sy_primary ?q), sy_index := insert n (sy_index ?q), sy_gauge := sy_gauge ?q + 1\<rparr> =
      demo_queued (Suc n)"
    by (simp add: demo_queued_def demo_start_def lessThan_Suc fun_upd_idem)
  ultimately show ?thesis by simp
qed

lemma demo_queued_run: "conc_step\<^sup>*\<^sup>* (demo_queued 0) (demo_queued n)"
  by (induction n) (auto intro: rtranclp_trans demo_queued_Suc)

lemma reach_steps: "step\<^sup>*\<^sup>* s t \<Longrightarrow> reach init step s \<Longrightarrow> reach init step t"
  by (induction rule: rtranclp_induct) (auto intro: reach_step)

lemma demo_queued_reach: "reach conc_init conc_step (demo_queued n)"
proof (rule reach_steps [OF demo_queued_run])
  show "reach conc_init conc_step (demo_queued 0)"
    by (rule reach_init) (simp add: conc_init_def demo_queued_def demo_start_def)
qed

lemma demo_queued_fields:
  "sy_next (demo_queued n) = n" "sy_phase (demo_queued n) w = Idle" "sy_matches (demo_queued n) = []"
  "a < n \<Longrightarrow> is_waiting (sy_heap (demo_queued n) a)" "filed (demo_queued n) a"
  "sy_primary (demo_queued n) = {..<n}" "sy_gauge (demo_queued n) = int n"
  "sy_enqueue (demo_queued n) a = Done" "sy_cancel (demo_queued n) a = Done"
  by (simp_all add: demo_queued_def demo_start_def is_waiting_def player_new_def filed_def)

lemma demo_matched_run: "conc_step\<^sup>*\<^sup>* (demo_queued 11) demo_matched"
  unfolding demo_matched_def by (rule attempt_run) (auto simp: demo_queued_fields)

lemma demo_matched_reach: "reach conc_init conc_step demo_matched"
  by (rule reach_steps [OF demo_matched_run demo_queued_reach])

lemma demo_filter: "filter (\<lambda>a. is_waiting (sy_heap (demo_queued 11) a)) [0..<11] = [0..<11]"
  by (rule filter_True) (auto simp: demo_queued_fields)

lemma demo_matched_fields:
  "sy_matches demo_matched = [[0..<10]]" "sy_primary demo_matched = {10}" "sy_gauge demo_matched = 1"
proof -
  have ten: "MATCH_SIZE \<le> length (filter (\<lambda>a. is_waiting (sy_heap (demo_queued 11) a)) [0..<11])"
    by (simp only: demo_filter length_upt MATCH_SIZE_def)
  have take: "take MATCH_SIZE (filter (\<lambda>a. is_waiting (sy_heap (demo_queued 11) a)) [0..<11]) = [0..<10]"
    by (simp add: demo_filter MATCH_SIZE_def take_upt del: upt_rec_numeral)
  note run = attempt_alone_waiting [OF distinct_upt ten, of 1 99 "\<lambda>a. 50", folded demo_matched_def, unfolded take]
  show "sy_matches demo_matched = [[0..<10]]" by (simp only: run demo_queued_fields)
  show "sy_primary demo_matched = {10}" by (auto simp: run demo_queued_fields simp del: upt_rec_numeral)
  show "sy_gauge demo_matched = 1" by (simp add: run demo_queued_fields)
qed

end
