(* ===== verification/Accounting.thy ===== *)
theory Accounting
  imports Ownership
begin

text \<open>
  The pool and the gauge under interleaving: where a player is filed in each state of his
  lifecycle and at each stage of the handlers that touch him, and what the gauge
  \<open>current_queue_size\<close> is off by while operations are in progress.
\<close>

section \<open>Where a player is filed\<close>

text \<open>
  State word, stage of the enqueue, stage of the cancellation, membership in the primary store
  and in the index.  An evicted player may be left in the index when his cancellation overtakes
  the index insertion of his enqueue; such an entry is dead.
\<close>

definition entry_ok :: "u8 \<Rightarrow> handler \<Rightarrow> handler \<Rightarrow> bool \<Rightarrow> bool \<Rightarrow> bool" where
  "entry_ok st e c in_primary in_index \<longleftrightarrow>
     st \<in> {WAITING, CLAIMED, MATCHED, EVICTED} \<and>
     (st \<in> {WAITING, CLAIMED} \<longrightarrow> (in_primary \<longleftrightarrow> e \<noteq> At_primary) \<and> (in_index \<longleftrightarrow> e \<in> {At_metrics, Done})) \<and>
     (st \<in> {CLAIMED, MATCHED} \<longrightarrow> e \<in> {At_metrics, Done}) \<and>
     (st \<noteq> EVICTED \<longrightarrow> c = Done) \<and>
     (st = EVICTED \<longrightarrow> e \<noteq> At_primary \<and> (in_primary \<longleftrightarrow> c = At_primary))"

fun cands :: "phase \<Rightarrow> addr set" where
  "cands (Claiming cs as) = set cs"
| "cands (Stamp_owner a cs as) = set cs"
| "cands (Stamp_time a cs as) = set cs"
| "cands _ = {}"

abbreviation entry_at :: "sys \<Rightarrow> addr \<Rightarrow> bool" where
  "entry_at s a \<equiv> entry_ok (p_state (sy_heap s a)) (sy_enqueue s a) (sy_cancel s a)
     (a \<in> sy_primary s) (a \<in> sy_index s)"

definition unused :: "sys \<Rightarrow> addr \<Rightarrow> bool" where
  "unused s a \<longleftrightarrow> sy_enqueue s a = Done \<and> sy_cancel s a = Done \<and> a \<notin> sy_primary s \<and> a \<notin> sy_index s"

definition filing_ok :: "sys \<Rightarrow> bool" where
  "filing_ok s \<longleftrightarrow>
     (\<forall>a < sy_next s. entry_at s a) \<and> (\<forall>a \<ge> sy_next s. unused s a) \<and>
     (\<forall>w. \<forall>a \<in> cands (sy_phase s w). filed s a)"

lemma filing_okD:
  assumes "filing_ok s"
  shows "a < sy_next s \<Longrightarrow> entry_at s a" and "sy_next s \<le> a \<Longrightarrow> unused s a"
    and "a \<in> cands (sy_phase s w) \<Longrightarrow> filed s a"
  using assms by (auto simp: filing_ok_def)

text \<open>Nothing filed changes, and no worker gets new candidates.\<close>

lemma filing_same:
  assumes "filing_ok s" and "sy_next t = sy_next s"
    and "\<And>a. p_state (sy_heap t a) = p_state (sy_heap s a)"
    and "sy_enqueue t = sy_enqueue s" "sy_cancel t = sy_cancel s" "sy_primary t = sy_primary s" "sy_index t = sy_index s"
    and "\<And>w a. a \<in> cands (sy_phase t w) \<Longrightarrow> a \<in> cands (sy_phase s w) \<or> filed s a"
  shows "filing_ok t"
proof -
  have "filed s a" if "a \<in> cands (sy_phase t w)" for w a
    using assms(8) [OF that] filing_okD(3) [OF assms(1)] by blast
  with assms(1-7) show ?thesis by (simp add: filing_ok_def unused_def filed_def)
qed

text \<open>One player changes.\<close>

lemma filing_at:
  assumes "filing_ok s" and "sy_next t = sy_next s" and "a < sy_next s" and "entry_at t a"
    and "\<And>b. b \<noteq> a \<Longrightarrow> p_state (sy_heap t b) = p_state (sy_heap s b) \<and> sy_enqueue t b = sy_enqueue s b \<and>
      sy_cancel t b = sy_cancel s b \<and> (b \<in> sy_primary t \<longleftrightarrow> b \<in> sy_primary s) \<and> (b \<in> sy_index t \<longleftrightarrow> b \<in> sy_index s)"
    and "filed s a \<Longrightarrow> filed t a"
    and "\<And>w b. b \<in> cands (sy_phase t w) \<Longrightarrow> b \<in> cands (sy_phase s w)"
  shows "filing_ok t"
  unfolding filing_ok_def
proof (intro conjI allI ballI impI)
  fix b
  assume "b < sy_next t"
  then show "entry_at t b"
    using assms(2,4) assms(5) [of b] filing_okD(1) [OF assms(1), of b] by (cases "b = a") auto
next
  fix b
  assume "sy_next t \<le> b"
  then have "b \<noteq> a" "unused s b" using assms(2,3) filing_okD(2) [OF assms(1), of b] by auto
  then show "unused t b" using assms(5) [of b] by (simp add: unused_def)
next
  fix w b
  assume "b \<in> cands (sy_phase t w)"
  then have "filed s b" using assms(7) filing_okD(3) [OF assms(1)] by blast
  then show "filed t b" using assms(5) [of b] assms(6) by (cases "b = a") (auto simp: filed_def)
qed

lemma filing_stage: "filing_ok s \<Longrightarrow> sy_enqueue s a \<noteq> Done \<or> sy_cancel s a \<noteq> Done \<Longrightarrow> a < sy_next s"
  using filing_okD(2) [of s a] by (auto simp: unused_def not_less [symmetric])

lemma cands_upd [simp]: "cands ((f(w := p)) v) = (if v = w then cands p else cands (f v))"
  by simp

lemma filing_step: "conc_step s t \<Longrightarrow> conc_ok s \<Longrightarrow> filing_ok s \<Longrightarrow> filing_ok t"
proof (induction rule: conc_step.induct)
  case (enqueued a s now i r)
  have new: "entry_ok (p_state (player_new now i r)) At_primary Done False False"
    by (simp add: entry_ok_def player_new_def)
  show ?case
    unfolding filing_ok_def
  proof (intro conjI allI ballI impI, goal_cases)
    case (1 b)
    then show ?case
      using new filing_okD(1) [OF enqueued.prems(2), of b] filing_okD(2) [OF enqueued.prems(2), of a] enqueued.hyps
      by (auto simp: less_Suc_eq unused_def)
  next
    case (2 b)
    then show ?case
      using filing_okD(2) [OF enqueued.prems(2), of b] enqueued.hyps by (simp add: unused_def)
  next
    case (3 w b)
    then have "filed s b" using filing_okD(3) [OF enqueued.prems(2)] by simp
    moreover have "b < sy_next s"
      using 3 conc_okD(1) [OF enqueued.prems(1), of w] by (cases "sy_phase s w") auto
    ultimately show ?case using enqueued.hyps by (simp add: filed_def)
  qed
next
  case (primary_inserted s a)
  have a: "a < sy_next s" by (rule filing_stage [OF primary_inserted.prems(2)]) (simp add: primary_inserted.hyps)
  show ?case
    by (rule filing_at [OF primary_inserted.prems(2) _ a])
      (use primary_inserted.hyps filing_okD(1) [OF primary_inserted.prems(2) a] in \<open>auto simp: entry_ok_def filed_def\<close>)
next
  case (index_inserted s a)
  have a: "a < sy_next s" by (rule filing_stage [OF index_inserted.prems(2)]) (simp add: index_inserted.hyps)
  show ?case
    by (rule filing_at [OF index_inserted.prems(2) _ a])
      (use index_inserted.hyps filing_okD(1) [OF index_inserted.prems(2) a] in \<open>auto simp: entry_ok_def filed_def\<close>)
next
  case (enqueue_counted s a)
  have a: "a < sy_next s" by (rule filing_stage [OF enqueue_counted.prems(2)]) (simp add: enqueue_counted.hyps)
  show ?case
    by (rule filing_at [OF enqueue_counted.prems(2) _ a])
      (use enqueue_counted.hyps filing_okD(1) [OF enqueue_counted.prems(2) a] in \<open>auto simp: entry_ok_def filed_def\<close>)
next
  case (cancelled a s p)
  show ?case
    by (rule filing_at [OF cancelled.prems(2) _ cancelled.hyps(1)])
      (use cancelled.hyps filing_okD(1) [OF cancelled.prems(2) cancelled.hyps(1)] in
        \<open>auto simp: entry_ok_def filed_def compare_exchange_True\<close>)
next
  case (cancel_primary s a)
  have a: "a < sy_next s" by (rule filing_stage [OF cancel_primary.prems(2)]) (simp add: cancel_primary.hyps)
  show ?case
    by (rule filing_at [OF cancel_primary.prems(2) _ a])
      (use cancel_primary.hyps filing_okD(1) [OF cancel_primary.prems(2) a] in \<open>auto simp: entry_ok_def filed_def\<close>)
next
  case (cancel_index s a)
  have a: "a < sy_next s" by (rule filing_stage [OF cancel_index.prems(2)]) (simp add: cancel_index.hyps)
  show ?case
    by (rule filing_at [OF cancel_index.prems(2) _ a])
      (use cancel_index.hyps filing_okD(1) [OF cancel_index.prems(2) a] in \<open>auto simp: entry_ok_def filed_def\<close>)
next
  case (cancel_counted s a)
  have a: "a < sy_next s" by (rule filing_stage [OF cancel_counted.prems(2)]) (simp add: cancel_counted.hyps)
  show ?case
    by (rule filing_at [OF cancel_counted.prems(2) _ a])
      (use cancel_counted.hyps filing_okD(1) [OF cancel_counted.prems(2) a] in \<open>auto simp: entry_ok_def filed_def\<close>)
next
  case (scanned s w cs)
  show ?case by (rule filing_same [OF scanned.prems(2)]) (use scanned.hyps in \<open>auto split: if_splits\<close>)
next
  case (claim_won s w a cs as p)
  have a: "a < sy_next s" "filed s a"
    using claim_won.hyps(1) conc_okD(1) [OF claim_won.prems(1), of w] filing_okD(3) [OF claim_won.prems(2), of a w]
    by auto
  show ?case
    by (rule filing_at [OF claim_won.prems(2) _ a(1)])
      (use claim_won.hyps a(2) filing_okD(1) [OF claim_won.prems(2) a(1)] in
        \<open>auto simp: entry_ok_def filed_def compare_exchange_True split: if_splits\<close>)
next
  case (state_released s w a as)
  have a: "a < sy_next s" "p_state (sy_heap s a) = CLAIMED"
    using conc_okD(2) [OF state_released.prems(1), of a w] state_released.hyps by auto
  show ?case
    by (rule filing_at [OF state_released.prems(2) _ a(1)])
      (use state_released.hyps a(2) filing_okD(1) [OF state_released.prems(2) a(1)] in
        \<open>auto simp: entry_ok_def filed_def compare_exchange_def split: if_splits\<close>)
next
  case (state_marked s w a todo as)
  have a: "a < sy_next s" "p_state (sy_heap s a) = CLAIMED"
    using conc_okD(2) [OF state_marked.prems(1), of a w] state_marked.hyps by auto
  show ?case
    by (rule filing_at [OF state_marked.prems(2) _ a(1)])
      (use state_marked.hyps a(2) filing_okD(1) [OF state_marked.prems(2) a(1)] in
        \<open>auto simp: entry_ok_def filed_def compare_exchange_def split: if_splits\<close>)
next
  case (primary_unlinked s w a todo as)
  have a: "a < sy_next s" "p_state (sy_heap s a) = MATCHED"
    using conc_okD(3) [OF primary_unlinked.prems(1), of a w] conc_okD(1) [OF primary_unlinked.prems(1), of w]
      primary_unlinked.hyps by auto
  show ?case
    by (rule filing_at [OF primary_unlinked.prems(2) _ a(1)])
      (use primary_unlinked.hyps a(2) filing_okD(1) [OF primary_unlinked.prems(2) a(1)] in
        \<open>auto simp: entry_ok_def filed_def split: if_splits\<close>)
next
  case (index_unlinked s w a todo as)
  have a: "a < sy_next s" "p_state (sy_heap s a) = MATCHED"
    using conc_okD(3) [OF index_unlinked.prems(1), of a w] conc_okD(1) [OF index_unlinked.prems(1), of w]
      index_unlinked.hyps by auto
  show ?case
    by (rule filing_at [OF index_unlinked.prems(2) _ a(1)])
      (use index_unlinked.hyps a(2) filing_okD(1) [OF index_unlinked.prems(2) a(1)] in
        \<open>auto simp: entry_ok_def filed_def split: if_splits\<close>)
next
  case (reaped s w A U L a p)
  have a: "a < sy_next s" "p_state (sy_heap s a) = CLAIMED"
    using conc_okD(2) [OF reaped.prems(1), of a w] reaped.hyps by auto
  show ?case
    by (rule filing_at [OF reaped.prems(2) _ a(1)])
      (use reaped.hyps a(2) filing_okD(1) [OF reaped.prems(2) a(1)] in
        \<open>auto simp: entry_ok_def filed_def compare_exchange_True split: if_splits\<close>)
qed (rule filing_same, assumption, auto split: if_splits)+

section \<open>Matched players and the pool\<close>

text \<open>The matched players whose index entry their worker has removed.\<close>

fun unindexed :: "phase \<Rightarrow> addr set" where
  "unindexed (Unlink_primary todo as) = set as - set todo"
| "unindexed (Unlink_index todo as) = set as - set todo"
| "unindexed _ = {}"

definition matched_at :: "sys \<Rightarrow> addr \<Rightarrow> bool" where
  "matched_at s a \<longleftrightarrow> a < sy_next s \<and> p_state (sy_heap s a) = MATCHED"

definition removed :: "sys \<Rightarrow> addr \<Rightarrow> bool" where
  "removed s a \<longleftrightarrow> a \<notin> sy_primary s \<and> a \<notin> sy_index s"

definition linking_ok :: "sys \<Rightarrow> bool" where
  "linking_ok s \<longleftrightarrow>
     (\<forall>w. \<forall>a \<in> linked (sy_phase s w) \<union> unlinked (sy_phase s w). matched_at s a) \<and>
     (\<forall>a. matched_at s a \<longrightarrow> (a \<in> sy_primary s \<longleftrightarrow> (\<exists>w. a \<in> linked (sy_phase s w)))) \<and>
     (\<forall>w w' a. a \<in> linked (sy_phase s w) \<union> unlinked (sy_phase s w) \<longrightarrow>
        a \<in> linked (sy_phase s w') \<union> unlinked (sy_phase s w') \<longrightarrow> w = w') \<and>
     (\<forall>w. linked (sy_phase s w) \<inter> unlinked (sy_phase s w) = {}) \<and>
     (\<forall>w. \<forall>a \<in> unindexed (sy_phase s w). a \<notin> sy_index s) \<and>
     (\<forall>a \<in> set (concat (sy_matches s)). removed s a)"

lemma linking_okD:
  assumes "linking_ok s"
  shows "a \<in> linked (sy_phase s w) \<or> a \<in> unlinked (sy_phase s w) \<Longrightarrow> matched_at s a"
    and "matched_at s a \<Longrightarrow> a \<in> sy_primary s \<longleftrightarrow> (\<exists>w. a \<in> linked (sy_phase s w))"
    and "a \<in> linked (sy_phase s w) \<or> a \<in> unlinked (sy_phase s w) \<Longrightarrow>
      a \<in> linked (sy_phase s w') \<or> a \<in> unlinked (sy_phase s w') \<Longrightarrow> w = w'"
    and "a \<in> linked (sy_phase s w) \<Longrightarrow> a \<notin> unlinked (sy_phase s w)"
    and "a \<in> unindexed (sy_phase s w) \<Longrightarrow> a \<notin> sy_index s"
    and "a \<in> set (concat (sy_matches s)) \<Longrightarrow> removed s a"
  using assms unfolding linking_ok_def by blast+

lemma linking_okI:
  assumes "\<And>w a. a \<in> linked (sy_phase s w) \<or> a \<in> unlinked (sy_phase s w) \<Longrightarrow> matched_at s a"
    and "\<And>a. matched_at s a \<Longrightarrow> a \<in> sy_primary s \<longleftrightarrow> (\<exists>w. a \<in> linked (sy_phase s w))"
    and "\<And>a w w'. a \<in> linked (sy_phase s w) \<or> a \<in> unlinked (sy_phase s w) \<Longrightarrow>
      a \<in> linked (sy_phase s w') \<or> a \<in> unlinked (sy_phase s w') \<Longrightarrow> w = w'"
    and "\<And>a w. a \<in> linked (sy_phase s w) \<Longrightarrow> a \<notin> unlinked (sy_phase s w)"
    and "\<And>a w. a \<in> unindexed (sy_phase s w) \<Longrightarrow> a \<notin> sy_index s"
    and "\<And>a. a \<in> set (concat (sy_matches s)) \<Longrightarrow> removed s a"
  shows "linking_ok s"
  using assms unfolding linking_ok_def by blast

lemma linked_in_primary: "linking_ok s \<Longrightarrow> a \<in> linked (sy_phase s w) \<Longrightarrow> a \<in> sy_primary s"
  using linking_okD(1,2) [of s a] by blast

lemma unindexed_unlinked: "a \<in> unindexed p \<Longrightarrow> a \<in> unlinked p"
  by (cases p) (auto dest: list.set_sel(2) [rotated] split: list.splits, (metis list.set_sel(2) list.sel(2))+)

text \<open>No matched player changes, is filed or removed, and the workers hold the same ones.\<close>

lemma linking_same:
  assumes ok: "linking_ok s" and conc: "conc_ok s"
    and "\<And>a. matched_at t a \<longleftrightarrow> matched_at s a"
    and "\<And>a. matched_at s a \<Longrightarrow> (a \<in> sy_primary t \<longleftrightarrow> a \<in> sy_primary s) \<and> (a \<in> sy_index t \<longrightarrow> a \<in> sy_index s)"
    and "\<And>w. linked (sy_phase t w) = linked (sy_phase s w)" "\<And>w. unlinked (sy_phase t w) = unlinked (sy_phase s w)"
    and "\<And>w. unindexed (sy_phase t w) \<subseteq> unindexed (sy_phase s w)"
    and "sy_matches t = sy_matches s"
  shows "linking_ok t"
proof (rule linking_okI)
  show "matched_at t a" if "a \<in> linked (sy_phase t w) \<or> a \<in> unlinked (sy_phase t w)" for w a
    using that linking_okD(1) [OF ok] by (simp add: assms(3,5,6))
  show "a \<in> sy_primary t \<longleftrightarrow> (\<exists>w. a \<in> linked (sy_phase t w))" if "matched_at t a" for a
    using that linking_okD(2) [OF ok, of a] assms(4) [of a] by (simp add: assms(3,5))
  show "w = w'" if "a \<in> linked (sy_phase t w) \<or> a \<in> unlinked (sy_phase t w)"
      "a \<in> linked (sy_phase t w') \<or> a \<in> unlinked (sy_phase t w')" for a w w'
    using that linking_okD(3) [OF ok, of a w w'] by (simp add: assms(5,6))
  show "a \<notin> unlinked (sy_phase t w)" if "a \<in> linked (sy_phase t w)" for a w
    using that linking_okD(4) [OF ok, of a w] by (simp add: assms(5,6))
  show "a \<notin> sy_index t" if "a \<in> unindexed (sy_phase t w)" for a w
  proof -
    have u: "a \<in> unindexed (sy_phase s w)" using that assms(7) by blast
    then have "matched_at s a" using linking_okD(1) [OF ok] unindexed_unlinked by blast
    with u assms(4) linking_okD(5) [OF ok] show ?thesis by blast
  qed
  show "removed t a" if "a \<in> set (concat (sy_matches t))" for a
  proof -
    have "a \<in> set (concat (sy_matches s))" using that by (simp add: assms(8))
    moreover from this have "matched_at s a" using conc_okD(5) [OF conc, of a] by (simp add: matched_at_def)
    ultimately show ?thesis using linking_okD(6) [OF ok, of a] assms(4) [of a] by (auto simp: removed_def)
  qed
qed

text \<open>
  One worker goes on: it may mark players (\<open>M\<close>) and take some of its own out of the pool.
\<close>

lemma linking_worker:
  assumes ok: "linking_ok s" and conc: "conc_ok s" and ph: "sy_phase t = (sy_phase s)(w := p')"
    and matched: "\<And>a. matched_at t a \<longleftrightarrow> matched_at s a \<or> a \<in> M" and new: "\<And>a. a \<in> M \<Longrightarrow> \<not> matched_at s a"
    and links: "linked p' \<subseteq> linked (sy_phase s w) \<union> M" "unlinked p' \<subseteq> linked (sy_phase s w) \<union> unlinked (sy_phase s w)"
    and disj: "linked p' \<inter> unlinked p' = {}"
    and prim: "\<And>a. matched_at t a \<Longrightarrow> a \<in> sy_primary t \<longleftrightarrow>
        (if a \<in> M \<union> linked (sy_phase s w) then a \<in> linked p' else a \<in> sy_primary s)"
    and sub: "sy_primary t \<subseteq> sy_primary s" "sy_index t \<subseteq> sy_index s"
    and unindexed: "\<And>a. a \<in> unindexed p' \<Longrightarrow> a \<notin> sy_index t"
    and matches: "\<And>a. a \<in> set (concat (sy_matches t)) \<Longrightarrow> a \<in> set (concat (sy_matches s)) \<or> removed t a"
  shows "linking_ok t"
proof (rule linking_okI)
  let ?mine = "\<lambda>v a. a \<in> linked (sy_phase s v) \<or> a \<in> unlinked (sy_phase s v)"
  have mine: "?mine v a \<or> v = w \<and> a \<in> M" if "a \<in> linked (sy_phase t v) \<or> a \<in> unlinked (sy_phase t v)" for v a
    using that links by (auto simp: ph split: if_splits)
  have fresh: "\<not> ?mine v a" if "a \<in> M" for v a using new [OF that] linking_okD(1) [OF ok] by blast
  show "matched_at t a" if "a \<in> linked (sy_phase t v) \<or> a \<in> unlinked (sy_phase t v)" for v a
    using mine [OF that] linking_okD(1) [OF ok, of a v] matched by blast
  show "v = v'" if "a \<in> linked (sy_phase t v) \<or> a \<in> unlinked (sy_phase t v)"
      "a \<in> linked (sy_phase t v') \<or> a \<in> unlinked (sy_phase t v')" for a v v'
    using mine [OF that(1)] mine [OF that(2)] fresh linking_okD(3) [OF ok, of a v v'] by blast
  show "a \<notin> unlinked (sy_phase t v)" if "a \<in> linked (sy_phase t v)" for a v
    using that disj linking_okD(4) [OF ok, of a v] by (auto simp: ph split: if_splits)
  show "a \<notin> sy_index t" if "a \<in> unindexed (sy_phase t v)" for a v
    using that unindexed linking_okD(5) [OF ok, of a v] sub(2) by (auto simp: ph split: if_splits)
  show "removed t a" if "a \<in> set (concat (sy_matches t))" for a
    using matches [OF that] linking_okD(6) [OF ok, of a] sub unfolding removed_def by blast
  show "a \<in> sy_primary t \<longleftrightarrow> (\<exists>v. a \<in> linked (sy_phase t v))" if m: "matched_at t a" for a
  proof (cases "a \<in> M \<union> linked (sy_phase s w)")
    case True
    have "a \<notin> linked (sy_phase s v)" if "v \<noteq> w" for v
      using True that fresh linking_okD(3) [OF ok, of a v w] by blast
    with True prim [OF m] show ?thesis by (auto simp: ph)
  next
    case False
    then have "matched_at s a" using m matched by blast
    with False links(1) prim [OF m] linking_okD(2) [OF ok, of a] show ?thesis by (auto simp: ph)
  qed
qed

lemma matched_at_phase [simp]:
  "matched_at (s\<lparr>sy_phase := f\<rparr>) a = matched_at s a" "matched_at (s\<lparr>sy_primary := A\<rparr>) a = matched_at s a"
  "matched_at (s\<lparr>sy_index := A\<rparr>) a = matched_at s a" "matched_at (s\<lparr>sy_matches := ms\<rparr>) a = matched_at s a"
  "matched_at (s\<lparr>sy_gauge := g\<rparr>) a = matched_at s a" "matched_at (s\<lparr>sy_enqueue := e\<rparr>) a = matched_at s a"
  "matched_at (s\<lparr>sy_cancel := e\<rparr>) a = matched_at s a" "matched_at (s\<lparr>sy_reaper := r\<rparr>) a = matched_at s a"
  by (simp_all add: matched_at_def)

lemma linking_step: "conc_step s t \<Longrightarrow> conc_ok s \<Longrightarrow> filing_ok s \<Longrightarrow> linking_ok s \<Longrightarrow> linking_ok t"
proof (induction rule: conc_step.induct)
  case (enqueued a s now i r)
  show ?case
    by (rule linking_same [OF enqueued.prems(3,1)])
      (use enqueued.hyps in \<open>auto simp: matched_at_def player_new_def less_Suc_eq\<close>)
next
  case (primary_inserted s a)
  have "\<not> matched_at s a"
    using primary_inserted.hyps filing_okD(1) [OF primary_inserted.prems(2), of a] by (auto simp: matched_at_def entry_ok_def)
  then show ?case by - (rule linking_same [OF primary_inserted.prems(3,1)]; auto)
next
  case (index_inserted s a)
  have "\<not> matched_at s a"
    using index_inserted.hyps filing_okD(1) [OF index_inserted.prems(2), of a] by (auto simp: matched_at_def entry_ok_def)
  then show ?case by - (rule linking_same [OF index_inserted.prems(3,1)]; auto)
next
  case (cancel_primary s a)
  have "\<not> matched_at s a"
    using cancel_primary.hyps filing_okD(1) [OF cancel_primary.prems(2), of a] by (auto simp: matched_at_def entry_ok_def)
  then show ?case by - (rule linking_same [OF cancel_primary.prems(3,1)]; auto)
next
  case (state_marked s w a todo as)
  from conc_okD(1) [OF state_marked.prems(1), of w] state_marked.hyps
  have ph: "distinct (a # todo)" "set (a # todo) \<subseteq> set as" by auto
  have a: "a < sy_next s" "p_state (sy_heap s a) = CLAIMED"
    using conc_okD(2) [OF state_marked.prems(1), of a w] state_marked.hyps by auto
  have in_primary: "a \<in> sy_primary s"
    using filing_okD(1) [OF state_marked.prems(2) a(1)] a(2) by (auto simp: entry_ok_def)
  have "b \<in> sy_primary s" if "b \<in> set as" "b \<notin> set (a # todo)" for b
    using linked_in_primary [OF state_marked.prems(3), of b w] that state_marked.hyps by simp
  note in_primary = in_primary this
  show ?case
    by (rule linking_worker [OF state_marked.prems(3,1), where w = w and p' = "Mark_time todo as" and M = "{a}"])
      (use state_marked.hyps ph a in_primary in
        \<open>auto simp: matched_at_def compare_exchange_def split: if_splits\<close>)
next
  case (primary_unlinked s w a todo as)
  from conc_okD(1) [OF primary_unlinked.prems(1), of w] primary_unlinked.hyps
  have ph: "distinct (a # todo)" "set (a # todo) \<subseteq> set as" by auto
  have "b \<in> sy_primary s" if "b \<in> set (a # todo)" for b
    using linked_in_primary [OF primary_unlinked.prems(3), of b w] that primary_unlinked.hyps by simp
  moreover have "b \<notin> sy_index s" if "b \<in> set as" "b \<notin> set (a # todo)" for b
    using that linking_okD(5) [OF primary_unlinked.prems(3), of b w] primary_unlinked.hyps by simp
  ultimately show ?case
    by - (rule linking_worker [OF primary_unlinked.prems(3,1), where w = w and p' = "Unlink_index (a # todo) as" and M = "{}"];
      use primary_unlinked.hyps ph in \<open>auto split: if_splits\<close>)
next
  case (primary_absent s w a todo as)
  have "a \<in> sy_primary s"
    using linked_in_primary [OF primary_absent.prems(3), of a w] primary_absent.hyps(1) by simp
  with primary_absent.hyps(2) show ?case by simp
next
  case (index_unlinked s w a todo as)
  from conc_okD(1) [OF index_unlinked.prems(1), of w] index_unlinked.hyps
  have ph: "distinct (a # todo)" "set (a # todo) \<subseteq> set as" by auto
  have "b \<in> sy_primary s" if "b \<in> set todo" for b
    using linked_in_primary [OF index_unlinked.prems(3), of b w] that index_unlinked.hyps by simp
  moreover have "b \<notin> sy_index s" if "b \<in> set as" "b \<notin> set (a # todo)" for b
    using that linking_okD(5) [OF index_unlinked.prems(3), of b w] index_unlinked.hyps by simp
  ultimately show ?case
    by - (rule linking_worker [OF index_unlinked.prems(3,1), where w = w and p' = "Unlink_primary todo as" and M = "{}"];
      use index_unlinked.hyps ph in \<open>auto split: if_splits\<close>)
next
  case (published s w as)
  have "removed s a" if "a \<in> set as" for a
  proof -
    have "a \<in> unlinked (sy_phase s w)" "a \<in> unindexed (sy_phase s w)" using that published.hyps by simp_all
    moreover have "a \<notin> linked (sy_phase s v)" for v
      using linking_okD(3) [OF published.prems(3), of a v w] linking_okD(4) [OF published.prems(3), of a v]
        calculation(1) by blast
    ultimately show ?thesis
      using linking_okD(1,2) [OF published.prems(3), of a] linking_okD(5) [OF published.prems(3), of a w]
      unfolding removed_def by blast
  qed
  then show ?case
    by - (rule linking_worker [OF published.prems(3,1), where w = w and p' = "Count_match as" and M = "{}"];
      use published.hyps in \<open>auto simp: removed_def split: if_splits\<close>)
next
  case (match_counted s w as)
  show ?case
    by (rule linking_worker [OF match_counted.prems(3,1), where w = w and p' = Idle and M = "{}"])
      (use match_counted.hyps in \<open>auto split: if_splits\<close>)
next
  case (crashed s w)
  show ?case by (rule linking_same [OF crashed.prems(3,1)]) auto
qed (rule linking_same, assumption, assumption, auto simp: matched_at_def compare_exchange_True compare_exchange_def split: if_splits)+

section \<open>The gauge\<close>

text \<open>
  Players in the primary store whose enqueue is not counted yet, players out of it whose
  cancellation is not counted yet, and players out of it whose match is not counted yet.
\<close>

definition pending_in :: "sys \<Rightarrow> addr set" where
  "pending_in s = {a. sy_enqueue s a \<in> {At_index, At_metrics}}"

definition pending_out :: "sys \<Rightarrow> addr set" where
  "pending_out s = {a. sy_cancel s a \<in> {At_index, At_metrics}}"

definition uncounted :: "sys \<Rightarrow> addr set" where
  "uncounted s = (\<Union>w. unlinked (sy_phase s w))"

definition gauge_ok :: "sys \<Rightarrow> bool" where
  "gauge_ok s \<longleftrightarrow>
     sy_gauge s + int (card (pending_in s)) =
       int (card (sy_primary s)) + int (card (pending_out s)) + int (card (uncounted s))"

lemma gauge_same:
  assumes "gauge_ok s" and "sy_gauge t = sy_gauge s" and "pending_in t = pending_in s"
    and "pending_out t = pending_out s" and "\<And>w. unlinked (sy_phase t w) = unlinked (sy_phase s w)"
    and "sy_primary t = sy_primary s"
  shows "gauge_ok t"
  using assms by (simp add: gauge_ok_def uncounted_def)

lemma finite_gauge_sets:
  assumes "filing_ok s" and "linking_ok s"
  shows "finite (sy_primary s)" "finite (pending_in s)" "finite (pending_out s)" "finite (uncounted s)"
proof -
  have "sy_primary s \<subseteq> {..<sy_next s}" "pending_in s \<subseteq> {..<sy_next s}" "pending_out s \<subseteq> {..<sy_next s}"
    using filing_okD(2) [OF assms(1)] filing_stage [OF assms(1)]
    by (auto simp: unused_def pending_in_def pending_out_def not_less [symmetric])
  then show "finite (sy_primary s)" "finite (pending_in s)" "finite (pending_out s)"
    by (auto intro: finite_subset)
  have "uncounted s \<subseteq> {..<sy_next s}"
    using linking_okD(1) [OF assms(2)] by (auto simp: uncounted_def matched_at_def)
  then show "finite (uncounted s)" by (auto intro: finite_subset)
qed

lemma uncounted_worker:
  assumes "sy_phase t = (sy_phase s)(w := p')" and "\<And>v. v \<noteq> w \<Longrightarrow> unlinked (sy_phase s v) \<inter> unlinked (sy_phase s w) = {}"
  shows "uncounted t = (uncounted s - unlinked (sy_phase s w)) \<union> unlinked p'"
  using assms by (fastforce simp: uncounted_def split: if_splits)

lemma gauge_step:
  "conc_step s t \<Longrightarrow> conc_ok s \<Longrightarrow> filing_ok s \<Longrightarrow> linking_ok s \<Longrightarrow> gauge_ok s \<Longrightarrow> gauge_ok t"
proof (induction rule: conc_step.induct)
  case (enqueued a s now i r)
  have "unused s a" using filing_okD(2) [OF enqueued.prems(2)] enqueued.hyps by simp
  then show ?case
    by - (rule gauge_same [OF enqueued.prems(4)]; auto simp: pending_in_def pending_out_def unused_def)
next
  case (primary_inserted s a)
  have "a \<notin> sy_primary s" "a \<notin> pending_in s"
    using primary_inserted.hyps filing_okD(1) [OF primary_inserted.prems(2) filing_stage [OF primary_inserted.prems(2)], of a]
    by (auto simp: entry_ok_def pending_in_def)
  moreover have "pending_in (s\<lparr>sy_primary := insert a (sy_primary s), sy_enqueue := (sy_enqueue s)(a := At_index)\<rparr>) =
      insert a (pending_in s)"
    by (auto simp: pending_in_def)
  ultimately show ?case
    using primary_inserted.prems(4) finite_gauge_sets [OF primary_inserted.prems(2,3)]
    by (simp add: gauge_ok_def) (simp add: pending_out_def uncounted_def)
next
  case (index_inserted s a)
  then show ?case
    by - (rule gauge_same [OF index_inserted.prems(4)]; auto simp: pending_in_def pending_out_def)
next
  case (enqueue_counted s a)
  have "a \<in> pending_in s" using enqueue_counted.hyps by (simp add: pending_in_def)
  moreover have "pending_in (s\<lparr>sy_gauge := sy_gauge s + 1, sy_enqueue := (sy_enqueue s)(a := Done)\<rparr>) = pending_in s - {a}"
    by (auto simp: pending_in_def)
  ultimately show ?case
    using enqueue_counted.prems(4) card_Suc_Diff1 [OF finite_gauge_sets(2) [OF enqueue_counted.prems(2,3)], of a]
    by (simp add: gauge_ok_def) (simp add: pending_out_def uncounted_def)
next
  case (cancelled a s p)
  have "sy_cancel s a \<in> {Done, At_primary}"
    using cancelled.hyps filing_okD(1) [OF cancelled.prems(2) cancelled.hyps(1)]
    by (auto simp: entry_ok_def compare_exchange_True)
  then show ?case
    by - (rule gauge_same [OF cancelled.prems(4)]; auto simp: pending_in_def pending_out_def)
next
  case (cancel_primary s a)
  have a: "a \<in> sy_primary s" "a \<notin> pending_out s"
    using cancel_primary.hyps filing_okD(1) [OF cancel_primary.prems(2) filing_stage [OF cancel_primary.prems(2)], of a]
    by (auto simp: entry_ok_def pending_out_def)
  then have "pending_out (s\<lparr>sy_primary := sy_primary s - {a},
      sy_cancel := (sy_cancel s)(a := if a \<in> sy_primary s then At_index else At_metrics)\<rparr>) = insert a (pending_out s)"
    by (auto simp: pending_out_def)
  with a show ?case
    using cancel_primary.prems(4) finite_gauge_sets [OF cancel_primary.prems(2,3)] card_Suc_Diff1 [of "sy_primary s" a]
    by (simp add: gauge_ok_def) (simp add: pending_in_def uncounted_def)
next
  case (cancel_index s a)
  then show ?case
    by - (rule gauge_same [OF cancel_index.prems(4)]; auto simp: pending_in_def pending_out_def)
next
  case (cancel_counted s a)
  have "a \<in> pending_out s" using cancel_counted.hyps by (simp add: pending_out_def)
  moreover have "pending_out (s\<lparr>sy_gauge := sy_gauge s - 1, sy_cancel := (sy_cancel s)(a := Done)\<rparr>) = pending_out s - {a}"
    by (auto simp: pending_out_def)
  ultimately show ?case
    using cancel_counted.prems(4) card_Suc_Diff1 [OF finite_gauge_sets(3) [OF cancel_counted.prems(2,3)], of a]
    by (simp add: gauge_ok_def) (simp add: pending_in_def uncounted_def)
next
  case (state_marked s w a todo as)
  from conc_okD(1) [OF state_marked.prems(1), of w] state_marked.hyps
  show ?case
    by - (rule gauge_same [OF state_marked.prems(4)]; auto simp: pending_in_def pending_out_def split: if_splits)
next
  case (primary_unlinked s w a todo as)
  from conc_okD(1) [OF primary_unlinked.prems(1), of w] primary_unlinked.hyps
  have ph: "distinct (a # todo)" "set (a # todo) \<subseteq> set as" by auto
  let ?t = "s\<lparr>sy_primary := sy_primary s - {a}, sy_phase := (sy_phase s)(w := Unlink_index (a # todo) as)\<rparr>"
  have mine: "a \<in> linked (sy_phase s w)" using primary_unlinked.hyps by simp
  have "a \<notin> unlinked (sy_phase s v)" for v
    using mine linking_okD(3,4) [OF primary_unlinked.prems(3), of a w] by blast
  then have "a \<notin> uncounted s" by (simp add: uncounted_def)
  moreover have "uncounted ?t = insert a (uncounted s)"
  proof -
    have "uncounted ?t = (uncounted s - unlinked (sy_phase s w)) \<union> unlinked (Unlink_index (a # todo) as)"
      by (rule uncounted_worker) (use linking_okD(3) [OF primary_unlinked.prems(3)] in auto)
    also have "unlinked (Unlink_index (a # todo) as) = insert a (unlinked (sy_phase s w))"
      using ph primary_unlinked.hyps by auto
    finally show ?thesis by (auto simp: uncounted_def)
  qed
  ultimately show ?case
    using primary_unlinked.prems(4) finite_gauge_sets [OF primary_unlinked.prems(2,3)]
      card_Suc_Diff1 [OF finite_gauge_sets(1) [OF primary_unlinked.prems(2,3)] primary_unlinked.hyps(2)]
    by (simp add: gauge_ok_def) (simp add: pending_in_def pending_out_def)
next
  case (primary_absent s w a todo as)
  have "a \<in> sy_primary s"
    using linked_in_primary [OF primary_absent.prems(3), of a w] primary_absent.hyps(1) by simp
  with primary_absent.hyps(2) show ?case by simp
next
  case (match_counted s w as)
  let ?t = "s\<lparr>sy_gauge := sy_gauge s - int MATCH_SIZE, sy_phase := (sy_phase s)(w := Idle)\<rparr>"
  have as: "unlinked (sy_phase s w) = set as" "card (set as) = MATCH_SIZE"
    using conc_okD(1) [OF match_counted.prems(1), of w] match_counted.hyps by (auto simp: distinct_card)
  have "uncounted ?t = (uncounted s - unlinked (sy_phase s w)) \<union> unlinked Idle"
    by (rule uncounted_worker) (use linking_okD(3) [OF match_counted.prems(3)] in auto)
  moreover have "set as \<subseteq> uncounted s" using as(1) by (auto simp: uncounted_def)
  moreover note fin = finite_gauge_sets(4) [OF match_counted.prems(2,3)]
  ultimately have "int (card (uncounted s)) = int (card (uncounted ?t)) + int MATCH_SIZE"
    using as card_mono [OF fin, of "set as"] by (simp add: card_Diff_subset)
  then show ?case
    using match_counted.prems(4) by (simp add: gauge_ok_def) (simp add: pending_in_def pending_out_def)
next
  case (crashed s w)
  show ?case
    by (rule gauge_same [OF crashed.prems(4)]) (auto simp: pending_in_def pending_out_def split: if_splits)
qed (rule gauge_same, assumption, auto simp: pending_in_def pending_out_def split: if_splits)+

section \<open>Every matched player is in a match\<close>

definition homed :: "sys \<Rightarrow> bool" where
  "homed s \<longleftrightarrow>
     (\<forall>a. matched_at s a \<longrightarrow> a \<in> set (concat (sy_matches s)) \<or>
        (\<exists>w. a \<in> linked (sy_phase s w) \<or> a \<in> unlinked (sy_phase s w))) \<and>
     (\<forall>w as. sy_phase s w = Count_match as \<longrightarrow> set as \<subseteq> set (concat (sy_matches s)))"

lemma homedD:
  assumes "homed s"
  shows "matched_at s a \<Longrightarrow> a \<in> set (concat (sy_matches s)) \<or>
      (\<exists>w. a \<in> linked (sy_phase s w) \<or> a \<in> unlinked (sy_phase s w))"
    and "sy_phase s w = Count_match as \<Longrightarrow> set as \<subseteq> set (concat (sy_matches s))"
  using assms by (auto simp: homed_def)

text \<open>Worker \<open>w\<close> goes on; what it gives up has been published.\<close>

lemma homed_worker:
  assumes ok: "homed s" and ph: "sy_phase t = (sy_phase s)(w := p')"
    and "\<And>a. matched_at t a \<Longrightarrow> matched_at s a \<or> a \<in> linked p'"
    and "\<And>a. a \<in> linked (sy_phase s w) \<or> a \<in> unlinked (sy_phase s w) \<Longrightarrow>
      a \<in> linked p' \<or> a \<in> unlinked p' \<or> a \<in> set (concat (sy_matches t))"
    and "set (concat (sy_matches s)) \<subseteq> set (concat (sy_matches t))"
    and "\<And>as. p' = Count_match as \<Longrightarrow> set as \<subseteq> set (concat (sy_matches t))"
  shows "homed t"
  unfolding homed_def
proof (intro conjI allI impI)
  fix a
  assume "matched_at t a"
  then consider (mine) "a \<in> linked p'" | (old) "matched_at s a" using assms(3) by blast
  then show "a \<in> set (concat (sy_matches t)) \<or> (\<exists>v. a \<in> linked (sy_phase t v) \<or> a \<in> unlinked (sy_phase t v))"
  proof cases
    case old
    from homedD(1) [OF ok this] consider (pub) "a \<in> set (concat (sy_matches s))"
      | (other) v where "v \<noteq> w" "a \<in> linked (sy_phase s v) \<or> a \<in> unlinked (sy_phase s v)"
      | (own) "a \<in> linked (sy_phase s w) \<or> a \<in> unlinked (sy_phase s w)" by metis
    then show ?thesis
    proof cases
      case pub
      with assms(5) show ?thesis by blast
    next
      case other
      then have "a \<in> linked (sy_phase t v) \<or> a \<in> unlinked (sy_phase t v)" by (simp add: ph)
      then show ?thesis by blast
    next
      case own
      from assms(4) [OF this] have "a \<in> set (concat (sy_matches t)) \<or> a \<in> linked (sy_phase t w) \<or> a \<in> unlinked (sy_phase t w)"
        by (auto simp: ph)
      then show ?thesis by blast
    qed
  next
    case mine
    then have "a \<in> linked (sy_phase t w)" by (simp add: ph)
    then show ?thesis by blast
  qed
next
  fix v as
  assume "sy_phase t v = Count_match as"
  then show "set as \<subseteq> set (concat (sy_matches t))"
    using homedD(2) [OF ok, of v as] assms(5,6) by (auto simp: ph split: if_splits)
qed

lemma homed_same:
  assumes "homed s" and "\<And>a. matched_at t a \<Longrightarrow> matched_at s a" and "sy_phase t = sy_phase s" and "sy_matches t = sy_matches s"
  shows "homed t"
  using assms by (auto simp: homed_def)

lemma homed_step: "conc_step s t \<Longrightarrow> conc_ok s \<Longrightarrow> homed s \<Longrightarrow> homed t"
proof (induction rule: conc_step.induct)
  case (enqueued a s now i r)
  then show ?case
    by - (rule homed_same [OF enqueued.prems(2)]; auto simp: matched_at_def player_new_def less_Suc_eq split: if_splits)
next
  case (state_marked s w a todo as)
  from conc_okD(1) [OF state_marked.prems(1), of w] state_marked.hyps
  have "a \<notin> set todo" "a \<in> set as" by auto
  then show ?case
    by - (rule homed_worker [OF state_marked.prems(2), where w = w and p' = "Mark_time todo as"];
      use state_marked.hyps in \<open>auto simp: matched_at_def compare_exchange_def split: if_splits\<close>)
next
  case (match_counted s w as)
  show ?case
    by (rule homed_worker [OF match_counted.prems(2), where w = w and p' = Idle])
      (use match_counted.hyps homedD(2) [OF match_counted.prems(2) match_counted.hyps] in auto)
next
  case (primary_unlinked s w a todo as)
  show ?case
    by (rule homed_worker [OF primary_unlinked.prems(2), where w = w and p' = "Unlink_index (a # todo) as"])
      (use primary_unlinked.hyps conc_okD(1) [OF primary_unlinked.prems(1), of w] in auto)
next
  case (primary_absent s w a todo as)
  show ?case
    by (rule homed_worker [OF primary_absent.prems(2), where w = w and p' = "Unlink_primary todo as"])
      (use primary_absent.hyps conc_okD(1) [OF primary_absent.prems(1), of w] in auto)
next
  case (crashed s w)
  show ?case
    by (rule homed_worker [OF crashed.prems(2), where w = w and
        p' = "Crashed (live (sy_phase s w)) (unlinked (sy_phase s w)) (linked (sy_phase s w))"]) auto
qed (rule homed_worker homed_same, assumption,
    auto simp: matched_at_def compare_exchange_True compare_exchange_def split: if_splits)+

section \<open>The invariant\<close>

definition accounting_ok :: "sys \<Rightarrow> bool" where
  "accounting_ok s \<longleftrightarrow> conc_ok s \<and> filing_ok s \<and> linking_ok s \<and> gauge_ok s \<and> homed s"

lemma accounting_init: "conc_init s \<Longrightarrow> accounting_ok s"
  using conc_ok_init [of s]
  by (simp add: accounting_ok_def filing_ok_def linking_ok_def gauge_ok_def conc_init_def unused_def
      pending_in_def pending_out_def uncounted_def matched_at_def homed_def)

interpretation accounting: inductive_invariant conc_init conc_step accounting_ok
  by unfold_locales
    (auto simp: accounting_ok_def accounting_init [unfolded accounting_ok_def]
      intro: conc_ok_step filing_step linking_step gauge_step homed_step)

section \<open>At rest\<close>

text \<open>When no worker and no handler is under way, pool, states and gauge agree.\<close>

lemma books_at_rest:
  assumes "accounting_ok s" and "\<forall>w. sy_phase s w = Idle"
    and "\<forall>a. sy_enqueue s a = Done \<and> sy_cancel s a = Done"
  shows "sy_primary s = {a. a < sy_next s \<and> p_state (sy_heap s a) = WAITING} \<and>
    sy_gauge s = int (card (sy_primary s)) \<and>
    sy_next s = card (sy_primary s) + card {a. a < sy_next s \<and> p_state (sy_heap s a) = EVICTED} +
      MATCH_SIZE * length (sy_matches s)"
proof -
  have conc: "conc_ok s" and fil: "filing_ok s" and link: "linking_ok s" and gauge: "gauge_ok s" and home: "homed s"
    using assms(1) by (simp_all add: accounting_ok_def)
  let ?in = "\<lambda>st. {a. a < sy_next s \<and> p_state (sy_heap s a) = st}"
  have entry: "entry_ok (p_state (sy_heap s a)) Done Done (a \<in> sy_primary s) (a \<in> sy_index s)" if "a < sy_next s" for a
    using filing_okD(1) [OF fil that] assms(3) by simp
  have claimed: "?in CLAIMED = {}" using conc_okD(8) [OF conc] assms(2) by auto
  have matched: "?in MATCHED = set (concat (sy_matches s))"
  proof (intro set_eqI iffI)
    fix a
    assume "a \<in> ?in MATCHED"
    then show "a \<in> set (concat (sy_matches s))"
      using homedD(1) [OF home, of a] assms(2) by (simp add: matched_at_def)
  qed (use conc_okD(5) [OF conc] in simp)
  have primary: "sy_primary s = ?in WAITING"
  proof (intro set_eqI iffI)
    fix a
    assume a: "a \<in> sy_primary s"
    then have "a < sy_next s" using filing_okD(2) [OF fil, of a] by (auto simp: unused_def not_less [symmetric])
    with a entry [of a] claimed matched linking_okD(6) [OF link, of a] show "a \<in> ?in WAITING"
      by (auto simp: entry_ok_def removed_def)
  qed (use entry in \<open>auto simp: entry_ok_def\<close>)
  have "{..<sy_next s} = ?in WAITING \<union> ?in EVICTED \<union> ?in MATCHED"
    using entry claimed by (auto simp: entry_ok_def)
  then have "sy_next s = card (?in WAITING \<union> ?in EVICTED \<union> ?in MATCHED)" by (metis card_lessThan)
  also have "\<dots> = card (?in WAITING) + card (?in EVICTED) + card (?in MATCHED)"
    by (subst card_Un_disjoint; (subst card_Un_disjoint)?) auto
  also have "card (?in MATCHED) = MATCH_SIZE * length (sy_matches s)"
  proof -
    have "card (set (concat (sy_matches s))) = length (concat (sy_matches s))"
      by (rule distinct_card) (rule conc_okD(6) [OF conc])
    also have "\<dots> = sum_list (map (\<lambda>m. MATCH_SIZE) (sy_matches s))"
      unfolding length_concat by (rule arg_cong [where f = sum_list], rule map_cong) (use conc_okD(7) [OF conc] in auto)
    finally show ?thesis unfolding matched by (simp add: sum_list_triv)
  qed
  finally have count: "sy_next s = card (?in WAITING) + card (?in EVICTED) + MATCH_SIZE * length (sy_matches s)" .
  have "sy_gauge s = int (card (sy_primary s))"
    using gauge assms(2,3) by (simp add: gauge_ok_def pending_in_def pending_out_def uncounted_def)
  with primary count show ?thesis by simp
qed

end
