(* ===== verification/Concurrency.thy ===== *)
theory Concurrency
  imports Runs Accounting
begin

text \<open>What holds of the interleaved system, from the invariants and runs of the theories below it.\<close>

section \<open>Properties\<close>

text \<open>
  Under any interleaving of enqueues, cancellations, workers and the Reaper, in which the
  Reaper resets only claims of workers that have died, no player is in two matches or twice in
  one, every match has exactly ten players, and each of them is in the matched state.
\<close>
theorem no_player_matched_twice:
  assumes "reach conc_init conc_step s"
  shows "distinct (concat (sy_matches s)) \<and> (\<forall>m \<in> set (sy_matches s). length m = MATCH_SIZE) \<and>
    (\<forall>a \<in> set (concat (sy_matches s)). a < sy_next s \<and> p_state (sy_heap s a) = MATCHED)"
  using conc_okD(5-7) [OF concurrent.reachable_inv [OF assms]] by blast

theorem no_player_matched_twice_witness:
  "sy_matches demo_matched = [[0..<10]] \<and> p_state (sy_heap demo_matched 9) = MATCHED"
proof
  from no_player_matched_twice [OF demo_matched_reach] show "p_state (sy_heap demo_matched 9) = MATCHED"
    by (simp add: demo_matched_fields)
qed (rule demo_matched_fields)

text \<open>
  In every reachable state of the interleaved system a player in the claimed state is held
  by exactly one worker (or by the remains of exactly one dead worker, from which the Reaper
  can take it), and everything a worker holds is claimed.
\<close>
theorem claimed_player_has_one_holder:
  assumes "reach conc_init conc_step s"
  shows "(a < sy_next s \<and> p_state (sy_heap s a) = CLAIMED) = (\<exists>!w. a \<in> live (sy_phase s w))"
proof -
  note ok = concurrent.reachable_inv [OF assms]
  have "w = v" if "a \<in> live (sy_phase s w)" "a \<in> live (sy_phase s v)" for w v
    using conc_okD(4) [OF ok, of a w v] that by (simp add: held_def)
  then show ?thesis using conc_okD(2,8) [OF ok, of a] by blast
qed

theorem claimed_player_has_one_holder_witness:
  "(3 < sy_next (demo_queued 11) \<and> p_state (sy_heap (demo_queued 11) 3) = CLAIMED) =
   (\<exists>!w. 3 \<in> live (sy_phase (demo_queued 11) w))"
  by (rule claimed_player_has_one_holder) (rule demo_queued_reach)

text \<open>
  A player that has been cancelled stays evicted whatever every other task does, and is in
  no match formed later.
\<close>
theorem evicted_player_never_matched:
  assumes "reach conc_init conc_step s" and "a < sy_next s" and "p_state (sy_heap s a) = EVICTED"
    and "conc_step\<^sup>*\<^sup>* s t"
  shows "p_state (sy_heap t a) = EVICTED \<and> a \<notin> set (concat (sy_matches t))"
proof -
  have st: "p_state (sy_heap t a) = EVICTED" using terminal_steps [OF assms(4,2,3)] by simp
  have "conc_ok t" by (rule concurrent.reachable_inv [OF reach_steps [OF assms(4,1)]])
  from conc_okD(5) [OF this, of a] st show ?thesis by auto
qed

definition demo_cancelled :: sys where
  "demo_cancelled = (demo_queued 11)\<lparr>
     sy_heap := (sy_heap (demo_queued 11))(3 := (sy_heap (demo_queued 11) 3)\<lparr>p_state := EVICTED\<rparr>),
     sy_cancel := (sy_cancel (demo_queued 11))(3 := At_primary)\<rparr>"

theorem evicted_player_never_matched_witness:
  "p_state (sy_heap (attempt_alone 1 99 (\<lambda>a. 50) [0..<11] demo_cancelled) 3) = EVICTED \<and>
   3 \<notin> set (concat (sy_matches (attempt_alone 1 99 (\<lambda>a. 50) [0..<11] demo_cancelled)))"
proof (rule evicted_player_never_matched)
  have "conc_step (demo_queued 11) demo_cancelled"
    unfolding demo_cancelled_def
    by (rule cancelled) (use demo_queued_fields(4) [of 3 11] in \<open>simp_all add: compare_exchange_True demo_queued_fields is_waiting_def\<close>)
  then show "reach conc_init conc_step demo_cancelled" by (rule reach_step [OF demo_queued_reach])
  show "conc_step\<^sup>*\<^sup>* demo_cancelled (attempt_alone 1 99 (\<lambda>a. 50) [0..<11] demo_cancelled)"
    by (rule attempt_run) (auto simp: demo_cancelled_def demo_queued_fields filed_def)
qed (simp_all add: demo_cancelled_def demo_queued_fields)

text \<open>
  A worker whose scan returned candidates and which nothing disturbs forms a match of the
  first ten of them that are waiting, if there are ten; the atomic steps it takes add up to the
  operations of the sequential model (claim loop, marking), and it takes the ten out of both
  structures of the pool and off the gauge.
\<close>
theorem undisturbed_worker_forms_match:
  assumes "sy_phase s w = Idle" and "\<forall>a \<in> set cs. a < sy_next s \<and> filed s a" and "distinct cs"
    and "MATCH_SIZE \<le> length (filter (\<lambda>a. is_waiting (sy_heap s a)) cs)"
    and "reach conc_init conc_step s"
  shows "\<exists>t. conc_step\<^sup>*\<^sup>* s t \<and>
    sy_heap t = mark_all now (snd (claim_loop w ms (sy_heap s) [] cs)) (fst (claim_loop w ms (sy_heap s) [] cs)) \<and>
    (let as = take MATCH_SIZE (filter (\<lambda>a. is_waiting (sy_heap s a)) cs)
     in sy_matches t = as # sy_matches s \<and> sy_primary t = sy_primary s - set as \<and>
        sy_index t = sy_index s - set as \<and> sy_gauge t = sy_gauge s - 10)"
proof -
  note run = attempt_alone_waiting [OF assms(3,4), of w ms now]
  have ok: "filing_ok s" using accounting.reachable_inv [OF assms(5)] by (simp add: accounting_ok_def)
  have "a \<in> sy_primary s" if "a \<in> set cs" "is_waiting (sy_heap s a)" for a
    using filing_okD(1) [OF ok, of a] that assms(2) by (auto simp: entry_ok_def is_waiting_def filed_def)
  then have "set (take MATCH_SIZE (filter (\<lambda>a. is_waiting (sy_heap s a)) cs)) \<subseteq> sy_primary s"
    by (auto dest: in_set_takeD)
  with run attempt_run [OF assms(1,2), of ms now] show ?thesis
    by (intro exI [of _ "attempt_alone w ms now cs s"]) (simp add: Let_def)
qed

theorem undisturbed_worker_forms_match_witness:
  "\<exists>t. conc_step\<^sup>*\<^sup>* (demo_queued 11) t \<and> sy_matches t = [[0..<10]] \<and> sy_gauge t = 1"
proof -
  have ten: "MATCH_SIZE \<le> length (filter (\<lambda>a. is_waiting (sy_heap (demo_queued 11) a)) [0..<11])"
    by (simp only: demo_filter length_upt MATCH_SIZE_def)
  have "\<forall>a \<in> set [0..<11]. a < sy_next (demo_queued 11) \<and> filed (demo_queued 11) a"
    by (auto simp: demo_queued_fields)
  from undisturbed_worker_forms_match [OF _ this _ ten demo_queued_reach, of 1 "\<lambda>a. 50" 99]
  show ?thesis
    by (auto simp: demo_queued_fields Let_def demo_filter MATCH_SIZE_def take_upt simp del: upt_rec_numeral)
qed

text \<open>
  No queued player is ever lost: under every interleaving a waiting or claimed player whose
  enqueue got through the pool is in the primary store and in the index, and the players of a
  published match are in neither.
\<close>
theorem queued_player_never_lost:
  assumes "reach conc_init conc_step s"
  shows "(\<forall>a < sy_next s. filed s a \<longrightarrow> p_state (sy_heap s a) \<in> {WAITING, CLAIMED} \<longrightarrow>
      a \<in> sy_primary s \<and> a \<in> sy_index s) \<and>
    (\<forall>a \<in> set (concat (sy_matches s)). a \<notin> sy_primary s \<and> a \<notin> sy_index s)"
proof -
  have ok: "filing_ok s" "linking_ok s"
    using accounting.reachable_inv [OF assms] by (simp_all add: accounting_ok_def)
  then show ?thesis
    using filing_okD(1) [OF ok(1)] linking_okD(6) [OF ok(2)] by (fastforce simp: entry_ok_def filed_def removed_def)
qed

theorem queued_player_never_lost_witness:
  "10 \<in> sy_primary demo_matched \<and> 3 \<notin> sy_index demo_matched"
  using queued_player_never_lost [OF demo_matched_reach] by (simp add: demo_matched_fields)

text \<open>
  The books balance whenever nothing is in progress: after any interleaving that has come
  to rest with every worker idle, the primary store holds exactly the waiting players, the
  queue gauge is their number, and every player that ever joined is waiting, cancelled, or one
  of the ten of exactly one match.
\<close>
theorem books_balance_at_rest:
  assumes "reach conc_init conc_step s" and "\<forall>w. sy_phase s w = Idle"
    and "\<forall>a. sy_enqueue s a = Done \<and> sy_cancel s a = Done"
  shows "sy_primary s = {a. a < sy_next s \<and> p_state (sy_heap s a) = WAITING} \<and>
    sy_gauge s = int (card (sy_primary s)) \<and>
    sy_next s = card (sy_primary s) + card {a. a < sy_next s \<and> p_state (sy_heap s a) = EVICTED} +
      MATCH_SIZE * length (sy_matches s)"
  by (rule books_at_rest [OF accounting.reachable_inv [OF assms(1)] assms(2,3)])

lemma demo_matched_rest: "sy_phase demo_matched = (\<lambda>w. Idle)" "sy_enqueue demo_matched = (\<lambda>a. Done)"
    "sy_cancel demo_matched = (\<lambda>a. Done)"
  by (simp_all add: demo_matched_def attempt_alone_def split_beta demo_queued_def demo_start_def)

theorem books_balance_at_rest_witness:
  "{a. a < sy_next demo_matched \<and> p_state (sy_heap demo_matched a) = WAITING} = {10} \<and>
   sy_gauge demo_matched = 1"
  using books_balance_at_rest [OF demo_matched_reach] by (simp add: demo_matched_rest demo_matched_fields)

end
