(* ===== verification/Liveness.thy ===== *)
theory Liveness
  imports Workers
begin

text \<open>
  What the service achieves in the end: a worker that keeps being woken empties the queue down
  to fewer than ten players once they have waited out the last relaxation stage, and the players
  of a worker that died are back in the queue after one Reaper scan.
\<close>

section \<open>Everybody has waited out the relaxation\<close>

definition all_waiting :: "'m dash \<Rightarrow> 'm shared \<Rightarrow> bool" where
  "all_waiting D sh \<longleftrightarrow> (\<forall>a \<in> members D (sh_pool sh). is_waiting (sh_heap sh a))"

definition waited_out :: "'m dash \<Rightarrow> worker_context \<Rightarrow> 'm shared \<Rightarrow> readings \<Rightarrow> bool" where
  "waited_out D ctx sh rd \<longleftrightarrow>
     (\<forall>a \<in> members D (sh_pool sh).
        relaxation_stage_4_ms (wc_config ctx) \<le> millis_since (rd_scan_now rd) (p_join_timestamp (sh_heap sh a)))"

definition wide_open :: "worker_context \<Rightarrow> bool" where
  "wide_open ctx \<longleftrightarrow> config_ok (wc_config ctx) \<and> MAX_SKILL_RATING \<le> relaxation_stage_5_delta (wc_config ctx)"

lemma in_window_waited_out:
  assumes ok: "pool_ok D (sh_heap sh) (sh_pool sh)" and "all_waiting D sh" and "wide_open ctx"
    and "waited_out D ctx sh rd" and seed: "seed \<in> members D (sh_pool sh)"
  shows "in_window D ctx rd sh seed = members D (sh_pool sh)"
proof -
  have "relaxation_window (rd_scan_now rd) (p_join_timestamp (sh_heap sh seed)) (wc_config ctx) =
      relaxation_stage_5_delta (wc_config ctx)"
    by (rule waited_out_window) (use assms(3,4) seed in \<open>auto simp: wide_open_def waited_out_def\<close>)
  then have "seed_bounds ctx rd (sh_heap sh seed) = (0, MAX_SKILL_RATING)"
    unfolding seed_bounds_def
    by (intro scan_bounds_full) (use members_rating [OF ok seed] assms(3) in \<open>auto simp: wide_open_def\<close>)
  then show ?thesis
    using assms(2) members_rating [OF ok] by (auto simp: in_window_def eligible_def all_waiting_def)
qed

section \<open>Draining the queue\<close>

fun is_success :: "match_attempt_result \<Rightarrow> bool" where
  "is_success (Success m) = True"
| "is_success _ = False"

text \<open>How many matches \<open>k\<close> wake-ups make of \<open>n\<close> players.\<close>

definition matches_of :: "nat \<Rightarrow> nat \<Rightarrow> nat" where
  "matches_of k n = min k (n div 10)"

lemma matches_of_Suc: "matches_of (Suc k) n = (if 10 \<le> n then Suc (matches_of k (n - 10)) else 0)"
  by (auto simp: matches_of_def min_def le_div_geq)

lemma one_attempt_waited_out:
  assumes D: "dashmap D" and ok: "pool_ok D (sh_heap sh) (sh_pool sh)" and waiting: "all_waiting D sh"
    and wide: "wide_open ctx" and late: "waited_out D ctx sh rd"
  obtains r sh' st' where "attempt_match D ctx rd sh st = Some (r, sh', st')"
    and "pool_ok D (sh_heap sh') (sh_pool sh')" and "all_waiting D sh'"
    and "is_success r \<longleftrightarrow> 10 \<le> card (members D (sh_pool sh))"
    and "card (members D (sh_pool sh')) =
      (if is_success r then card (members D (sh_pool sh)) - 10 else card (members D (sh_pool sh)))"
    and "members D (sh_pool sh') \<subseteq> members D (sh_pool sh)"
    and "\<And>a. a \<in> members D (sh_pool sh') \<Longrightarrow> sh_heap sh' a = sh_heap sh a"
proof (cases "10 \<le> card (members D (sh_pool sh))")
  case True
  then have "members D (sh_pool sh) \<noteq> {}" by auto
  with waiting obtain seed where seed: "select_seed D ctx rd sh st = Some seed"
    using select_seed_None [OF D, of ctx rd sh st] by (cases "select_seed D ctx rd sh st") (auto simp: all_waiting_def)
  have window: "in_window D ctx rd sh seed = members D (sh_pool sh)"
    by (rule in_window_waited_out [OF ok waiting wide late select_seed_Some(1) [OF D seed]])
  with True have "MATCH_SIZE \<le> card (in_window D ctx rd sh seed)" by (simp add: MATCH_SIZE_def)
  note formed = attempt_match_formed [OF D ok seed this]
  show ?thesis
  proof (rule formed)
    fix as m sh'
    assume as: "distinct as" "length as = MATCH_SIZE" "set as \<subseteq> in_window D ctx rd sh seed"
      and res: "attempt_match D ctx rd sh st = Some (Success m, sh', reset st)"
      and heap: "\<And>a. sh_heap sh' a = (if a \<in> set as then mark_matched (rd_matched_now rd a)
           (claimed_by (wc_worker_id ctx) (rd_unix_ms rd) (sh_heap sh a)) else sh_heap sh a)"
      and pool: "pool_ok D (sh_heap sh') (sh_pool sh')" "members D (sh_pool sh') = members D (sh_pool sh) - set as"
    have "card (set as) = 10" using as(1,2) by (simp add: distinct_card MATCH_SIZE_def)
    moreover have "set as \<subseteq> members D (sh_pool sh)" using as(3) window by simp
    ultimately have "card (members D (sh_pool sh')) = card (members D (sh_pool sh)) - 10"
      unfolding pool(2) by (subst card_Diff_subset) auto
    then show ?thesis
      using that [OF res pool(1)] True waiting heap pool(2) by (auto simp: all_waiting_def)
  qed
next
  case False
  obtain r sh' st' where res: "attempt_match D ctx rd sh st = Some (r, sh', st')"
    by (rule attempt_match_total [OF D ok])
  have fail: "\<forall>m. r \<noteq> Success m"
  proof (intro allI notI)
    fix m
    assume "r = Success m"
    with res have "attempt_match D ctx rd sh st = Some (Success m, sh', st')" by simp
    from success_formed [OF D ok this] obtain seed where "MATCH_SIZE \<le> card (in_window D ctx rd sh seed)" by blast
    also have "\<dots> \<le> card (members D (sh_pool sh))"
      by (rule card_mono) (use finite_members [OF D] in_window_members in blast)+
    finally show False using False by (simp add: MATCH_SIZE_def)
  qed
  then have "\<not> is_success r" by (cases r) auto
  moreover have "sh_heap sh' = sh_heap sh" "sh_pool sh' = sh_pool sh"
    using failed_attempt_keeps [OF D ok res fail] by simp_all
  ultimately show ?thesis using that [OF res] ok waiting False by (simp add: all_waiting_def)
qed

lemma select_wakes:
  "\<not> po_shutdown p \<Longrightarrow> po_notified p \<or> po_tick p \<Longrightarrow> \<exists>w. select_biased p = Some w \<and> w \<noteq> Shutdown"
  by (auto simp: select_biased_def)

lemma worker_loop_drains:
  assumes D: "dashmap D" and wide: "wide_open ctx"
  shows "pool_ok D (sh_heap sh) (sh_pool sh) \<Longrightarrow> all_waiting D sh \<Longrightarrow>
    \<forall>(p, rd) \<in> set polls. \<not> po_shutdown p \<and> (po_notified p \<or> po_tick p) \<and> waited_out D ctx sh rd \<Longrightarrow>
    \<exists>rs sh'. worker_loop D ctx polls sh st = Some (Still_running, rs, sh') \<and>
      length (filter is_success rs) = matches_of (length polls) (card (members D (sh_pool sh))) \<and>
      card (members D (sh_pool sh')) + 10 * length (filter is_success rs) = card (members D (sh_pool sh)) \<and>
      pool_ok D (sh_heap sh') (sh_pool sh') \<and> all_waiting D sh'"
proof (induction polls arbitrary: sh st)
  case Nil
  then show ?case by (simp add: matches_of_def)
next
  case (Cons x polls)
  obtain p rd where x: "x = (p, rd)" by force
  from Cons.prems(3) have poll: "\<not> po_shutdown p" "po_notified p \<or> po_tick p" and late: "waited_out D ctx sh rd"
    by (simp_all add: x)
  obtain w where w: "select_biased p = Some w" "w \<noteq> Shutdown" using select_wakes [OF poll] by blast
  obtain r sh1 st1 where res: "attempt_match D ctx rd sh st = Some (r, sh1, st1)"
    and ok1: "pool_ok D (sh_heap sh1) (sh_pool sh1)" "all_waiting D sh1"
    and succ: "is_success r \<longleftrightarrow> 10 \<le> card (members D (sh_pool sh))"
    and card1: "card (members D (sh_pool sh1)) =
      (if is_success r then card (members D (sh_pool sh)) - 10 else card (members D (sh_pool sh)))"
    and sub: "members D (sh_pool sh1) \<subseteq> members D (sh_pool sh)"
    and same: "\<And>a. a \<in> members D (sh_pool sh1) \<Longrightarrow> sh_heap sh1 a = sh_heap sh a"
    by (rule one_attempt_waited_out [OF D Cons.prems(1,2) wide late]) blast
  have "waited_out D ctx sh1 rd'" if "waited_out D ctx sh rd'" for rd'
    using that sub same by (auto simp: waited_out_def subset_iff)
  then have "\<forall>(p, rd) \<in> set polls. \<not> po_shutdown p \<and> (po_notified p \<or> po_tick p) \<and> waited_out D ctx sh1 rd"
    using Cons.prems(3) by auto
  from Cons.IH [OF ok1 this, of st1] obtain rs sh' where
    rec: "worker_loop D ctx polls sh1 st1 = Some (Still_running, rs, sh')"
    and count: "length (filter is_success rs) = matches_of (length polls) (card (members D (sh_pool sh1)))"
      "card (members D (sh_pool sh')) + 10 * length (filter is_success rs) = card (members D (sh_pool sh1))"
    and ok': "pool_ok D (sh_heap sh') (sh_pool sh')" "all_waiting D sh'" by blast
  have "worker_loop D ctx (x # polls) sh st = Some (Still_running, r # rs, sh')"
    using w res rec by (cases w) (simp_all add: x)
  moreover have "length (filter is_success (r # rs)) = matches_of (length (x # polls)) (card (members D (sh_pool sh)))"
  proof (cases "is_success r")
    case False
    with succ have "card (members D (sh_pool sh)) div 10 = 0" by simp
    with False succ count(1) card1 show ?thesis by (simp add: matches_of_Suc) (simp add: matches_of_def)
  qed (use succ count(1) card1 in \<open>simp add: matches_of_Suc\<close>)
  moreover have "card (members D (sh_pool sh')) + 10 * length (filter is_success (r # rs)) = card (members D (sh_pool sh))"
    using succ count(2) card1 by auto
  ultimately show ?case using ok' by blast
qed

section \<open>Properties\<close>

text \<open>
  C35: A worker that keeps being woken empties the queue: if every queued player waits and has
  waited out the last relaxation stage, whose window spans all ratings, then \<open>k\<close> wake-ups form
  the smaller of \<open>k\<close> and a tenth of the queue of matches, and once \<open>k\<close> is a tenth of the queue
  fewer than ten players are left.  Nothing makes the worker panic or stop on the way.
\<close>

theorem woken_worker_drains_queue:
  assumes "dashmap D" and "pool_ok D (sh_heap sh) (sh_pool sh)" and "all_waiting D sh" and "wide_open ctx"
    and "\<forall>(p, rd) \<in> set polls. \<not> po_shutdown p \<and> (po_notified p \<or> po_tick p) \<and> waited_out D ctx sh rd"
  shows "\<exists>rs sh'. run_worker D ctx polls sh = Some (Still_running, rs, sh') \<and>
    length (filter is_success rs) = min (length polls) (card (members D (sh_pool sh)) div 10) \<and>
    card (members D (sh_pool sh')) + 10 * length (filter is_success rs) = card (members D (sh_pool sh)) \<and>
    (card (members D (sh_pool sh)) div 10 \<le> length polls \<longrightarrow> card (members D (sh_pool sh')) < 10)"
  using worker_loop_drains [OF assms(1,4,2,3,5), of worker_state_new]
  by (auto simp: run_worker_def matches_of_def)

definition patient_readings :: readings where
  "patient_readings = demo_readings\<lparr>rd_scan_now := 60000000050\<rparr>"

theorem woken_worker_drains_queue_witness:
  "\<exists>rs sh'. run_worker dash_alist demo_ctx
       (replicate 3 (\<lparr>po_shutdown = False, po_notified = False, po_tick = True\<rparr>, patient_readings)) (demo_shared 25) =
       Some (Still_running, rs, sh') \<and> length (filter is_success rs) = 2 \<and> card (members dash_alist (sh_pool sh')) = 5"
proof -
  have pool: "pool_ok dash_alist (sh_heap (demo_shared 25)) (sh_pool (demo_shared 25))"
      "members dash_alist (sh_pool (demo_shared 25)) = {..<25}"
    by (rule demo_pool, simp)+
  have fields: "sh_heap (demo_shared 25) a = player_new a (of_nat a) 1500" for a
    by (simp add: demo_shared_def demo_heap_def numbered_def)
  have "all_waiting dash_alist (demo_shared 25)" by (simp add: all_waiting_def fields)
  moreover have "wide_open demo_ctx"
    by (simp add: wide_open_def demo_ctx_def default_config_def [of] MAX_SKILL_RATING_def config_ok_def)
  moreover have "waited_out dash_alist demo_ctx (demo_shared 25) patient_readings"
  proof -
    have "(60000000050 - a) div 1000000 = 60000" if "a < 25" for a :: nat
      by (rule div_nat_eqI) (use that in simp_all)
    then show ?thesis
      by (simp add: waited_out_def pool(2) fields demo_ctx_def default_config_def patient_readings_def millis_since_def)
  qed
  ultimately show ?thesis
    using woken_worker_drains_queue [OF dashmap_dash_alist pool(1), of demo_ctx
        "replicate 3 (\<lparr>po_shutdown = False, po_notified = False, po_tick = True\<rparr>, patient_readings)"]
    by (auto simp: pool(2)) presburger
qed

section \<open>Recovery from a dead worker\<close>

text \<open>
  The claims of a worker that died right after claiming are undone by the first Reaper scan
  after the timeout: every player, the pool and the history are exactly as before the claim,
  and ten recoveries are counted, so the next attempt can match the same players.
\<close>

theorem dead_workers_claims_recovered:
  assumes "dashmap D" and "pool_ok D (sh_heap sh) (sh_pool sh)"
    and "\<forall>a \<in> members D (sh_pool sh). is_waiting (sh_heap sh a) \<and> player_ok (sh_heap sh a)"
    and "distinct cs" and "set cs \<subseteq> members D (sh_pool sh)" and "MATCH_SIZE \<le> length cs"
    and "claim ctx rd seed cs sh st = (Inr as, sh1, st1)"
    and "rd_unix_ms rd \<noteq> 0" and "unat timeout < unat now - unat (rd_unix_ms rd)"
  shows "let sh2 = reaper_tick D now timeout sh1
    in length as = MATCH_SIZE \<and> (\<forall>a \<in> set as. p_state (sh_heap sh1 a) = CLAIMED) \<and>
       sh_heap sh2 = sh_heap sh \<and> sh_pool sh2 = sh_pool sh \<and> sh_history sh2 = sh_history sh \<and>
       mt_total_stale_claims_recovered (sh_metrics sh2) = mt_total_stale_claims_recovered (sh_metrics sh) + 10"
proof -
  let ?h1 = "update_on (set as) (\<lambda>_. claimed_by (wc_worker_id ctx) (rd_unix_ms rd)) (sh_heap sh)"
  have waiting: "\<forall>a \<in> set cs. is_waiting (sh_heap sh a)" using assms(3,5) by blast
  from claim_waiting [OF assms(4) waiting assms(6)] assms(7)
  have as: "as = take MATCH_SIZE cs" and sh1: "sh1 = sh\<lparr>sh_metrics := sh_metrics sh, sh_heap := ?h1\<rparr>" by auto
  have len: "length as = MATCH_SIZE" and distinct: "distinct as" using assms(4,6) by (simp_all add: as)
  have mem: "set as \<subseteq> members D (sh_pool sh)" using assms(5) set_take_subset [of MATCH_SIZE cs] by (auto simp: as)
  have heap2: "sh_heap (reaper_tick D now timeout sh1) = sh_heap sh"
    unfolding sh1 by (rule reaper_undoes_stale_claims [OF assms(1-3) mem assms(8,9)])
  have ok1: "pool_ok D (sh_heap sh1) (sh_pool sh1)"
    using assms(2) pool_ok_heap_cong [of D "sh_pool sh" "?h1" "sh_heap sh"] by (simp add: sh1)
  have "{a \<in> members D (sh_pool sh1). stale now timeout (sh_heap sh1 a)} = set as"
    using mem assms(3,8,9) by (auto simp: sh1 stale_def claimed_by_def is_waiting_def)
  then have "10 = card {a \<in> members D (sh_pool sh1). stale now timeout (sh_heap sh1 a)}"
    using len distinct by (simp add: distinct_card MATCH_SIZE_def)
  from reaper_tick_recovered [OF assms(1) ok1 this]
  have "sh_metrics (reaper_tick D now timeout sh1) =
      (sh_metrics sh)\<lparr>mt_total_stale_claims_recovered := mt_total_stale_claims_recovered (sh_metrics sh) + 10\<rparr>"
    by (simp add: sh1)
  with heap2 len show ?thesis by (simp add: Let_def) (simp add: sh1 claimed_by_def)
qed

theorem dead_workers_claims_recovered_witness:
  "\<exists>as sh1 st1. claim demo_ctx demo_readings 0 [0..<12] (demo_shared 12) worker_state_new = (Inr as, sh1, st1) \<and>
     sh_heap (reaper_tick dash_alist 1501 500 sh1) = sh_heap (demo_shared 12) \<and>
     mt_total_stale_claims_recovered (sh_metrics (reaper_tick dash_alist 1501 500 sh1)) = 10"
proof -
  have pool: "pool_ok dash_alist (sh_heap (demo_shared 12)) (sh_pool (demo_shared 12))"
      "members dash_alist (sh_pool (demo_shared 12)) = {..<12}"
    by (rule demo_pool, simp)+
  have player: "is_waiting (sh_heap (demo_shared 12) a) \<and> player_ok (sh_heap (demo_shared 12) a)" for a
    by (simp add: demo_shared_def demo_heap_def numbered_def player_ok_new)
  have long: "MATCH_SIZE \<le> length [0..<12]" by (simp add: MATCH_SIZE_def)
  obtain as sh1 st1 where claim: "claim demo_ctx demo_readings 0 [0..<12] (demo_shared 12) worker_state_new = (Inr as, sh1, st1)"
    using claim_waiting [OF distinct_upt _ long, of "demo_shared 12"] player by blast
  have sub: "set [0..<12] \<subseteq> members dash_alist (sh_pool (demo_shared 12))"
    unfolding pool(2) set_upt by auto
  have "mt_total_stale_claims_recovered (sh_metrics (demo_shared 12)) = 0"
    by (simp add: demo_shared_def metrics_new_def)
  then show ?thesis
    using dead_workers_claims_recovered [OF dashmap_dash_alist pool(1) _ distinct_upt sub long claim, of 500 1501] player claim
    by (simp add: Let_def demo_readings_def)
qed

end
