(* ===== verification/Queue_Spec.thy ===== *)
theory Queue_Spec
  imports Engine
begin

text \<open>
  What the engine promises, without pools, heaps and indexes: a queue of identifiers with rating
  and join time, from which players join and leave and from which ten players at a time go into
  a match around a seed.  The operations of the engine are shown to implement it.
\<close>

section \<open>The abstract queue\<close>

record queue =
  q_players :: "uuid \<rightharpoonup> nat \<times> instant"
  q_matches :: u64
  q_cancelled :: u64

datatype queue_event =
    Joined uuid nat instant
  | Refused uuid nat
  | Left uuid
  | Unknown uuid
  | Formed "uuid set"
  | Unmatched

definition near :: "nat \<Rightarrow> nat \<Rightarrow> nat \<Rightarrow> bool" where
  "near w r s \<longleftrightarrow> r \<le> s + w \<and> s \<le> r + w"

text \<open>The players of the queue within a window around a rating.\<close>

definition around :: "nat \<Rightarrow> nat \<Rightarrow> queue \<Rightarrow> uuid set" where
  "around w r q = {i \<in> dom (q_players q). near w r (fst (the (q_players q i)))}"

inductive queue_step :: "config \<Rightarrow> queue \<Rightarrow> queue_event \<Rightarrow> queue \<Rightarrow> bool" for c :: config where
  join: "q_players q i = None \<Longrightarrow> r \<le> 3000 \<Longrightarrow>
    queue_step c q (Joined i r now) (q\<lparr>q_players := (q_players q)(i \<mapsto> (r, now))\<rparr>)"
| refuse: "3000 < r \<or> q_players q i \<noteq> None \<Longrightarrow> queue_step c q (Refused i r) q"
| leave: "q_players q i \<noteq> None \<Longrightarrow>
    queue_step c q (Left i) (q\<lparr>q_players := (q_players q)(i := None), q_cancelled := q_cancelled q + 1\<rparr>)"
| unknown: "q_players q i = None \<Longrightarrow> queue_step c q (Unknown i) q"
| form: "q_players q seed = Some (r, t) \<Longrightarrow> card M = 10 \<Longrightarrow>
    M \<subseteq> around (unat (relaxation_window now t c)) r q \<Longrightarrow>
    queue_step c q (Formed M) (q\<lparr>q_players := q_players q |` (- M), q_matches := q_matches q + 1\<rparr>)"
| empty: "dom (q_players q) = {} \<Longrightarrow> queue_step c q Unmatched q"
| too_few_around: "q_players q seed = Some (r, t) \<Longrightarrow>
    card (around (unat (relaxation_window now t c)) r q) < 10 \<Longrightarrow> queue_step c q Unmatched q"

inductive queue_trace :: "config \<Rightarrow> queue \<Rightarrow> queue_event list \<Rightarrow> queue \<Rightarrow> bool" for c :: config where
  trace_Nil: "queue_trace c q [] q"
| trace_Cons: "queue_step c q e q' \<Longrightarrow> queue_trace c q' es q'' \<Longrightarrow> queue_trace c q (e # es) q''"

section \<open>The operations of the engine and what they show\<close>

datatype engine_op =
    Op_enqueue instant uuid u32
  | Op_cancel uuid
  | Op_attempt u64 readings worker_state

definition match_ids :: "match_record \<Rightarrow> uuid set" where
  "match_ids m = ps_id ` set (match_players m)"

fun run_op :: "'m dash \<Rightarrow> engine_op \<Rightarrow> 'm core \<Rightarrow> (queue_event \<times> 'm core) option" where
  "run_op D (Op_enqueue now i r) core =
     (case enqueue D now i r core of
        (Inr depth, core') \<Rightarrow> Some (Joined i (unat r) now, core')
      | (Inl e, core') \<Rightarrow> Some (Refused i (unat r), core'))"
| "run_op D (Op_cancel i) core =
     (case cancel D i core of
        (Inr u, core') \<Rightarrow> Some (Left i, core')
      | (Inl e, core') \<Rightarrow> Some (Unknown i, core'))"
| "run_op D (Op_attempt w rd st) core =
     (case attempt_match D (make_worker_context w core) rd (co_shared core) st of
        None \<Rightarrow> None
      | Some (Success m, sh', st') \<Rightarrow> Some (Formed (match_ids m), core\<lparr>co_shared := sh'\<rparr>)
      | Some (r, sh', st') \<Rightarrow> Some (Unmatched, core\<lparr>co_shared := sh'\<rparr>))"

fun run_engine :: "'m dash \<Rightarrow> engine_op list \<Rightarrow> 'm core \<Rightarrow> (queue_event list \<times> 'm core) option" where
  "run_engine D [] core = Some ([], core)"
| "run_engine D (x # xs) core =
     (case run_op D x core of
        None \<Rightarrow> None
      | Some (e, core') \<Rightarrow> map_option (\<lambda>(es, core''). (e # es, core'')) (run_engine D xs core'))"

section \<open>Abstraction\<close>

definition queue_of :: "'m dash \<Rightarrow> 'm core \<Rightarrow> queue" where
  "queue_of D core =
     (let sh = co_shared core
      in \<lparr>q_players = (\<lambda>i. map_option (\<lambda>a. (unat (p_skill_rating (sh_heap sh a)), p_join_timestamp (sh_heap sh a)))
            (pool_map D (sh_pool sh) i)),
          q_matches = mt_total_matches_created (sh_metrics sh),
          q_cancelled = mt_total_players_cancelled (sh_metrics sh)\<rparr>)"

lemma queue_of_simps:
  "q_players (queue_of D core) i =
     map_option (\<lambda>a. (unat (p_skill_rating (sh_heap (co_shared core) a)), p_join_timestamp (sh_heap (co_shared core) a)))
       (pool_map D (sh_pool (co_shared core)) i)"
  "q_matches (queue_of D core) = mt_total_matches_created (sh_metrics (co_shared core))"
  "q_cancelled (queue_of D core) = mt_total_players_cancelled (sh_metrics (co_shared core))"
  by (simp_all add: queue_of_def Let_def)

lemma queue_eqI:
  "(\<And>i. q_players q i = q_players q' i) \<Longrightarrow> q_matches q = q_matches q' \<Longrightarrow> q_cancelled q = q_cancelled (q' :: queue) \<Longrightarrow> q = q'"
  by (cases q; cases q') auto

text \<open>The abstract queue sees a player only through the pool.\<close>

lemma pool_map_iff:
  assumes "pool_ok D h pl"
  shows "pool_map D pl i = Some a \<longleftrightarrow> a \<in> members D pl \<and> p_id (h a) = i"
  using pool_okD(2) [OF assms] members_iff [OF assms] by blast

lemma pool_map_members:
  assumes "pool_ok D h pl" and "pool_ok D h' pl'" and "members D pl' = members D pl - A"
    and "\<And>a. p_id (h' a) = p_id (h a)"
  shows "pool_map D pl' = pool_map D pl |` (- ((\<lambda>a. p_id (h a)) ` (A \<inter> members D pl)))"
proof
  fix i
  have "pool_map D pl' i = Some a \<longleftrightarrow>
      (pool_map D pl |` (- ((\<lambda>a. p_id (h a)) ` (A \<inter> members D pl)))) i = Some a" for a
    unfolding pool_map_iff [OF assms(2)] restrict_map_def
    using assms(3,4) inj_on_members [OF assms(1)] pool_map_iff [OF assms(1), of i a] by (auto dest: inj_onD)
  then show "pool_map D pl' i = (pool_map D pl |` (- ((\<lambda>a. p_id (h a)) ` (A \<inter> members D pl)))) i"
    by (metis not_None_eq)
qed

text \<open>The window the matcher scans is the window of the abstract queue.\<close>

lemma near_seed:
  assumes ok: "core_ok D core" and "a \<in> members D (sh_pool (co_shared core))" and "seed \<in> members D (sh_pool (co_shared core))"
  defines "h \<equiv> sh_heap (co_shared core)"
  shows "a \<in> in_window D (make_worker_context w core) rd (co_shared core) seed \<longleftrightarrow>
    near (unat (relaxation_window (rd_scan_now rd) (p_join_timestamp (h seed)) (co_config core)))
      (unat (p_skill_rating (h seed))) (unat (p_skill_rating (h a)))"
proof -
  note rating = members_rating [OF core_okD(1) [OF ok]]
  let ?ctx = "make_worker_context w core"
  have "a \<in> in_window D ?ctx rd (co_shared core) seed \<longleftrightarrow>
      abs_diff (p_skill_rating (h a)) (p_skill_rating (h seed)) \<le>
        relaxation_window (rd_scan_now rd) (p_join_timestamp (h seed)) (wc_config ?ctx)"
    unfolding scan_bounds_iff [OF rating [OF assms(2)] rating [OF assms(3)], folded h_def, symmetric]
    using assms(2) core_okD(3) [OF ok assms(2)] by (simp add: in_window_def eligible_def seed_bounds_def h_def)
  then show ?thesis
    by (auto simp: near_def make_worker_context_def word_le_nat_alt unat_abs_diff split: if_splits)
qed

lemma around_ids:
  assumes ok: "core_ok D core" and seed: "seed \<in> members D (sh_pool (co_shared core))"
  defines "h \<equiv> sh_heap (co_shared core)"
  shows "around (unat (relaxation_window (rd_scan_now rd) (p_join_timestamp (h seed)) (co_config core)))
      (unat (p_skill_rating (h seed))) (queue_of D core) =
    (\<lambda>a. p_id (h a)) ` in_window D (make_worker_context w core) rd (co_shared core) seed"
proof -
  note pok = core_okD(1) [OF ok]
  have "i \<in> around (unat (relaxation_window (rd_scan_now rd) (p_join_timestamp (h seed)) (co_config core)))
      (unat (p_skill_rating (h seed))) (queue_of D core) \<longleftrightarrow>
    (\<exists>a. pool_map D (sh_pool (co_shared core)) i = Some a \<and>
       a \<in> in_window D (make_worker_context w core) rd (co_shared core) seed)" for i
  proof (cases "pool_map D (sh_pool (co_shared core)) i")
    case (Some a)
    then have "a \<in> members D (sh_pool (co_shared core))" using pool_map_iff [OF pok] by blast
    from near_seed [OF ok this seed, of w rd] show ?thesis
      by (simp add: around_def queue_of_simps h_def Some dom_def)
  qed (simp add: around_def queue_of_simps dom_def)
  then show ?thesis
    using pool_map_iff [OF pok] in_window_members by (fastforce simp: h_def)
qed

section \<open>Every operation implements a step of the queue\<close>

lemma step_enqueue_refines:
  assumes D: "dashmap D" and ok: "core_ok D core" and run: "run_op D (Op_enqueue now i r) core = Some (e, core')"
  shows "queue_step (co_config core) (queue_of D core) e (queue_of D core') \<and> core_ok D core' \<and> co_config core' = co_config core"
proof (cases "r \<le> MAX_SKILL_RATING \<and> \<not> pool_contains D i (sh_pool (co_shared core))")
  case False
  then have "3000 < unat r \<or> q_players (queue_of D core) i \<noteq> None"
    by (auto simp: word_le_nat_alt MAX_SKILL_RATING_def queue_of_simps pool_contains_def pool_map_def)
  with False run ok show ?thesis by (auto simp: enqueue_def intro: queue_step.refuse split: if_splits)
next
  case True
  then have acc: "r \<le> MAX_SKILL_RATING" "\<not> pool_contains D i (sh_pool (co_shared core))" by auto
  show ?thesis
  proof (rule enqueue_accepts [OF D ok acc, of now])
    fix sh'
    assume res: "enqueue D now i r core = (Inr (Suc (pool_len D (sh_pool (co_shared core)))),
         core\<lparr>co_shared := sh', co_next := Suc (co_next core), co_notifications := Suc (co_notifications core)\<rparr>)"
      and sh': "sh_heap sh' = (sh_heap (co_shared core))(co_next core := player_new now i r)"
        "pool_map D (sh_pool sh') = (pool_map D (sh_pool (co_shared core)))(i \<mapsto> co_next core)"
        "sh_metrics sh' = count_enqueued (sh_metrics (co_shared core))"
    from run res have e: "e = Joined i (unat r) now"
      and core': "core' = core\<lparr>co_shared := sh', co_next := Suc (co_next core), co_notifications := Suc (co_notifications core)\<rparr>"
      by simp_all
    have fresh: "pool_map D (sh_pool (co_shared core)) j \<noteq> Some (co_next core)" for j
      using core_okD(2) [OF ok, of "co_next core"] by (auto simp: members_def ran_def)
    have "queue_of D core' = (queue_of D core)\<lparr>q_players := (q_players (queue_of D core))(i \<mapsto> (unat r, now))\<rparr>"
      by (rule queue_eqI) (use fresh in \<open>auto simp: queue_of_simps core' sh' count_enqueued_def map_option_case split: option.splits\<close>)
    moreover have "unat r \<le> 3000" using acc(1) by (simp add: word_le_nat_alt MAX_SKILL_RATING_def)
    moreover have "q_players (queue_of D core) i = None"
      using acc(2) by (simp add: queue_of_simps pool_contains_def pool_map_def)
    moreover have "core_ok D core'" using core_ok_enqueue [OF D ok, of now i r] res core' by simp
    ultimately show ?thesis by (auto simp: e core' intro: queue_step.join)
  qed
qed

lemma step_cancel_refines:
  assumes D: "dashmap D" and ok: "core_ok D core" and run: "run_op D (Op_cancel i) core = Some (e, core')"
  shows "queue_step (co_config core) (queue_of D core) e (queue_of D core') \<and> core_ok D core' \<and> co_config core' = co_config core"
proof (cases "pool_map D (sh_pool (co_shared core)) i")
  case None
  then have "q_players (queue_of D core) i = None" by (simp add: queue_of_simps)
  with None run ok show ?thesis
    by (auto simp: cancel_def Let_def pool_get_def pool_map_def intro: queue_step.unknown)
next
  case (Some a)
  show ?thesis
  proof (rule cancel_accepts [OF D ok Some])
    fix sh'
    assume res: "cancel D i core = (Inr (), core\<lparr>co_shared := sh'\<rparr>)"
      and sh': "sh_heap sh' = (sh_heap (co_shared core))(a := (sh_heap (co_shared core) a)\<lparr>p_state := EVICTED\<rparr>)"
        "pool_map D (sh_pool sh') = (pool_map D (sh_pool (co_shared core)))(i := None)"
        "sh_metrics sh' = count_cancelled (sh_metrics (co_shared core))"
    from run res have e: "e = Left i" and core': "core' = core\<lparr>co_shared := sh'\<rparr>" by simp_all
    have "queue_of D core' = (queue_of D core)\<lparr>q_players := (q_players (queue_of D core))(i := None),
        q_cancelled := q_cancelled (queue_of D core) + 1\<rparr>"
      by (rule queue_eqI) (auto simp: queue_of_simps core' sh' count_cancelled_def map_option_case split: option.splits)
    moreover have "q_players (queue_of D core) i \<noteq> None" using Some by (simp add: queue_of_simps)
    moreover have "core_ok D core'" using core_ok_cancel [OF D ok, of i] res core' by simp
    ultimately show ?thesis by (auto simp: e core' intro: queue_step.leave)
  qed
qed

lemma step_attempt_refines:
  assumes D: "dashmap D" and ok: "core_ok D core" and run: "run_op D (Op_attempt w rd st) core = Some (e, core')"
  shows "queue_step (co_config core) (queue_of D core) e (queue_of D core') \<and> core_ok D core' \<and> co_config core' = co_config core"
proof -
  let ?ctx = "make_worker_context w core" and ?sh = "co_shared core"
  obtain r sh' st' where res: "attempt_match D ?ctx rd ?sh st = Some (r, sh', st')"
    using run by (auto split: option.splits)
  have ok': "core_ok D (core\<lparr>co_shared := sh'\<rparr>)" by (rule core_ok_attempt [OF D ok res])
  show ?thesis
  proof (cases "\<exists>m. r = Success m")
    case False
    then have fail: "\<forall>m. r \<noteq> Success m" by simp
    have e: "e = Unmatched" and core': "core' = core\<lparr>co_shared := sh'\<rparr>" using run res fail by (cases r; simp)+
    have same: "queue_of D core' = queue_of D core"
      using failed_attempt_keeps [OF D core_okD(1) [OF ok] res fail]
      by (auto simp: core' queue_of_def Let_def split: if_splits)
    have "queue_step (co_config core) (queue_of D core) Unmatched (queue_of D core)"
    proof (rule attempt_match_cases [OF D core_okD(1) [OF ok], of ?ctx rd st])
      assume "select_seed D ?ctx rd ?sh st = None"
      then have "members D (sh_pool ?sh) = {}" using select_seed_None [OF D] core_okD(3) [OF ok] by blast
      then show ?thesis by (intro queue_step.empty) (auto simp: queue_of_simps members_def ran_def dom_def)
    next
      fix seed
      assume seed: "select_seed D ?ctx rd ?sh st = Some seed" and few: "card (in_window D ?ctx rd ?sh seed) < MATCH_SIZE"
      have mem: "seed \<in> members D (sh_pool ?sh)" by (rule select_seed_Some(1) [OF D seed])
      have "card (around (unat (relaxation_window (rd_scan_now rd) (p_join_timestamp (sh_heap ?sh seed)) (co_config core)))
          (unat (p_skill_rating (sh_heap ?sh seed))) (queue_of D core)) \<le> card (in_window D ?ctx rd ?sh seed)"
        unfolding around_ids [OF ok mem, of rd w] by (rule card_image_le [OF finite_in_window [OF D]])
      with few show ?thesis
        using members_iff [OF core_okD(1) [OF ok]] mem
        by (intro queue_step.too_few_around [of _ "p_id (sh_heap ?sh seed)" _ _ "rd_scan_now rd"]) (auto simp: queue_of_simps MATCH_SIZE_def)
    next
      fix seed
      assume "select_seed D ?ctx rd ?sh st = Some seed" and "MATCH_SIZE \<le> card (in_window D ?ctx rd ?sh seed)"
      then obtain m sh'' where "attempt_match D ?ctx rd ?sh st = Some (Success m, sh'', reset st)"
        using attempt_match_formed [OF D core_okD(1) [OF ok]] by metis
      with res fail show ?thesis by auto
    qed
    then show ?thesis using ok' by (simp add: e same) (simp add: core')
  next
    case True
    then obtain m where r: "r = Success m" ..
    from run res r have e: "e = Formed (match_ids m)" and core': "core' = core\<lparr>co_shared := sh'\<rparr>" by simp_all
    show ?thesis
    proof (rule success_cases [OF D core_okD(1) [OF ok] res [unfolded r]])
      fix seed as
      assume seed: "select_seed D ?ctx rd ?sh st = Some seed"
        and as: "distinct as" "length as = MATCH_SIZE" "set as \<subseteq> in_window D ?ctx rd ?sh seed"
        and m: "match_of (rd_matched_now rd) (sh_heap ?sh) as m"
        and heap: "\<And>a. sh_heap sh' a = (if a \<in> set as then mark_matched (rd_matched_now rd a)
           (claimed_by (wc_worker_id ?ctx) (rd_unix_ms rd) (sh_heap ?sh a)) else sh_heap ?sh a)"
        and pool: "pool_ok D (sh_heap sh') (sh_pool sh')" "members D (sh_pool sh') = members D (sh_pool ?sh) - set as"
        and metrics: "sh_metrics sh' = update_metrics_on_success m
          (map (\<lambda>a. millis_since (rd_matched_now rd a) (p_join_timestamp (sh_heap ?sh a))) as)
          (m_skill_spread m) (count_cycle (sh_metrics ?sh))"
      let ?M = "(\<lambda>a. p_id (sh_heap ?sh a)) ` set as"
      have mem: "set as \<subseteq> members D (sh_pool ?sh)" using as(3) in_window_members by blast
      note pok = core_okD(1) [OF ok]
      have ids: "match_ids m = ?M"
        using arg_cong [OF match_of_players(3) [OF m], of set_mset] by (simp add: match_ids_def)
      have map': "pool_map D (sh_pool sh') = pool_map D (sh_pool ?sh) |` (- ?M)"
        using pool_map_members [OF pok pool] heap mem by (simp add: Int_absorb2)
      have same: "p_skill_rating (sh_heap sh' a) = p_skill_rating (sh_heap ?sh a)"
        "p_join_timestamp (sh_heap sh' a) = p_join_timestamp (sh_heap ?sh a)" for a by (simp_all add: heap)
      have after: "queue_of D core' = (queue_of D core)\<lparr>q_players := q_players (queue_of D core) |` (- ?M),
          q_matches := q_matches (queue_of D core) + 1\<rparr>"
        by (rule queue_eqI)
          (simp_all add: queue_of_simps core' map' same metrics update_metrics_on_success_def count_cycle_def restrict_map_def)
      have at: "pool_map D (sh_pool ?sh) (p_id (sh_heap ?sh a)) = Some a" if "a \<in> members D (sh_pool ?sh)" for a
        using that members_iff [OF pok] by blast
      have seed_mem: "seed \<in> members D (sh_pool ?sh)" by (rule select_seed_Some(1) [OF D seed])
      have near: "?M \<subseteq> around (unat (relaxation_window (rd_scan_now rd) (p_join_timestamp (sh_heap ?sh seed)) (co_config core)))
          (unat (p_skill_rating (sh_heap ?sh seed))) (queue_of D core)"
        unfolding around_ids [OF ok seed_mem, of rd w] using as(3) by (rule image_mono)
      have "card ?M = 10"
      proof -
        have "card ?M = card (set as)"
          by (rule card_image) (rule inj_on_subset [OF inj_on_members [OF pok] mem])
        then show ?thesis using as(1,2) by (simp add: distinct_card MATCH_SIZE_def)
      qed
      moreover have "q_players (queue_of D core) (p_id (sh_heap ?sh seed)) =
          Some (unat (p_skill_rating (sh_heap ?sh seed)), p_join_timestamp (sh_heap ?sh seed))"
        using at [OF seed_mem] by (simp add: queue_of_simps)
      ultimately have "queue_step (co_config core) (queue_of D core) (Formed ?M) (queue_of D core')"
        unfolding after by - (rule queue_step.form [OF _ _ near]; assumption)
      then show ?thesis using ok' by (simp add: e ids core')
    qed
  qed
qed

text \<open>No operation panics on a well-formed core.\<close>

lemma run_op_total:
  assumes "dashmap D" and "core_ok D core"
  obtains e core' where "run_op D x core = Some (e, core')"
proof (cases x)
  case (Op_enqueue now i r)
  show ?thesis using that by (cases "enqueue D now i r core"; cases "fst (enqueue D now i r core)") (simp_all add: Op_enqueue)
next
  case (Op_cancel i)
  show ?thesis using that by (cases "cancel D i core"; cases "fst (cancel D i core)") (simp_all add: Op_cancel)
next
  case (Op_attempt w rd st)
  show ?thesis
  proof (rule attempt_match_total [OF assms(1) core_okD(1) [OF assms(2)], of "make_worker_context w core" rd st])
    fix r sh' st'
    assume "attempt_match D (make_worker_context w core) rd (co_shared core) st = Some (r, sh', st')"
    then show ?thesis using that by (cases r) (simp_all add: Op_attempt)
  qed
qed

lemmas step_refines = step_enqueue_refines step_cancel_refines step_attempt_refines

lemma run_op_refines:
  assumes "dashmap D" and "core_ok D core" and "run_op D x core = Some (e, core')"
  shows "queue_step (co_config core) (queue_of D core) e (queue_of D core') \<and> core_ok D core' \<and> co_config core' = co_config core"
  by (cases x) (use assms step_refines in \<open>blast+\<close>)

lemma run_engine_refines:
  assumes "dashmap D" and "core_ok D core"
  shows "\<exists>es core'. run_engine D xs core = Some (es, core') \<and>
    queue_trace (co_config core) (queue_of D core) es (queue_of D core')"
  using assms(2)
proof (induction xs arbitrary: core)
  case (Cons x xs)
  obtain e core1 where run: "run_op D x core = Some (e, core1)" by (rule run_op_total [OF assms(1) Cons.prems])
  note step = run_op_refines [OF assms(1) Cons.prems run]
  with Cons.IH [of core1] run show ?case by (auto intro: trace_Cons)
qed (simp add: trace_Nil)

section \<open>Properties\<close>

text \<open>
  C5: The engine implements the abstract queue.  From the empty queue, every sequence of enqueues,
  cancellations and match attempts runs without a panic, and what it shows is a trace of the
  abstract queue: a player joins unless the rating is above 3000 or the identifier is queued, leaves
  exactly if queued, and an attempt takes ten players around the rating of a queued one or, only if
  the queue is empty or that player has fewer than ten around it, takes none.  The players, matches
  and cancellations of the abstract queue are read off the core at every point.
\<close>

theorem engine_implements_queue:
  assumes "dashmap D"
  shows "\<exists>es core. run_engine D xs (core_new D start c metrics_new h) = Some (es, core) \<and>
    queue_trace c \<lparr>q_players = Map.empty, q_matches = 0, q_cancelled = 0\<rparr> es (queue_of D core)"
proof -
  have "queue_of D (core_new D start c metrics_new h) = \<lparr>q_players = Map.empty, q_matches = 0, q_cancelled = 0\<rparr>"
    using dashmap_get_new [OF assms] by (simp add: queue_of_def core_new_def metrics_new_def pool_map_def pool_new_def)
  with run_engine_refines [OF assms core_ok_new [OF assms], of xs start c h] show ?thesis
    by (simp add: core_new_def)
qed

theorem engine_implements_queue_witness:
  "\<exists>es core. run_engine dash_alist
       [Op_enqueue 5 7 1500, Op_enqueue 6 7 1500, Op_enqueue 7 8 3001, Op_cancel 9, Op_attempt 0 demo_readings worker_state_new, Op_cancel 7]
       (core_new dash_alist 0 default_config metrics_new (\<lambda>_. player_new 0 0 0)) = Some (es, core) \<and>
     queue_trace default_config \<lparr>q_players = Map.empty, q_matches = 0, q_cancelled = 0\<rparr> es (queue_of dash_alist core)"
  by (rule engine_implements_queue [OF dashmap_dash_alist])

end
