(* ===== verification/Races.thy ===== *)
theory Races
  imports Runs
begin

text \<open>
  Two races the code leaves open.  \<open>enqueue\<close> of src/src/engine/mod.rs looks an identifier up and
  inserts it in two steps; the Reaper of src/src/workers/mod.rs clears the fields of a claim after
  it has made the player available.
\<close>

section \<open>The two steps of enqueue\<close>

definition enqueue_check :: "'m dash \<Rightarrow> uuid \<Rightarrow> u32 \<Rightarrow> 'm core \<Rightarrow> enqueue_error + unit" where
  "enqueue_check D i skill_rating core =
     (if skill_rating > MAX_SKILL_RATING then Inl (InvalidSkillRating skill_rating MAX_SKILL_RATING)
      else if pool_contains D i (sh_pool (co_shared core)) then Inl (AlreadyQueued i)
      else Inr ())"

definition enqueue_commit :: "'m dash \<Rightarrow> instant \<Rightarrow> uuid \<Rightarrow> u32 \<Rightarrow> 'm core \<Rightarrow> usize \<times> 'm core" where
  "enqueue_commit D now i skill_rating core =
     (let sh = co_shared core;
          a = co_next core;
          h = (sh_heap sh)(a := player_new now i skill_rating);
          pl = pool_insert D h a (sh_pool sh)
      in (pool_len D pl,
          core\<lparr>co_shared := sh\<lparr>sh_heap := h, sh_pool := pl, sh_metrics := count_enqueued (sh_metrics sh)\<rparr>,
               co_next := Suc a, co_notifications := Suc (co_notifications core)\<rparr>))"

lemma enqueue_two_steps:
  "enqueue D now i r core =
     (case enqueue_check D i r core of
        Inl e \<Rightarrow> (Inl e, core)
      | Inr u \<Rightarrow> apfst Inr (enqueue_commit D now i r core))"
  by (simp add: enqueue_def enqueue_check_def enqueue_commit_def Let_def)

lemma enqueue_check_Inr:
  "enqueue_check D i r core = Inr u \<longleftrightarrow> r \<le> MAX_SKILL_RATING \<and> \<not> pool_contains D i (sh_pool (co_shared core))"
  by (auto simp: enqueue_check_def)

lemma enqueue_commit_fields:
  fixes core :: "'m core" and i :: uuid and r :: u32 and now :: instant
  assumes "dashmap D"
  defines "new \<equiv> snd (enqueue_commit D now i r core)"
  shows "co_next new = Suc (co_next core)"
    and "sh_heap (co_shared new) = (sh_heap (co_shared core))(co_next core := player_new now i r)"
    and "pool_map D (sh_pool (co_shared new)) = (pool_map D (sh_pool (co_shared core)))(i \<mapsto> co_next core)"
    and "sh_metrics (co_shared new) = count_enqueued (sh_metrics (co_shared core))"
    and "pl_index (sh_pool (co_shared new)) = bt_insert (r, i) (co_next core) (pl_index (sh_pool (co_shared core)))"
  by (simp_all add: new_def enqueue_commit_def Let_def pool_map_insert [OF assms(1)])
    (simp add: pool_insert_def index_key_def)

text \<open>A second commit of the same identifier takes the place of the first in the primary store.\<close>

lemma second_commit:
  fixes core :: "'m core" and r' :: u32 and t t' :: instant
  assumes D: "dashmap D" and ok: "core_ok D core"
    and "enqueue_check D i r core = Inr u"
  defines "core1 \<equiv> snd (enqueue_commit D t i r core)"
  defines "core2 \<equiv> snd (enqueue_commit D t' i r' core1)"
  shows "members D (sh_pool (co_shared core2)) = insert (Suc (co_next core)) (members D (sh_pool (co_shared core)))"
    and "map_of (pl_index (sh_pool (co_shared core2))) (r, i) = Some (if r = r' then Suc (co_next core) else co_next core)"
proof -
  note c1 = enqueue_commit_fields [OF D, where now = t and i = i and r = r and core = core, folded core1_def]
  note c2 = enqueue_commit_fields [OF D, where now = t' and i = i and r = r' and core = core1, folded core2_def]
  have "pool_map D (sh_pool (co_shared core)) i = None"
    using assms(3) by (simp add: enqueue_check_Inr pool_contains_def pool_map_def)
  then show "members D (sh_pool (co_shared core2)) = insert (Suc (co_next core)) (members D (sh_pool (co_shared core)))"
    by (simp add: members_def c1 c2 ran_map_upd)
  have bt: "bt_ok (pl_index (sh_pool (co_shared core)))" by (rule pool_okD(1) [OF core_okD(1) [OF ok]])
  show "map_of (pl_index (sh_pool (co_shared core2))) (r, i) = Some (if r = r' then Suc (co_next core) else co_next core)"
    by (simp add: c1 c2 map_of_bt_insert [OF bt] map_of_bt_insert [OF bt_ok_insert [OF bt]])
qed

section \<open>A claim between the steps of the Reaper\<close>

text \<open>
  Worker 1 claims player 0 and dies; the Reaper makes him available; worker 2 claims him and
  stamps the claim with time 77; the Reaper goes on to clear the fields.
\<close>

definition queued_one :: sys where "queued_one = demo_queued 1"

definition first_claim :: sys where
  "first_claim = queued_one\<lparr>
     sy_heap := (sy_heap queued_one)(0 := (sy_heap queued_one 0)\<lparr>p_state := CLAIMED, p_claimed_by := 1, p_claim_timestamp := 33\<rparr>),
     sy_phase := (sy_phase queued_one)(1 := Claiming [] [0])\<rparr>"

definition second_claim :: sys where
  "second_claim = queued_one\<lparr>
     sy_heap := (sy_heap queued_one)(0 := (sy_heap queued_one 0)\<lparr>p_state := CLAIMED, p_claimed_by := 2, p_claim_timestamp := 77\<rparr>),
     sy_phase := (sy_phase queued_one)(1 := Crashed {} {} {}, 2 := Claiming [] [0]), sy_reaper := Clear_owner 0\<rparr>"

definition erased_claim :: sys where
  "erased_claim = second_claim\<lparr>
     sy_heap := (sy_heap second_claim)(0 := (sy_heap second_claim 0)\<lparr>p_claimed_by := 0, p_claim_timestamp := 0\<rparr>),
     sy_reaper := Scanning\<rparr>"

text \<open>One worker claims one waiting player, starting from an empty list.\<close>

lemma claim_one:
  assumes "sy_phase s w = Idle" and "a < sy_next s" and "filed s a" and "is_waiting (sy_heap s a)"
  shows "conc_step\<^sup>*\<^sup>* s (s\<lparr>sy_heap := (sy_heap s)(a := claimed_by w t (sy_heap s a)),
    sy_phase := (sy_phase s)(w := Claiming [] [a])\<rparr>)"
proof -
  let ?s = "s\<lparr>sy_phase := (sy_phase s)(w := Claiming [a] [])\<rparr>"
  have "conc_step s ?s" by (rule scanned) (use assms in simp_all)
  moreover have "conc_step\<^sup>*\<^sup>* ?s (s\<lparr>sy_heap := (sy_heap s)(a := claimed_by w t (sy_heap s a)),
      sy_phase := (sy_phase s)(w := Claiming [] [a])\<rparr>)"
    using claim_run [of ?s w a "[]" "[]" t] assms(4) by (simp add: MATCH_SIZE_def try_claim_step is_waiting_def claimed_by_def)
  ultimately show ?thesis by (rule step_run)
qed

lemma queued_one_fields:
  "sy_heap queued_one 0 = player_new 0 1 1000" "sy_next queued_one = 1" "sy_phase queued_one = (\<lambda>w. Idle)"
  "sy_reaper queued_one = Scanning" "sy_enqueue queued_one = (\<lambda>a. Done)"
  by (simp_all add: queued_one_def demo_queued_def demo_start_def)

lemma first_claim_run: "conc_step\<^sup>*\<^sup>* queued_one first_claim"
  using claim_one [of queued_one 1 0 33]
  by (simp add: queued_one_fields filed_def is_waiting_def player_new_def first_claim_def claimed_by_def del: fun_upd_apply)

lemma second_claim_run: "conc_step\<^sup>*\<^sup>* first_claim second_claim"
proof -
  let ?p = "\<lambda>st w t. (sy_heap queued_one 0)\<lparr>p_state := st, p_claimed_by := w, p_claim_timestamp := t\<rparr>"
  let ?dead = "first_claim\<lparr>sy_phase := (sy_phase queued_one)(1 := Crashed {0} {} {})\<rparr>"
  let ?reset = "first_claim\<lparr>sy_heap := (sy_heap queued_one)(0 := ?p WAITING 1 33), sy_reaper := Clear_owner 0,
      sy_phase := (sy_phase queued_one)(1 := Crashed {} {} {})\<rparr>"
  have dead: "conc_step first_claim ?dead"
    by (rule step_to, rule crashed [of first_claim 1]) (simp add: first_claim_def)
  have reset: "conc_step ?dead ?reset"
    by (rule step_to, rule reaped [of ?dead 1 "{0}" "{}" "{}" 0 "?p WAITING 1 33"])
      (simp_all add: first_claim_def queued_one_fields compare_exchange_True)
  have claim: "conc_step\<^sup>*\<^sup>* ?reset (?reset\<lparr>sy_heap := (sy_heap ?reset)(0 := claimed_by 2 77 (sy_heap ?reset 0)),
      sy_phase := (sy_phase ?reset)(2 := Claiming [] [0])\<rparr>)"
    by (rule claim_one) (simp_all add: first_claim_def queued_one_fields filed_def is_waiting_def)
  have result: "?reset\<lparr>sy_heap := (sy_heap ?reset)(0 := claimed_by 2 77 (sy_heap ?reset 0)),
      sy_phase := (sy_phase ?reset)(2 := Claiming [] [0])\<rparr> = second_claim"
    by (rule sys.equality) (simp_all add: first_claim_def second_claim_def claimed_by_def)
  show ?thesis by (rule step_run [OF dead step_run [OF reset claim [unfolded result]]])
qed

lemma erased_claim_run: "conc_step\<^sup>*\<^sup>* second_claim erased_claim"
proof -
  let ?s = "second_claim\<lparr>sy_heap := (sy_heap second_claim)(0 := (sy_heap second_claim 0)\<lparr>p_claimed_by := 0\<rparr>), sy_reaper := Clear_time 0\<rparr>"
  have "conc_step second_claim ?s" by (rule owner_cleared) (simp add: second_claim_def)
  moreover have "conc_step ?s erased_claim"
    by (rule step_to, rule time_cleared [of ?s 0]) (simp_all add: erased_claim_def)
  ultimately show ?thesis by (blast intro: step_run)
qed

section \<open>Properties\<close>

text \<open>
  C16: Two requests for one identifier that both pass the duplicate check before either inserts, with
  no other operation in between, are both answered as queued and both counted, but only the second
  is in the queue: the player of the first waits and is no member of the pool, and the gauge is one
  above the number of queued players.  If the two ratings differ, the index entry of the first player
  stays behind and points at him; if they are equal, the second insertion has overwritten it.
\<close>

theorem racing_enqueues_lose_player:
  assumes "dashmap D" and "core_ok D core"
    and "enqueue_check D i r1 core = Inr ()" and "enqueue_check D i r2 core = Inr ()"
  shows "let core2 = snd (enqueue_commit D t2 i r2 (snd (enqueue_commit D t1 i r1 core)));
             sh = co_shared core2
    in is_waiting (sh_heap sh (co_next core)) \<and> p_id (sh_heap sh (co_next core)) = i \<and>
       members D (sh_pool sh) = insert (Suc (co_next core)) (members D (sh_pool (co_shared core))) \<and>
       co_next core \<notin> members D (sh_pool sh) \<and>
       map_of (pl_index (sh_pool sh)) (r1, i) = Some (if r1 = r2 then Suc (co_next core) else co_next core) \<and>
       mt_total_players_enqueued (sh_metrics sh) = mt_total_players_enqueued (sh_metrics (co_shared core)) + 2 \<and>
       players_waiting core2 = of_nat (card (members D (sh_pool sh))) + 1 \<and> \<not> core_ok D core2"
proof -
  let ?core1 = "snd (enqueue_commit D t1 i r1 core)"
  let ?core2 = "snd (enqueue_commit D t2 i r2 ?core1)"
  let ?old = "members D (sh_pool (co_shared core))" and ?new = "members D (sh_pool (co_shared ?core2))"
  note c1 = enqueue_commit_fields [OF assms(1), where now = t1 and i = i and r = r1 and core = core]
  note c2 = enqueue_commit_fields [OF assms(1), where now = t2 and i = i and r = r2 and core = ?core1]
  note second = second_commit [OF assms(1-3), where t = t1 and t' = t2 and r' = r2]
  have gauge_ok: "players_waiting core' = of_nat (card (members D (sh_pool (co_shared core'))))" if "core_ok D core'" for core'
    using core_okD(5) [OF that] pool_len_members [OF assms(1) core_okD(1) [OF that]]
    by (simp add: counters_ok_def Let_def players_waiting_def)
  have fresh: "co_next core \<notin> ?old" "Suc (co_next core) \<notin> ?old" using core_okD(2) [OF assms(2)] by fastforce+
  have "card ?new = Suc (card ?old)"
    using fresh finite_members [OF assms(1)] by (simp add: second(1))
  with gauge_ok [OF assms(2)] have gauge: "players_waiting ?core2 = of_nat (card ?new) + 1"
    by (simp add: players_waiting_def c1 c2 count_enqueued_def)
  then have "\<not> core_ok D ?core2" using gauge_ok [of ?core2] by auto
  with fresh gauge second show ?thesis by (simp add: Let_def c1 c2 count_enqueued_def)
qed

theorem racing_enqueues_lose_player_witness:
  "\<not> core_ok dash_alist (snd (enqueue_commit dash_alist 6 9 2000 (snd (enqueue_commit dash_alist 5 9 1000 (demo_core 3)))))"
proof -
  have "enqueue_check dash_alist 9 1000 (demo_core 3) = Inr ()" "enqueue_check dash_alist 9 2000 (demo_core 3) = Inr ()"
    using demo_core_map [of 3 9]
    by (simp_all add: enqueue_check_Inr MAX_SKILL_RATING_def pool_contains_def flip: pool_map_def)
  from racing_enqueues_lose_player [OF dashmap_dash_alist demo_core_ok [of 3] this, of 6 5] show ?thesis
    by (simp add: Let_def del: demo_core.simps)
qed

text \<open>
  The Reaper can erase the claim of a live worker: between its compare-and-swap and its two
  stores another worker claims the player and stamps the claim, and the stores wipe out owner and
  time.  If that worker dies, no Reaper scan ever finds the claim again.
\<close>

theorem reaper_erases_live_claim:
  "\<exists>s t. reach conc_init conc_step s \<and> conc_step\<^sup>*\<^sup>* s t \<and>
     sy_phase s 2 = Claiming [] [0] \<and> p_claimed_by (sy_heap s 0) = 2 \<and> p_claim_timestamp (sy_heap s 0) = 77 \<and>
     sy_phase t 2 = Claiming [] [0] \<and> p_claimed_by (sy_heap t 0) = 0 \<and> p_claim_timestamp (sy_heap t 0) = 0 \<and>
     (\<forall>(D :: 'm dash) now timeout sh. p_state (sh_heap (reaper_tick D now timeout (sh\<lparr>sh_heap := sy_heap t\<rparr>)) 0) = CLAIMED)"
proof (intro exI conjI)
  show "reach conc_init conc_step second_claim"
    by (rule reach_steps [OF second_claim_run reach_steps [OF first_claim_run demo_queued_reach [of 1, folded queued_one_def]]])
  show "conc_step\<^sup>*\<^sup>* second_claim erased_claim" by (rule erased_claim_run)
  show "\<forall>(D :: 'm dash) now timeout sh. p_state (sh_heap (reaper_tick D now timeout (sh\<lparr>sh_heap := sy_heap erased_claim\<rparr>)) 0) = CLAIMED"
    by (intro allI, subst reaper_tick_unstamped) (simp_all add: erased_claim_def second_claim_def)
qed (simp_all add: erased_claim_def second_claim_def)

end
