(* ===== verification/Atomic.thy ===== *)
theory Atomic
  imports Interleaving
begin

text \<open>
  The running service, access by access: the pool as the two maps of src/src/engine/bucket.rs
  keyed by identifiers, the wall clock, the Reaper of src/src/workers/mod.rs with the comparison
  it makes, and the counters.  Nothing is assumed about who uses which identifier and when, about
  how long a worker takes, or about whose claims the Reaper resets.

  Theory Interleaving is an abstraction of this system (theory Atomic_Refinement): there the
  pool is two sets of players and the Reaper resets what dead workers claimed.
\<close>

section \<open>States\<close>

text \<open>
  Where a worker is: with a seed, with its window, scanning the index (the entries to come and the
  candidates so far), with too few candidates, with candidates (\<open>W_found\<close>), claiming with the stores of
  \<open>try_claim\<close>, \<open>release_claim\<close> and \<open>mark_matched\<close>, the two halves of \<open>PlayerPool::remove\<close> (the
  second knows the player the first removed), and the eight counters of \<open>update_metrics_on_success\<close>.  A
  worker may stop anywhere (panic or cancellation); \<open>W_dead\<close> records, for the proofs only, the claims
  it left, and the players it had unlinked or only marked.
\<close>

datatype worker_point =
    W_idle
  | W_seeded addr
  | W_ranged
  | W_scanning "addr list" "addr list"
  | W_short
  | W_found "addr list"
  | W_claiming "addr list" "addr list"
  | W_claim_owner addr "addr list" "addr list"
  | W_claim_time addr "addr list" "addr list"
  | W_release_owner "addr list"
  | W_release_time "addr list"
  | W_release_state "addr list"
  | W_mark_time "addr list" "addr list"
  | W_mark_state "addr list" "addr list"
  | W_remove "addr list" "addr list"
  | W_unindex addr "addr list" "addr list"
  | W_count_match "addr list"
  | W_count_players "addr list"
  | W_count_queue "addr list"
  | W_count_waits "addr list"
  | W_count_spread "addr list"
  | W_count_spreads "addr list"
  | W_count_delta "addr list"
  | W_count_deltas "addr list"
  | W_dead "addr set" "addr set" "addr set"

datatype enqueue_point = E_none | E_primary | E_index | E_total | E_queue | E_done

datatype cancel_point = C_none | C_primary | C_index addr | C_queue | C_total | C_done

datatype reaper_point =
    R_visit "addr list"
  | R_read addr "addr list"
  | R_reset addr "addr list"
  | R_owner addr "addr list"
  | R_time addr "addr list"

text \<open>
  The window of a worker; whose it is and when the clock was read for it, which the code does not keep,
  are recorded for the proofs only.  A report is what a worker has computed when it goes to remove its
  players: the match and their waits.
\<close>

record window_reading =
  wn_bounds :: "u32 \<times> u32"
  wn_seed :: addr
  wn_now :: instant

record report =
  rp_players :: "addr list"
  rp_window :: window_reading
  rp_match :: match_record
  rp_waits :: "u64 list"

record service =
  at_config :: config
  at_heap :: heap
  at_next :: addr
  at_clock :: u64
  at_work :: "u64 \<Rightarrow> worker_point"
  at_now :: "u64 \<Rightarrow> u64"
  at_window :: "u64 \<Rightarrow> window_reading"
  at_report :: "u64 \<Rightarrow> report"
  at_reaper :: reaper_point
  at_scan :: u64
  at_recovered :: u32
  at_matches :: "addr list list"
  at_reports :: "report list"
  at_history :: "match_record list"
  at_checked :: "(uuid \<times> u32) multiset"
  at_enqueue :: "addr \<Rightarrow> enqueue_point"
  at_cancel :: "addr \<Rightarrow> cancel_point"
  at_primary :: "uuid \<rightharpoonup> addr"
  at_index :: "(u32 \<times> uuid) \<rightharpoonup> addr"
  at_metrics :: metrics

abbreviation at_id :: "service \<Rightarrow> addr \<Rightarrow> uuid" where
  "at_id s a \<equiv> p_id (at_heap s a)"

abbreviation at_key :: "service \<Rightarrow> addr \<Rightarrow> u32 \<times> uuid" where
  "at_key s a \<equiv> (p_skill_rating (at_heap s a), p_id (at_heap s a))"

text \<open>The worker point seen by the address-based model, and the sets it is judged by.\<close>

fun phase_of :: "worker_point \<Rightarrow> phase" where
  "phase_of W_idle = Idle"
| "phase_of (W_seeded j) = Idle"
| "phase_of W_ranged = Idle"
| "phase_of (W_scanning es cs) = Idle"
| "phase_of W_short = Idle"
| "phase_of (W_found cs) = Claiming cs []"
| "phase_of (W_claiming cs as) = Claiming cs as"
| "phase_of (W_claim_owner a cs as) = Stamp_owner a cs as"
| "phase_of (W_claim_time a cs as) = Stamp_time a cs as"
| "phase_of (W_release_owner as) = Release_owner as"
| "phase_of (W_release_time as) = Release_time as"
| "phase_of (W_release_state as) = Release_state as"
| "phase_of (W_mark_time todo as) = Mark_time todo as"
| "phase_of (W_mark_state todo as) = Mark_state todo as"
| "phase_of (W_remove todo as) = Unlink_primary todo as"
| "phase_of (W_unindex b todo as) = Unlink_index todo as"
| "phase_of (W_count_match as) = Count_match as"
| "phase_of (W_count_players as) = Count_match as"
| "phase_of (W_count_queue as) = Count_match as"
| "phase_of (W_count_waits as) = Idle"
| "phase_of (W_count_spread as) = Idle"
| "phase_of (W_count_spreads as) = Idle"
| "phase_of (W_count_delta as) = Idle"
| "phase_of (W_count_deltas as) = Idle"
| "phase_of (W_dead A U L) = Crashed A U L"

fun die :: "worker_point \<Rightarrow> worker_point" where
  "die p = W_dead (live (phase_of p)) (unlinked (phase_of p)) (linked (phase_of p))"

fun forget :: "addr \<Rightarrow> worker_point \<Rightarrow> worker_point" where
  "forget a (W_dead A U L) = W_dead (A - {a}) U L"
| "forget a p = p"

text \<open>A claim is stale when it is stamped and its stamp is older than the timeout.\<close>

definition too_old :: "u64 \<Rightarrow> u64 \<Rightarrow> u64 \<Rightarrow> bool" where
  "too_old now timeout ts \<longleftrightarrow> ts \<noteq> 0 \<and> timeout < saturating_sub now ts"

text \<open>
  A scan holds the read lock of the index; inserting and deleting an entry need the write lock.
  \<open>index_range\<close> are the players under the keys between the two bounds, in the order of the keys.
\<close>

fun scanning :: "worker_point \<Rightarrow> bool" where
  "scanning (W_scanning es cs) = True"
| "scanning p = False"

definition index_unlocked :: "service \<Rightarrow> bool" where
  "index_unlocked s \<longleftrightarrow> (\<forall>w. \<not> scanning (at_work s w))"

definition index_range :: "(u32 \<times> uuid \<rightharpoonup> addr) \<Rightarrow> u32 \<times> u32 \<Rightarrow> addr list" where
  "index_range index window =
     map (the \<circ> index) (sorted_list_of_set
       {k \<in> dom index. (min (fst window) MAX_SKILL_RATING, 0) \<le> k \<and> k \<le> (min (snd window) MAX_SKILL_RATING, uuid_max)})"

text \<open>
  The report of a worker, read in one step off the words of its own players, which nobody else
  writes while its claims hold.
\<close>

definition make_report :: "readings \<Rightarrow> window_reading \<Rightarrow> heap \<Rightarrow> addr list \<Rightarrow> addr balance_result \<Rightarrow> report" where
  "make_report rd window h as balance =
     \<lparr>rp_players = as, rp_window = window, rp_match = build_match rd h as balance, rp_waits = wait_times rd h as\<rparr>"

section \<open>Steps of the tasks\<close>

abbreviation bump :: "(metrics \<Rightarrow> metrics) \<Rightarrow> service \<Rightarrow> service" where
  "bump f s \<equiv> s\<lparr>at_metrics := f (at_metrics s)\<rparr>"

text \<open>
  An enqueue is its check (\<open>t_check\<close>), the new player (\<open>t_create\<close>), the two insertions of
  \<open>pool_step\<close> and two counters; a cancellation its compare-and-swap (\<open>t_evict\<close>, on a player it
  found in the pool at some time), the two removals and two counters.  Refused requests and attempts
  that find nobody waiting change nothing and are not steps.

  Two clocks are read.  \<open>at_clock\<close> is the wall clock in milliseconds, which stamps claims and ages
  them; \<open>t_tick\<close> only moves it forward.  That is an idealisation: \<open>unix_ms\<close> reads \<open>SystemTime\<close>, which may
  be set back, and everything that speaks of timely runs is relative to a clock that is not.  Join
  times, windows and match times are readings of \<open>Instant\<close>, taken afresh at every access (\<open>now\<close>); no order
  among them is assumed here.

  The seed is a player that was in the primary store and waiting when the iteration over the store
  came to him; which of them is chosen depends on what else the iteration saw, and is left open.
  The scan reads the entries of the window one by one; a weak reference may be dead once its player is
  no longer in the primary store.  The Reaper's scan may return any players that were ever inserted.
\<close>

inductive task_step :: "u64 \<Rightarrow> service \<Rightarrow> service \<Rightarrow> bool" for timeout :: u64 where
  t_tick: "at_clock s \<le> t \<Longrightarrow> task_step timeout s (s\<lparr>at_clock := t\<rparr>)"
| t_check: "r \<le> MAX_SKILL_RATING \<Longrightarrow> at_primary s i = None \<Longrightarrow>
    task_step timeout s (s\<lparr>at_checked := add_mset (i, r) (at_checked s)\<rparr>)"
| t_create: "(i, r) \<in># at_checked s \<Longrightarrow> a = at_next s \<Longrightarrow>
    task_step timeout s (s\<lparr>at_heap := (at_heap s)(a := player_new now i r), at_next := Suc a,
      at_checked := at_checked s - {#(i, r)#}, at_enqueue := (at_enqueue s)(a := E_primary)\<rparr>)"
| t_enqueue_total: "at_enqueue s a = E_total \<Longrightarrow>
    task_step timeout s (bump (\<lambda>m. m\<lparr>mt_total_players_enqueued := mt_total_players_enqueued m + 1\<rparr>)
      (s\<lparr>at_enqueue := (at_enqueue s)(a := E_queue)\<rparr>))"
| t_enqueue_queue: "at_enqueue s a = E_queue \<Longrightarrow>
    task_step timeout s (bump (\<lambda>m. m\<lparr>mt_current_queue_size := mt_current_queue_size m + 1\<rparr>)
      (s\<lparr>at_enqueue := (at_enqueue s)(a := E_done)\<rparr>))"
| t_evict: "a < at_next s \<Longrightarrow> at_enqueue s a \<noteq> E_primary \<Longrightarrow>
    compare_exchange WAITING EVICTED (at_heap s a) = (True, p) \<Longrightarrow>
    task_step timeout s (s\<lparr>at_heap := (at_heap s)(a := p), at_cancel := (at_cancel s)(a := C_primary)\<rparr>)"
| t_cancel_queue: "at_cancel s a = C_queue \<Longrightarrow>
    task_step timeout s (bump (\<lambda>m. m\<lparr>mt_current_queue_size := mt_current_queue_size m - 1\<rparr>)
      (s\<lparr>at_cancel := (at_cancel s)(a := C_total)\<rparr>))"
| t_cancel_total: "at_cancel s a = C_total \<Longrightarrow>
    task_step timeout s (bump (\<lambda>m. m\<lparr>mt_total_players_cancelled := mt_total_players_cancelled m + 1\<rparr>)
      (s\<lparr>at_cancel := (at_cancel s)(a := C_done)\<rparr>))"
| t_seed: "at_work s w = W_idle \<Longrightarrow> j \<in> ran (at_primary s) \<Longrightarrow> is_waiting (at_heap s j) \<Longrightarrow>
    task_step timeout s (s\<lparr>at_work := (at_work s)(w := W_seeded j)\<rparr>)"
| t_window: "at_work s w = W_seeded j \<Longrightarrow>
    task_step timeout s (bump count_cycle (s\<lparr>at_window := (at_window s)(w :=
        \<lparr>wn_bounds = scan_bounds now (p_skill_rating (at_heap s j)) (p_join_timestamp (at_heap s j)) (at_config s),
         wn_seed = j, wn_now = now\<rparr>),
      at_work := (at_work s)(w := W_ranged)\<rparr>))"
| t_scan: "at_work s w = W_ranged \<Longrightarrow>
    task_step timeout s (s\<lparr>at_work := (at_work s)(w := W_scanning (index_range (at_index s) (wn_bounds (at_window s w))) [])\<rparr>)"
| t_read: "at_work s w = W_scanning (a # es) cs \<Longrightarrow> p_state (at_heap s a) = WAITING \<Longrightarrow>
    task_step timeout s (s\<lparr>at_work := (at_work s)(w :=
      W_scanning (if MAX_CANDIDATES_PER_SCAN \<le> length (cs @ [a]) then [] else es) (cs @ [a]))\<rparr>)"
| t_skip: "at_work s w = W_scanning (a # es) cs \<Longrightarrow> p_state (at_heap s a) \<noteq> WAITING \<or> a \<notin> ran (at_primary s) \<Longrightarrow>
    task_step timeout s (s\<lparr>at_work := (at_work s)(w := W_scanning es cs)\<rparr>)"
| t_scanned: "at_work s w = W_scanning [] cs \<Longrightarrow> MATCH_SIZE \<le> length cs \<Longrightarrow>
    task_step timeout s (s\<lparr>at_work := (at_work s)(w := W_found (sort_key (join_key (at_heap s)) cs))\<rparr>)"
| t_short: "at_work s w = W_scanning [] cs \<Longrightarrow> length cs < MATCH_SIZE \<Longrightarrow>
    task_step timeout s (s\<lparr>at_work := (at_work s)(w := W_short)\<rparr>)"
| t_count_short: "at_work s w = W_short \<Longrightarrow>
    task_step timeout s (bump count_insufficient (s\<lparr>at_work := (at_work s)(w := W_idle)\<rparr>))"
| t_begin: "at_work s w = W_found cs \<Longrightarrow>
    task_step timeout s (s\<lparr>at_now := (at_now s)(w := at_clock s), at_work := (at_work s)(w := W_claiming cs [])\<rparr>)"
| t_win: "at_work s w = W_claiming (a # cs) as \<Longrightarrow> length as \<noteq> MATCH_SIZE \<Longrightarrow>
    compare_exchange WAITING CLAIMED (at_heap s a) = (True, p) \<Longrightarrow>
    task_step timeout s (s\<lparr>at_heap := (at_heap s)(a := p), at_work := (at_work s)(w := W_claim_owner a cs as)\<rparr>)"
| t_lose: "at_work s w = W_claiming (a # cs) as \<Longrightarrow> length as \<noteq> MATCH_SIZE \<Longrightarrow>
    compare_exchange WAITING CLAIMED (at_heap s a) = (False, p) \<Longrightarrow>
    task_step timeout s (s\<lparr>at_work := (at_work s)(w := W_claiming cs as)\<rparr>)"
| t_stamp_owner: "at_work s w = W_claim_owner a cs as \<Longrightarrow>
    task_step timeout s (s\<lparr>at_heap := (at_heap s)(a := (at_heap s a)\<lparr>p_claimed_by := w\<rparr>),
      at_work := (at_work s)(w := W_claim_time a cs as)\<rparr>)"
| t_stamp_time: "at_work s w = W_claim_time a cs as \<Longrightarrow>
    task_step timeout s (s\<lparr>at_heap := (at_heap s)(a := (at_heap s a)\<lparr>p_claim_timestamp := at_now s w\<rparr>),
      at_work := (at_work s)(w := W_claiming cs (as @ [a]))\<rparr>)"
| t_too_few: "at_work s w = W_claiming [] as \<Longrightarrow> length as < MATCH_SIZE \<Longrightarrow>
    task_step timeout s (s\<lparr>at_work := (at_work s)(w := W_release_owner as)\<rparr>)"
| t_release_owner: "at_work s w = W_release_owner (a # as) \<Longrightarrow>
    task_step timeout s (s\<lparr>at_heap := (at_heap s)(a := (at_heap s a)\<lparr>p_claimed_by := 0\<rparr>),
      at_work := (at_work s)(w := W_release_time (a # as))\<rparr>)"
| t_release_time: "at_work s w = W_release_time (a # as) \<Longrightarrow>
    task_step timeout s (s\<lparr>at_heap := (at_heap s)(a := (at_heap s a)\<lparr>p_claim_timestamp := 0\<rparr>),
      at_work := (at_work s)(w := W_release_state (a # as))\<rparr>)"
| t_release_state: "at_work s w = W_release_state (a # as) \<Longrightarrow>
    task_step timeout s (s\<lparr>at_heap := (at_heap s)(a := snd (compare_exchange CLAIMED WAITING (at_heap s a))),
      at_work := (at_work s)(w := W_release_owner as)\<rparr>)"
| t_released: "at_work s w = W_release_owner [] \<Longrightarrow>
    task_step timeout s (bump count_claim_failed (s\<lparr>at_work := (at_work s)(w := W_idle)\<rparr>))"
| t_enough: "at_work s w = W_claiming cs as \<Longrightarrow> length as = MATCH_SIZE \<Longrightarrow>
    task_step timeout s (s\<lparr>at_work := (at_work s)(w := W_mark_time as as)\<rparr>)"
| t_mark_time: "at_work s w = W_mark_time (a # todo) as \<Longrightarrow>
    task_step timeout s (s\<lparr>at_heap := (at_heap s)(a := (at_heap s a)\<lparr>p_matched_at := Some now\<rparr>),
      at_work := (at_work s)(w := W_mark_state (a # todo) as)\<rparr>)"
| t_mark_state: "at_work s w = W_mark_state (a # todo) as \<Longrightarrow>
    task_step timeout s (s\<lparr>at_heap := (at_heap s)(a := snd (compare_exchange CLAIMED MATCHED (at_heap s a))),
      at_work := (at_work s)(w := W_mark_time todo as)\<rparr>)"
| t_marked: "at_work s w = W_mark_time [] as \<Longrightarrow>
    exhaustive_balance (\<lambda>a. p_skill_rating (at_heap s a)) as = Some balance \<Longrightarrow>
    task_step timeout s (s\<lparr>at_report := (at_report s)(w := make_report rd (at_window s w) (at_heap s) as balance),
      at_work := (at_work s)(w := W_remove as as)\<rparr>)"
| t_publish: "at_work s w = W_remove [] as \<Longrightarrow>
    task_step timeout s (s\<lparr>at_matches := as # at_matches s, at_reports := at_report s w # at_reports s,
      at_history := push_history MATCH_HISTORY_LIMIT (rp_match (at_report s w)) (at_history s),
      at_work := (at_work s)(w := W_count_match as)\<rparr>)"
| t_count_match: "at_work s w = W_count_match as \<Longrightarrow>
    task_step timeout s (bump (\<lambda>m. m\<lparr>mt_total_matches_created := mt_total_matches_created m + 1\<rparr>)
      (s\<lparr>at_work := (at_work s)(w := W_count_players as)\<rparr>))"
| t_count_players: "at_work s w = W_count_players as \<Longrightarrow>
    task_step timeout s (bump (\<lambda>m. m\<lparr>mt_total_players_matched := mt_total_players_matched m + of_nat MATCH_SIZE\<rparr>)
      (s\<lparr>at_work := (at_work s)(w := W_count_queue as)\<rparr>))"
| t_count_queue: "at_work s w = W_count_queue as \<Longrightarrow>
    task_step timeout s (bump (\<lambda>m. m\<lparr>mt_current_queue_size := mt_current_queue_size m - of_nat MATCH_SIZE\<rparr>)
      (s\<lparr>at_work := (at_work s)(w := W_count_waits as)\<rparr>))"
| t_count_waits: "at_work s w = W_count_waits as \<Longrightarrow>
    task_step timeout s (bump (\<lambda>m. m\<lparr>mt_total_wait_time_ms := mt_total_wait_time_ms m + sum_list (rp_waits (at_report s w))\<rparr>)
      (s\<lparr>at_work := (at_work s)(w := W_count_spread as)\<rparr>))"
| t_count_spread: "at_work s w = W_count_spread as \<Longrightarrow>
    task_step timeout s (bump (\<lambda>m. m\<lparr>mt_skill_spread_sum := mt_skill_spread_sum m + ucast (m_skill_spread (rp_match (at_report s w)))\<rparr>)
      (s\<lparr>at_work := (at_work s)(w := W_count_spreads as)\<rparr>))"
| t_count_spreads: "at_work s w = W_count_spreads as \<Longrightarrow>
    task_step timeout s (bump (\<lambda>m. m\<lparr>mt_skill_spread_count := mt_skill_spread_count m + 1\<rparr>)
      (s\<lparr>at_work := (at_work s)(w := W_count_delta as)\<rparr>))"
| t_count_delta: "at_work s w = W_count_delta as \<Longrightarrow>
    task_step timeout s (bump (\<lambda>m. m\<lparr>mt_team_delta_sum := mt_team_delta_sum m + ucast (m_team_delta (rp_match (at_report s w)))\<rparr>)
      (s\<lparr>at_work := (at_work s)(w := W_count_deltas as)\<rparr>))"
| t_count_deltas: "at_work s w = W_count_deltas as \<Longrightarrow>
    task_step timeout s (bump (\<lambda>m. m\<lparr>mt_team_delta_count := mt_team_delta_count m + 1\<rparr>)
      (s\<lparr>at_work := (at_work s)(w := W_idle)\<rparr>))"
| t_die: "task_step timeout s (s\<lparr>at_work := (at_work s)(w := die (at_work s w))\<rparr>)"
| t_reaper_start: "at_reaper s = R_visit [] \<Longrightarrow> at_recovered s = 0 \<Longrightarrow>
    \<forall>a \<in> set as. a < at_next s \<and> at_enqueue s a \<noteq> E_primary \<Longrightarrow>
    task_step timeout s (s\<lparr>at_scan := at_clock s, at_recovered := 0, at_reaper := R_visit as\<rparr>)"
| t_reaper_skip: "at_reaper s = R_visit (a # as) \<Longrightarrow> p_state (at_heap s a) \<noteq> CLAIMED \<Longrightarrow>
    task_step timeout s (s\<lparr>at_reaper := R_visit as\<rparr>)"
| t_reaper_claimed: "at_reaper s = R_visit (a # as) \<Longrightarrow> p_state (at_heap s a) = CLAIMED \<Longrightarrow>
    task_step timeout s (s\<lparr>at_reaper := R_read a as\<rparr>)"
| t_reaper_fresh: "at_reaper s = R_read a as \<Longrightarrow> \<not> too_old (at_scan s) timeout (p_claim_timestamp (at_heap s a)) \<Longrightarrow>
    task_step timeout s (s\<lparr>at_reaper := R_visit as\<rparr>)"
| t_reaper_stale: "at_reaper s = R_read a as \<Longrightarrow> too_old (at_scan s) timeout (p_claim_timestamp (at_heap s a)) \<Longrightarrow>
    task_step timeout s (s\<lparr>at_reaper := R_reset a as\<rparr>)"
| t_reaper_lose: "at_reaper s = R_reset a as \<Longrightarrow> compare_exchange CLAIMED WAITING (at_heap s a) = (False, p) \<Longrightarrow>
    task_step timeout s (s\<lparr>at_reaper := R_visit as\<rparr>)"
| t_reaper_win: "at_reaper s = R_reset a as \<Longrightarrow> compare_exchange CLAIMED WAITING (at_heap s a) = (True, p) \<Longrightarrow>
    task_step timeout s (s\<lparr>at_heap := (at_heap s)(a := p), at_reaper := R_owner a as,
      at_work := (\<lambda>w. forget a (at_work s w))\<rparr>)"
| t_reaper_owner: "at_reaper s = R_owner a as \<Longrightarrow>
    task_step timeout s (s\<lparr>at_heap := (at_heap s)(a := (at_heap s a)\<lparr>p_claimed_by := 0\<rparr>), at_reaper := R_time a as\<rparr>)"
| t_reaper_time: "at_reaper s = R_time a as \<Longrightarrow>
    task_step timeout s (s\<lparr>at_heap := (at_heap s)(a := (at_heap s a)\<lparr>p_claim_timestamp := 0\<rparr>),
      at_recovered := at_recovered s + 1, at_reaper := R_visit as\<rparr>)"
| t_reaper_count: "at_reaper s = R_visit [] \<Longrightarrow>
    task_step timeout s (bump (\<lambda>m. m\<lparr>mt_total_stale_claims_recovered :=
      mt_total_stale_claims_recovered m + ucast (at_recovered s)\<rparr>) (s\<lparr>at_recovered := 0\<rparr>))"

section \<open>Accesses to the two maps of the pool\<close>

inductive pool_step :: "service \<Rightarrow> service \<Rightarrow> bool" where
  p_insert: "at_enqueue s a = E_primary \<Longrightarrow>
    pool_step s (s\<lparr>at_primary := (at_primary s)(at_id s a \<mapsto> a), at_enqueue := (at_enqueue s)(a := E_index)\<rparr>)"
| p_index: "at_enqueue s a = E_index \<Longrightarrow> index_unlocked s \<Longrightarrow>
    pool_step s (s\<lparr>at_index := (at_index s)(at_key s a \<mapsto> a), at_enqueue := (at_enqueue s)(a := E_total)\<rparr>)"
| p_cancel: "at_cancel s a = C_primary \<Longrightarrow> at_primary s (at_id s a) = Some b \<Longrightarrow>
    pool_step s (s\<lparr>at_primary := (at_primary s)(at_id s a := None), at_cancel := (at_cancel s)(a := C_index b)\<rparr>)"
| p_cancel_absent: "at_cancel s a = C_primary \<Longrightarrow> at_primary s (at_id s a) = None \<Longrightarrow>
    pool_step s (s\<lparr>at_cancel := (at_cancel s)(a := C_queue)\<rparr>)"
| p_cancel_index: "at_cancel s a = C_index b \<Longrightarrow> index_unlocked s \<Longrightarrow>
    pool_step s (s\<lparr>at_index := (at_index s)(at_key s b := None), at_cancel := (at_cancel s)(a := C_queue)\<rparr>)"
| p_remove: "at_work s w = W_remove (a # todo) as \<Longrightarrow> at_primary s (at_id s a) = Some b \<Longrightarrow>
    pool_step s (s\<lparr>at_primary := (at_primary s)(at_id s a := None),
      at_work := (at_work s)(w := W_unindex b (a # todo) as)\<rparr>)"
| p_remove_absent: "at_work s w = W_remove (a # todo) as \<Longrightarrow> at_primary s (at_id s a) = None \<Longrightarrow>
    pool_step s (s\<lparr>at_work := (at_work s)(w := W_remove todo as)\<rparr>)"
| p_unindex: "at_work s w = W_unindex b (a # todo) as \<Longrightarrow> index_unlocked s \<Longrightarrow>
    pool_step s (s\<lparr>at_index := (at_index s)(at_key s b := None), at_work := (at_work s)(w := W_remove todo as)\<rparr>)"

definition node_step :: "u64 \<Rightarrow> service \<Rightarrow> service \<Rightarrow> bool" where
  "node_step timeout s t \<longleftrightarrow> task_step timeout s t \<or> pool_step s t"

definition node_init :: "service \<Rightarrow> bool" where
  "node_init s \<longleftrightarrow> at_next s = 0 \<and> at_work s = (\<lambda>w. W_idle) \<and> at_reaper s = R_visit [] \<and> at_scan s \<le> at_clock s \<and>
     at_recovered s = 0 \<and> at_matches s = [] \<and> at_reports s = [] \<and> at_history s = [] \<and> at_checked s = {#} \<and> at_enqueue s = (\<lambda>a. E_none) \<and>
     at_cancel s = (\<lambda>a. C_none) \<and> at_primary s = Map.empty \<and> at_index s = Map.empty \<and> at_metrics s = metrics_new"

section \<open>What the code relies on\<close>

text \<open>
  Timeliness: no live worker takes longer than the timeout between reading the clock for its
  claims and marking the last player, on a wall clock that is never set back.
\<close>

fun claiming :: "worker_point \<Rightarrow> bool" where
  "claiming (W_claiming cs as) = True"
| "claiming (W_claim_owner a cs as) = True"
| "claiming (W_claim_time a cs as) = True"
| "claiming (W_release_owner as) = True"
| "claiming (W_release_time as) = True"
| "claiming (W_release_state as) = True"
| "claiming (W_mark_time todo as) = True"
| "claiming (W_mark_state todo as) = True"
| "claiming p = False"

definition timely :: "u64 \<Rightarrow> service \<Rightarrow> bool" where
  "timely timeout s \<longleftrightarrow> (\<forall>w. claiming (at_work s w) \<longrightarrow> unat (at_clock s) - unat (at_now s w) \<le> unat timeout)"

text \<open>
  Order: at most one player of an identifier is in touch with the pool, that is, filed in one of
  the maps or about to be inserted or removed there.  A player may come back once his previous
  removal is complete.
\<close>

fun removing :: "worker_point \<Rightarrow> addr set" where
  "removing (W_remove todo as) = set todo"
| "removing (W_unindex b todo as) = insert b (set todo)"
| "removing _ = {}"

definition in_touch :: "service \<Rightarrow> addr \<Rightarrow> bool" where
  "in_touch s a \<longleftrightarrow> at_enqueue s a \<in> {E_primary, E_index} \<or> a \<in> ran (at_primary s) \<or> a \<in> ran (at_index s) \<or>
     at_cancel s a = C_primary \<or> (\<exists>b. at_cancel s a = C_index b \<or> at_cancel s b = C_index a) \<or>
     (\<exists>w. a \<in> removing (at_work s w))"

definition orderly :: "service \<Rightarrow> bool" where
  "orderly s \<longleftrightarrow> (\<forall>a b. in_touch s a \<and> in_touch s b \<and> at_id s a = at_id s b \<longrightarrow> a = b)"

text \<open>Runs of the service whose workers are timely, and those that are also orderly.\<close>

definition timely_step :: "u64 \<Rightarrow> service \<Rightarrow> service \<Rightarrow> bool" where
  "timely_step timeout s t \<longleftrightarrow> node_step timeout s t \<and> timely timeout t"

definition orderly_step :: "u64 \<Rightarrow> service \<Rightarrow> service \<Rightarrow> bool" where
  "orderly_step timeout s t \<longleftrightarrow> timely_step timeout s t \<and> orderly t"

end
