(* ===== verification/Atomic_Refinement.thy ===== *)
theory Atomic_Refinement
  imports Atomic Accounting
begin

text \<open>
  The running service of theory Atomic, as long as its workers are timely, behaves like the
  address-based model of theory Interleaving: the Reaper only resets what dead workers claimed.
  As long as it is orderly too, the pool maps are the sets of that model.
\<close>

section \<open>Identifiers and the pool maps\<close>

definition maps_ok :: "service \<Rightarrow> bool" where
  "maps_ok s \<longleftrightarrow>
     (\<forall>i a. at_primary s i = Some a \<longrightarrow> a < at_next s \<and> at_id s a = i \<and> at_enqueue s a \<noteq> E_primary) \<and>
     (\<forall>k a. at_index s k = Some a \<longrightarrow> a < at_next s \<and> at_key s a = k \<and> at_enqueue s a \<in> {E_total, E_queue, E_done})"

definition stages_ok :: "service \<Rightarrow> bool" where
  "stages_ok s \<longleftrightarrow>
     (\<forall>a. at_next s \<le> a \<longrightarrow> at_enqueue s a = E_none \<and> at_cancel s a = C_none) \<and>
     (\<forall>a < at_next s. at_enqueue s a \<noteq> E_none) \<and>
     (\<forall>a b. at_cancel s a = C_index b \<longrightarrow> b < at_next s \<and> at_id s b = at_id s a) \<and>
     (\<forall>w b todo as. at_work s w = W_unindex b todo as \<longrightarrow>
        b < at_next s \<and> todo \<noteq> [] \<and> hd todo < at_next s \<and> at_id s b = at_id s (hd todo))"

lemma maps_okD:
  assumes "maps_ok s"
  shows "at_primary s i = Some a \<Longrightarrow> a < at_next s \<and> at_id s a = i \<and> at_enqueue s a \<noteq> E_primary"
    and "at_index s k = Some a \<Longrightarrow> a < at_next s \<and> at_key s a = k \<and> at_enqueue s a \<in> {E_total, E_queue, E_done}"
  using assms unfolding maps_ok_def by blast+

text \<open>A player in one of the maps is there under his own identifier and rating.\<close>

lemma filed_own:
  assumes "maps_ok s"
  shows "a \<in> ran (at_primary s) \<Longrightarrow> at_primary s (at_id s a) = Some a"
    and "a \<in> ran (at_index s) \<Longrightarrow> at_index s (at_key s a) = Some a"
proof -
  assume "a \<in> ran (at_primary s)"
  then obtain i where "at_primary s i = Some a" by (auto simp: ran_def)
  with maps_okD(1) [OF assms this] show "at_primary s (at_id s a) = Some a" by simp
next
  assume "a \<in> ran (at_index s)"
  then obtain k where "at_index s k = Some a" by (auto simp: ran_def)
  with maps_okD(2) [OF assms this] show "at_index s (at_key s a) = Some a" by simp
qed

lemma stages_okD:
  assumes "stages_ok s"
  shows "at_next s \<le> a \<Longrightarrow> at_enqueue s a = E_none \<and> at_cancel s a = C_none"
    and "a < at_next s \<Longrightarrow> at_enqueue s a \<noteq> E_none"
    and "at_cancel s a = C_index b \<Longrightarrow> b < at_next s \<and> at_id s b = at_id s a"
    and "at_work s w = W_unindex b todo as \<Longrightarrow>
      b < at_next s \<and> todo \<noteq> [] \<and> hd todo < at_next s \<and> at_id s b = at_id s (hd todo)"
  using assms unfolding stages_ok_def by blast+

lemma snd_compare_exchange [simp]:
  "p_id (snd (compare_exchange x y p)) = p_id p" "p_skill_rating (snd (compare_exchange x y p)) = p_skill_rating p"
  by (simp_all add: compare_exchange_def)

lemma compare_exchange_keeps:
  "compare_exchange x y p = (b, q) \<Longrightarrow> p_id q = p_id p \<and> p_skill_rating q = p_skill_rating p"
  by (auto simp: compare_exchange_def split: if_splits)

text \<open>
  Whatever a task does, the maps stay, a player keeps identifier and rating, and no task but the
  ones at the pool comes to know a removed player.
\<close>

lemma task_step_maps: "task_step timeout s t \<Longrightarrow> at_primary t = at_primary s \<and> at_index t = at_index s"
  by (induction rule: task_step.induct) simp_all

lemma task_step_players:
  "task_step timeout s t \<Longrightarrow> at_next s \<le> at_next t \<and> (\<forall>a < at_next s. at_key t a = at_key s a)"
  by (induction rule: task_step.induct) (auto dest: compare_exchange_keeps)

lemma task_step_enqueue:
  "task_step timeout s t \<Longrightarrow> a < at_next s \<Longrightarrow> at_enqueue t a = at_enqueue s a \<or>
   at_enqueue s a \<in> {E_total, E_queue} \<and> at_enqueue t a \<in> {E_queue, E_done}"
  by (induction rule: task_step.induct) simp_all

lemma task_step_new:
  "task_step timeout s t \<Longrightarrow> stages_ok s \<Longrightarrow> at_next s \<le> a \<Longrightarrow>
   at_cancel t a = C_none \<and> at_enqueue t a = (if a < at_next t then E_primary else E_none)"
  by (induction rule: task_step.induct) (auto dest: stages_okD(1))

lemma task_step_cancel:
  "task_step timeout s t \<Longrightarrow> at_cancel t a = C_index b \<Longrightarrow> at_cancel s a = C_index b"
  by (induction rule: task_step.induct) (simp_all split: if_splits)

lemma forget_eq: "forget a p = W_unindex b todo as \<longleftrightarrow> p = W_unindex b todo as"
  by (cases p) simp_all

lemma task_step_unindex:
  "task_step timeout s t \<Longrightarrow> at_work t w = W_unindex b todo as \<Longrightarrow> at_work s w = W_unindex b todo as"
  by (induction rule: task_step.induct) (simp_all add: forget_eq split: if_splits)

lemma maps_ok_task:
  assumes step: "task_step timeout s t" and ok: "maps_ok s"
  shows "maps_ok t"
  unfolding maps_ok_def
proof (intro conjI allI impI)
  note maps = task_step_maps [OF step] and old = task_step_players [OF step] and enq = task_step_enqueue [OF step]
  fix i a
  assume "at_primary t i = Some a"
  then have a: "a < at_next s" "at_id s a = i" "at_enqueue s a \<noteq> E_primary"
    using maps_okD(1) [OF ok] maps by auto
  with old enq [OF a(1)] show "a < at_next t" "at_id t a = i" "at_enqueue t a \<noteq> E_primary" by auto
next
  note maps = task_step_maps [OF step] and old = task_step_players [OF step] and enq = task_step_enqueue [OF step]
  fix k a
  assume "at_index t k = Some a"
  then have a: "a < at_next s" "at_key s a = k" "at_enqueue s a \<in> {E_total, E_queue, E_done}"
    using maps_okD(2) [OF ok, of k a] maps by auto
  with old enq [OF a(1)] show "a < at_next t" "at_key t a = k" "at_enqueue t a \<in> {E_total, E_queue, E_done}" by auto
qed

lemma stages_ok_task:
  assumes step: "task_step timeout s t" and ok: "stages_ok s"
  shows "stages_ok t"
  unfolding stages_ok_def
proof (intro conjI allI impI)
  note new = task_step_new [OF step ok] and old = task_step_players [OF step]
  show "at_enqueue t a = E_none" "at_cancel t a = C_none" if "at_next t \<le> a" for a
    using that new [of a] old by auto
  show "at_enqueue t a \<noteq> E_none" if "a < at_next t" for a
    using that new [of a] task_step_enqueue [OF step, of a] stages_okD(2) [OF ok, of a] by (cases "a < at_next s") auto
  fix a b
  assume "at_cancel t a = C_index b"
  with task_step_cancel [OF step] have c: "at_cancel s a = C_index b" by blast
  then have "a < at_next s" using stages_okD(1) [OF ok, of a] by (cases "a < at_next s") auto
  with stages_okD(3) [OF ok c] old show "b < at_next t" "at_id t b = at_id t a" by auto
next
  fix w b todo as
  assume "at_work t w = W_unindex b todo as"
  from stages_okD(4) [OF ok task_step_unindex [OF step this]] task_step_players [OF step]
  show "b < at_next t" "todo \<noteq> []" "hd todo < at_next t" "at_id t b = at_id t (hd todo)" by auto
qed

text \<open>The accesses to the pool keep this too; who removes a player has a player to remove.\<close>

lemma maps_ok_pool: "pool_step s t \<Longrightarrow> maps_ok s \<Longrightarrow> stages_ok s \<Longrightarrow> maps_ok t"
proof (induction rule: pool_step.induct)
  case (p_insert s a)
  have "a < at_next s" using p_insert.hyps stages_okD(1) [OF p_insert.prems(2), of a] by (cases "a < at_next s") auto
  with p_insert.hyps maps_okD [OF p_insert.prems(1)] show ?case
    by (fastforce simp: maps_ok_def)
next
  case (p_index s a)
  have "a < at_next s" using p_index.hyps stages_okD(1) [OF p_index.prems(2), of a] by (cases "a < at_next s") auto
  with p_index.hyps maps_okD [OF p_index.prems(1)] show ?case
    by (fastforce simp: maps_ok_def)
qed (auto simp: maps_ok_def)

lemma stages_ok_pool:
  assumes "pool_step s t" and "maps_ok s" and "stages_ok s"
    and "\<And>w a todo as. at_work s w = W_remove (a # todo) as \<Longrightarrow> a < at_next s"
  shows "stages_ok t"
  using assms
proof (induction rule: pool_step.induct)
  case (p_insert s a)
  note old = stages_okD [OF p_insert.prems(2)]
  have "a < at_next s" using p_insert.hyps old(1) [of a] by (cases "a < at_next s") auto
  with old show ?case unfolding stages_ok_def by simp
next
  case (p_index s a)
  note old = stages_okD [OF p_index.prems(2)]
  have "a < at_next s" using p_index.hyps old(1) [of a] by (cases "a < at_next s") auto
  with old show ?case unfolding stages_ok_def by simp
next
  case (p_cancel s a b)
  note old = stages_okD [OF p_cancel.prems(2)]
  have "a < at_next s" using p_cancel.hyps old(1) [of a] by (cases "a < at_next s") auto
  with old maps_okD(1) [OF p_cancel.prems(1) p_cancel.hyps(2)] show ?case unfolding stages_ok_def by simp
next
  case (p_cancel_absent s a)
  note old = stages_okD [OF p_cancel_absent.prems(2)]
  have "a < at_next s" using p_cancel_absent.hyps old(1) [of a] by (cases "a < at_next s") auto
  with old show ?case unfolding stages_ok_def by simp
next
  case (p_cancel_index s a b)
  note old = stages_okD [OF p_cancel_index.prems(2)]
  have "a < at_next s" using p_cancel_index.hyps old(1) [of a] by (cases "a < at_next s") auto
  with old show ?case unfolding stages_ok_def by simp
next
  case (p_remove s w a todo as b)
  with stages_okD [OF p_remove.prems(2)] maps_okD(1) [OF p_remove.prems(1) p_remove.hyps(2)]
  show ?case unfolding stages_ok_def by simp
next
  case (p_remove_absent s w a todo as)
  with stages_okD [OF p_remove_absent.prems(2)] show ?case unfolding stages_ok_def by simp
next
  case (p_unindex s w b a todo as)
  with stages_okD [OF p_unindex.prems(2)] show ?case unfolding stages_ok_def by simp
qed

section \<open>Abstraction\<close>

fun enqueue_of :: "enqueue_point \<Rightarrow> handler" where
  "enqueue_of E_none = Done"
| "enqueue_of E_primary = At_primary"
| "enqueue_of E_index = At_index"
| "enqueue_of E_total = At_metrics"
| "enqueue_of E_queue = At_metrics"
| "enqueue_of E_done = Done"

fun cancel_of :: "cancel_point \<Rightarrow> handler" where
  "cancel_of C_none = Done"
| "cancel_of C_primary = At_primary"
| "cancel_of (C_index b) = At_index"
| "cancel_of C_queue = At_metrics"
| "cancel_of C_total = Done"
| "cancel_of C_done = Done"

fun reaper_of :: "reaper_point \<Rightarrow> reaper_phase" where
  "reaper_of (R_visit as) = Scanning"
| "reaper_of (R_read a as) = Scanning"
| "reaper_of (R_reset a as) = Scanning"
| "reaper_of (R_owner a as) = Clear_owner a"
| "reaper_of (R_time a as) = Clear_time a"

definition sys_of :: "service \<Rightarrow> int \<Rightarrow> sys" where
  "sys_of s g =
     \<lparr>sy_heap = at_heap s, sy_next = at_next s, sy_phase = phase_of \<circ> at_work s, sy_reaper = reaper_of (at_reaper s),
      sy_matches = at_matches s, sy_enqueue = enqueue_of \<circ> at_enqueue s, sy_cancel = cancel_of \<circ> at_cancel s,
      sy_primary = ran (at_primary s), sy_index = ran (at_index s), sy_gauge = g\<rparr>"

lemma sys_of_simps [simp]:
  "sy_heap (sys_of s g) = at_heap s" "sy_next (sys_of s g) = at_next s" "sy_phase (sys_of s g) w = phase_of (at_work s w)"
  "sy_reaper (sys_of s g) = reaper_of (at_reaper s)" "sy_matches (sys_of s g) = at_matches s"
  "sy_enqueue (sys_of s g) a = enqueue_of (at_enqueue s a)" "sy_cancel (sys_of s g) a = cancel_of (at_cancel s a)"
  "sy_primary (sys_of s g) = ran (at_primary s)" "sy_index (sys_of s g) = ran (at_index s)" "sy_gauge (sys_of s g) = g"
  by (simp_all add: sys_of_def)

lemma comp_upd: "f \<circ> g(x := y) = (f \<circ> g)(x := f y)"
  by (simp add: fun_eq_iff)

lemma comp_upd_same: "f y = f (g x) \<Longrightarrow> (f \<circ> g)(x := f y) = f \<circ> g"
  by (simp add: fun_eq_iff)

section \<open>Claim stamps\<close>

text \<open>
  A live worker's claims carry no stamp or the time at which it read the clock, except while the
  Reaper clears a claim it has just undone; players in the queue carry none.  Hence what the
  Reaper finds stale belongs to no live worker, and stays out of their reach.
\<close>

fun claims :: "worker_point \<Rightarrow> addr set" where
  "claims (W_dead A U L) = {}"
| "claims p = live (phase_of p)"

fun clearing :: "reaper_point \<Rightarrow> addr set" where
  "clearing (R_owner a as) = {a}"
| "clearing (R_time a as) = {a}"
| "clearing _ = {}"

fun visits :: "reaper_point \<Rightarrow> addr set" where
  "visits (R_visit as) = set as"
| "visits (R_read a as) = insert a (set as)"
| "visits (R_reset a as) = insert a (set as)"
| "visits (R_owner a as) = insert a (set as)"
| "visits (R_time a as) = insert a (set as)"

fun releasing :: "worker_point \<Rightarrow> addr set" where
  "releasing (W_release_state (a # as)) = {a}"
| "releasing _ = {}"

fun resetting :: "reaper_point \<Rightarrow> addr set" where
  "resetting (R_reset a as) = {a}"
| "resetting _ = {}"

abbreviation at_stamp :: "service \<Rightarrow> addr \<Rightarrow> u64" where
  "at_stamp s a \<equiv> p_claim_timestamp (at_heap s a)"

definition clocks_ok :: "u64 \<Rightarrow> service \<Rightarrow> bool" where
  "clocks_ok timeout s \<longleftrightarrow> at_scan s \<le> at_clock s \<and> visits (at_reaper s) \<subseteq> {..<at_next s} \<and>
     (\<forall>w. claiming (at_work s w) \<longrightarrow> at_now s w \<le> at_clock s) \<and> timely timeout s"

definition stamps_ok :: "service \<Rightarrow> bool" where
  "stamps_ok s \<longleftrightarrow>
     (\<forall>w. \<forall>a \<in> claims (at_work s w). a \<in> clearing (at_reaper s) \<or> at_stamp s a = 0 \<or> at_stamp s a = at_now s w) \<and>
     (\<forall>a < at_next s. p_state (at_heap s a) = WAITING \<longrightarrow> a \<in> clearing (at_reaper s) \<or> at_stamp s a = 0) \<and>
     (\<forall>w. \<forall>a \<in> releasing (at_work s w). at_stamp s a = 0) \<and>
     (\<forall>a \<in> resetting (at_reaper s). p_state (at_heap s a) \<noteq> WAITING \<and> (\<forall>w. a \<notin> claims (at_work s w)))"

lemma stamps_okD:
  assumes "stamps_ok s"
  shows "a \<in> claims (at_work s w) \<Longrightarrow> a \<in> clearing (at_reaper s) \<or> at_stamp s a = 0 \<or> at_stamp s a = at_now s w"
    and "a < at_next s \<Longrightarrow> p_state (at_heap s a) = WAITING \<Longrightarrow> a \<in> clearing (at_reaper s) \<or> at_stamp s a = 0"
    and "a \<in> releasing (at_work s w) \<Longrightarrow> at_stamp s a = 0"
    and "a \<in> resetting (at_reaper s) \<Longrightarrow> p_state (at_heap s a) \<noteq> WAITING \<and> a \<notin> claims (at_work s w)"
  using assms unfolding stamps_ok_def by blast+

lemma claims_live: "a \<in> claims p \<Longrightarrow> a \<in> live (phase_of p)"
  by (cases p) simp_all

lemma claims_claiming: "a \<in> claims p \<Longrightarrow> claiming p"
  by (cases p) simp_all

lemma claims_forget [simp]: "claims (forget a p) = claims p"
  by (cases p) simp_all

lemma releasing_forget [simp]: "releasing (forget a p) = releasing p"
  by (cases p) simp_all

lemma claiming_forget [simp]: "claiming (forget a p) = claiming p"
  by (cases p) simp_all

lemma releasing_claims: "a \<in> releasing p \<Longrightarrow> a \<in> claims p"
  by (cases p rule: releasing.cases) simp_all

text \<open>Who holds a claim under the ownership invariant, read off the worker points.\<close>

lemma claimsD:
  assumes "conc_ok (sys_of s g)" and "a \<in> claims (at_work s w)"
  shows "a < at_next s" and "p_state (at_heap s a) = CLAIMED" and "a \<in> claims (at_work s v) \<Longrightarrow> v = w"
proof -
  have w: "a \<in> live (sy_phase (sys_of s g) w)" using claims_live [OF assms(2)] by simp
  from conc_okD(2) [OF assms(1) w] show "a < at_next s" "p_state (at_heap s a) = CLAIMED" by simp_all
  show "v = w" if "a \<in> claims (at_work s v)"
  proof (rule conc_okD(4) [OF assms(1), of a])
    show "a \<in> held (sy_phase (sys_of s g) v)" using claims_live [OF that] by (simp add: held_def)
    show "a \<in> held (sy_phase (sys_of s g) w)" using w by (simp add: held_def)
  qed
qed

lemma stamps_claims:
  assumes "task_step timeout s t" and "stamps_ok s" and "conc_ok (sys_of s g)" and "a \<in> claims (at_work t w)"
  shows "a \<in> clearing (at_reaper t) \<or> at_stamp t a = 0 \<or> at_stamp t a = at_now t w"
  using assms
proof (induction rule: task_step.induct)
  case (t_win s v b cs as p)
  from conc_okD(1) [OF t_win.prems(2), of v] t_win.hyps(1) have "b < at_next s" by simp
  moreover from t_win.hyps(3) have p: "p_state (at_heap s b) = WAITING" "p = (at_heap s b)\<lparr>p_state := CLAIMED\<rparr>"
    by (simp_all add: compare_exchange_True)
  ultimately have new: "b \<in> clearing (at_reaper s) \<or> at_stamp s b = 0" using stamps_okD(2) [OF t_win.prems(1)] by blast
  show ?case
  proof (cases "a = b")
    case False
    with t_win.prems(3) t_win.hyps(1) have "a \<in> claims (at_work s w)" by (simp split: if_splits)
    from stamps_okD(1) [OF t_win.prems(1) this] False show ?thesis by simp
  qed (use new in \<open>auto simp: p\<close>)
next
  case (t_stamp_time s v b cs as)
  have "b \<in> claims (at_work s v)" using t_stamp_time.hyps by simp
  note mine = claimsD(3) [OF t_stamp_time.prems(2) this, of w]
  from t_stamp_time.prems(3) t_stamp_time.hyps have "a \<in> claims (at_work s w)" by (simp split: if_splits)
  with mine stamps_okD(1) [OF t_stamp_time.prems(1) this] show ?case by auto
next
  case (t_create i r s b now)
  then have old: "a \<in> claims (at_work s w)" by simp
  from claimsD(1) [OF t_create.prems(2) old] stamps_okD(1) [OF t_create.prems(1) old] t_create.hyps(2)
  show ?case by simp
next
  case (t_evict b s p)
  with stamps_okD(1) [OF t_evict.prems(1), of a w] show ?case by (auto simp: compare_exchange_True)
next
  case (t_reaper_win s b as p)
  with stamps_okD(1) [OF t_reaper_win.prems(1), of a w] show ?case by (auto simp: compare_exchange_True)
qed (force dest: stamps_okD(1) simp: compare_exchange_def split: if_splits)+

lemma stamps_waiting:
  assumes "task_step timeout s t" and "stamps_ok s" and "conc_ok (sys_of s g)" and "stages_ok s"
    and "a < at_next t" and "p_state (at_heap t a) = WAITING"
  shows "a \<in> clearing (at_reaper t) \<or> at_stamp t a = 0"
  using assms
proof (induction rule: task_step.induct)
  case (t_create i r s b now)
  then show ?case
    using stamps_okD(2) [OF t_create.prems(1), of a] by (cases "a = b") (simp_all add: player_new_def less_Suc_eq)
next
  case (t_stamp_time s v b cs as)
  have "b \<in> claims (at_work s v)" using t_stamp_time.hyps by simp
  from claimsD(2) [OF t_stamp_time.prems(2) this] t_stamp_time.prems stamps_okD(2) [OF t_stamp_time.prems(1), of a]
  show ?case by (cases "a = b") simp_all
next
  case (t_release_state s v b as)
  have "b \<in> releasing (at_work s v)" using t_release_state.hyps by simp
  from stamps_okD(3) [OF t_release_state.prems(1) this] t_release_state.prems stamps_okD(2) [OF t_release_state.prems(1), of a]
  show ?case by (cases "a = b") (simp_all add: compare_exchange_def)
next
  case (t_win s v b cs as p)
  then show ?case using stamps_okD(2) [OF t_win.prems(1), of a] by (cases "a = b") (simp_all add: compare_exchange_True)
next
  case (t_evict b s p)
  then show ?case using stamps_okD(2) [OF t_evict.prems(1), of a] by (cases "a = b") (simp_all add: compare_exchange_True)
next
  case (t_mark_state s v b todo as)
  then show ?case using stamps_okD(2) [OF t_mark_state.prems(1), of a]
    by (cases "a = b") (simp_all add: compare_exchange_def split: if_splits)
next
  case (t_reaper_win s b as p)
  then show ?case using stamps_okD(2) [OF t_reaper_win.prems(1), of a] by (cases "a = b") (simp_all add: compare_exchange_True)
qed (force dest: stamps_okD(2) split: if_splits)+

lemma stamps_releasing:
  assumes "task_step timeout s t" and "stamps_ok s" and "conc_ok (sys_of s g)" and "a \<in> releasing (at_work t w)"
  shows "at_stamp t a = 0"
  using assms
proof (induction rule: task_step.induct)
  case (t_stamp_time s v b cs as)
  have b: "b \<in> claims (at_work s v)" using t_stamp_time.hyps by simp
  from t_stamp_time.prems(3) have a: "a \<in> releasing (at_work s w)" and "w \<noteq> v" by (auto split: if_splits)
  with claimsD(3) [OF t_stamp_time.prems(2) b, of w] releasing_claims [OF a] stamps_okD(3) [OF t_stamp_time.prems(1) a]
  show ?case by auto
next
  case (t_create i r s b now)
  then have a: "a \<in> releasing (at_work s w)" by simp
  from claimsD(1) [OF t_create.prems(2) releasing_claims [OF a]] stamps_okD(3) [OF t_create.prems(1) a] t_create.hyps(2)
  show ?case by simp
next
  case (t_evict b s p)
  with stamps_okD(3) [OF t_evict.prems(1), of a w] show ?case by (auto simp: compare_exchange_True)
next
  case (t_win s v b cs as p)
  with stamps_okD(3) [OF t_win.prems(1), of a w] show ?case by (auto simp: compare_exchange_True split: if_splits)
next
  case (t_reaper_win s b as p)
  with stamps_okD(3) [OF t_reaper_win.prems(1), of a w] show ?case by (auto simp: compare_exchange_True)
next
  case (t_release_state s v b as)
  with stamps_okD(3) [OF t_release_state.prems(1), of a w] show ?case
    by (auto simp: compare_exchange_def split: if_splits)
qed (force dest: stamps_okD(3) simp: compare_exchange_def split: if_splits)+

text \<open>What the Reaper is about to reset stays out of the reach of live workers.\<close>

lemma claims_age:
  assumes "clocks_ok timeout s" and "a \<in> claims (at_work s w)" and "at_stamp s a = 0 \<or> at_stamp s a = at_now s w"
  shows "\<not> too_old (at_scan s) timeout (at_stamp s a)"
proof -
  have cl: "claiming (at_work s w)" by (rule claims_claiming [OF assms(2)])
  have "unat (at_clock s) - unat (at_now s w) \<le> unat timeout" "at_now s w \<le> at_clock s" "at_scan s \<le> at_clock s"
    using assms(1) cl by (auto simp: clocks_ok_def timely_def)
  then have "unat (saturating_sub (at_scan s) (at_now s w)) \<le> unat timeout"
    by (auto simp: saturating_sub_def word_le_nat_alt word_less_nat_alt unat_sub_if' split: if_splits)
  then have "saturating_sub (at_scan s) (at_now s w) \<le> timeout" by (simp add: word_le_nat_alt)
  with assms(3) show ?thesis by (auto simp: too_old_def)
qed

lemma stamps_resetting:
  assumes "task_step timeout s t" and "stamps_ok s" and "conc_ok (sys_of s g)" and "clocks_ok timeout s" and "stages_ok s"
    and "a \<in> resetting (at_reaper t)"
  shows "p_state (at_heap t a) \<noteq> WAITING \<and> a \<notin> claims (at_work t w)"
  using assms
proof (induction rule: task_step.induct)
  case (t_create i r s b now)
  then have "a < at_next s" by (cases "at_reaper s") (auto simp: clocks_ok_def)
  with t_create stamps_okD(4) [OF t_create.prems(1), of a w] show ?case by simp
next
  case (t_reaper_stale s b as)
  then have a: "a = b" "a < at_next s" by (simp_all add: clocks_ok_def)
  have "a \<notin> claims (at_work s w)"
    using claims_age [OF t_reaper_stale.prems(3), of a w] stamps_okD(1) [OF t_reaper_stale.prems(1), of a w] t_reaper_stale.hyps a
    by auto
  moreover have "p_state (at_heap s a) \<noteq> WAITING"
    using stamps_okD(2) [OF t_reaper_stale.prems(1) a(2)] t_reaper_stale.hyps a(1) by (auto simp: too_old_def)
  ultimately show ?case by simp
next
  case (t_win s v b cs as p)
  then have "a \<noteq> b" using stamps_okD(4) [OF t_win.prems(1), of a] by (auto simp: compare_exchange_True)
  with t_win stamps_okD(4) [OF t_win.prems(1), of a w] show ?case by (auto simp: compare_exchange_True split: if_splits)
next
  case (t_release_state s v b as)
  have "b \<in> claims (at_work s v)" using t_release_state.hyps by simp
  then have "a \<noteq> b" using stamps_okD(4) [OF t_release_state.prems(1), of a v] t_release_state.prems(5) by auto
  with t_release_state stamps_okD(4) [OF t_release_state.prems(1), of a w] show ?case by (auto split: if_splits)
qed (force dest: stamps_okD(4) [where w = w] simp: compare_exchange_def split: if_splits)+

lemma stamps_ok_task:
  assumes "task_step timeout s t" and "stamps_ok s" and "conc_ok (sys_of s g)" and "clocks_ok timeout s" and "stages_ok s"
  shows "stamps_ok t"
  unfolding stamps_ok_def
  using stamps_claims [OF assms(1-3)] stamps_waiting [OF assms(1-3,5)] stamps_releasing [OF assms(1-3)]
    stamps_resetting [OF assms] by blast

lemma clocks_ok_task:
  assumes "task_step timeout s t" and "clocks_ok timeout s" and "timely timeout t"
  shows "clocks_ok timeout t"
  unfolding clocks_ok_def
proof (intro conjI allI impI)
  show "at_scan t \<le> at_clock t" using assms(1,2) by (induction rule: task_step.induct) (auto simp: clocks_ok_def)
  show "visits (at_reaper t) \<subseteq> {..<at_next t}"
    using assms(1,2) by (induction rule: task_step.induct) (auto simp: clocks_ok_def less_Suc_eq)
  show "at_now t w \<le> at_clock t" if "claiming (at_work t w)" for w
    using assms(1,2) that by (induction rule: task_step.induct) (auto simp: clocks_ok_def split: if_splits)
qed (rule assms(3))

text \<open>The accesses to the pool touch neither clocks nor claims.\<close>

lemma stamps_ok_pool: "pool_step s t \<Longrightarrow> stamps_ok s \<Longrightarrow> stamps_ok t"
  by (induction rule: pool_step.induct) (auto simp: stamps_ok_def)

lemma clocks_ok_pool: "pool_step s t \<Longrightarrow> clocks_ok timeout s \<Longrightarrow> timely timeout t \<Longrightarrow> clocks_ok timeout t"
  by (induction rule: pool_step.induct) (auto simp: clocks_ok_def)

end
