(* ===== verification/Atomic_Scan.thy ===== *)
theory Atomic_Scan
  imports Atomic_Refinement
begin

text \<open>
  The scan of the rating index, \<open>range_scan\<close> of src/src/engine/bucket.rs, while the other tasks
  run: what its candidates are, and that a worker keeps to its window until its match is published.
\<close>

section \<open>Whom a worker deals with\<close>

text \<open>The players a worker may still claim, mark or publish.\<close>

fun listed :: "worker_point \<Rightarrow> addr set" where
  "listed (W_scanning es cs) = set es \<union> set cs"
| "listed (W_found cs) = set cs"
| "listed (W_claiming cs as) = set cs \<union> set as"
| "listed (W_claim_owner a cs as) = insert a (set cs \<union> set as)"
| "listed (W_claim_time a cs as) = insert a (set cs \<union> set as)"
| "listed (W_release_owner as) = set as"
| "listed (W_release_time as) = set as"
| "listed (W_release_state as) = set as"
| "listed (W_mark_time todo as) = set todo \<union> set as"
| "listed (W_mark_state todo as) = set todo \<union> set as"
| "listed (W_remove todo as) = set as"
| "listed (W_unindex b todo as) = set as"
| "listed p = {}"

definition in_bounds :: "u32 \<times> u32 \<Rightarrow> u32 \<Rightarrow> bool" where
  "in_bounds window r \<longleftrightarrow> min (fst window) MAX_SKILL_RATING \<le> r \<and> r \<le> min (snd window) MAX_SKILL_RATING"

text \<open>
  A scan goes through different players of the index, which stays as it is until the scan is
  over; whom a worker deals with is in its window.
\<close>

definition scans_ok :: "service \<Rightarrow> bool" where
  "scans_ok s \<longleftrightarrow>
     (\<forall>w es cs. at_work s w = W_scanning es cs \<longrightarrow> distinct (es @ cs) \<and> set es \<union> set cs \<subseteq> ran (at_index s)) \<and>
     (\<forall>w. \<forall>a \<in> listed (at_work s w). a < at_next s \<and> in_bounds (wn_bounds (at_window s w)) (p_skill_rating (at_heap s a)))"

lemma scans_okD:
  assumes "scans_ok s"
  shows "at_work s w = W_scanning es cs \<Longrightarrow> distinct (es @ cs) \<and> set es \<union> set cs \<subseteq> ran (at_index s)"
    and "a \<in> listed (at_work s w) \<Longrightarrow> a < at_next s \<and> in_bounds (wn_bounds (at_window s w)) (p_skill_rating (at_heap s a))"
  using assms unfolding scans_ok_def by blast+

lemma listed_forget [simp]: "listed (forget b p) = listed p"
  by (cases p) simp_all

lemma forget_scanning: "forget a p = W_scanning es cs \<longleftrightarrow> p = W_scanning es cs"
  by (cases p) simp_all

lemma finite_index:
  assumes "maps_ok s"
  shows "finite (dom (at_index s))"
proof (rule finite_subset)
  show "dom (at_index s) \<subseteq> (\<lambda>a. at_key s a) ` {..<at_next s}"
    using maps_okD(2) [OF assms] by (fastforce simp: dom_def)
qed simp

lemma set_index_range:
  assumes "maps_ok s"
  shows "set (index_range (at_index s) window) \<subseteq> ran (at_index s)"
    and "distinct (index_range (at_index s) window)"
    and "a \<in> set (index_range (at_index s) window) \<Longrightarrow> a < at_next s \<and> in_bounds window (p_skill_rating (at_heap s a))"
proof -
  let ?K = "{k \<in> dom (at_index s). (min (fst window) MAX_SKILL_RATING, 0) \<le> k \<and> k \<le> (min (snd window) MAX_SKILL_RATING, uuid_max)}"
  have fin: "finite ?K" using finite_index [OF assms] by simp
  note key = maps_okD(2) [OF assms]
  have at: "at_index s k = Some (the (at_index s k))" if "k \<in> ?K" for k using that by auto
  show "set (index_range (at_index s) window) \<subseteq> ran (at_index s)"
    using fin at by (auto simp: index_range_def intro: ranI)
  have "inj_on (the \<circ> at_index s) ?K"
  proof (rule inj_onI)
    fix k k'
    assume "k \<in> ?K" "k' \<in> ?K" "(the \<circ> at_index s) k = (the \<circ> at_index s) k'"
    with key [OF at [of k]] key [OF at [of k']] show "k = k'" by (metis comp_apply)
  qed
  then show "distinct (index_range (at_index s) window)" using fin by (simp add: index_range_def distinct_map)
  assume "a \<in> set (index_range (at_index s) window)"
  then obtain k where k: "k \<in> ?K" "a = the (at_index s k)" using fin by (auto simp: index_range_def)
  from key [OF at [OF k(1)]] k show "a < at_next s \<and> in_bounds window (p_skill_rating (at_heap s a))"
    by (auto simp: in_bounds_def less_eq_prod_def)
qed

text \<open>A worker takes players only from the index, in its window, and keeps the window meanwhile.\<close>

lemma task_step_listed:
  "task_step T s t \<Longrightarrow> a \<in> listed (at_work t w) \<Longrightarrow>
   a \<in> listed (at_work s w) \<or> at_work s w = W_ranged \<and> a \<in> set (index_range (at_index s) (wn_bounds (at_window s w)))"
  by (induction rule: task_step.induct) (auto split: if_splits)

lemma task_step_window:
  "task_step T s t \<Longrightarrow> at_window t w = at_window s w \<or> listed (at_work t w) = {}"
  by (induction rule: task_step.induct) auto

lemma task_step_scanning:
  "task_step T s t \<Longrightarrow> at_work t w = W_scanning es cs \<Longrightarrow>
   at_work s w = W_scanning es cs \<or>
   at_work s w = W_ranged \<and> es = index_range (at_index s) (wn_bounds (at_window s w)) \<and> cs = [] \<or>
   (\<exists>a es' cs'. at_work s w = W_scanning (a # es') cs' \<and> es \<in> {[], es'} \<and> cs \<in> {cs', cs' @ [a]})"
  by (induction rule: task_step.induct) (auto simp: forget_scanning split: if_splits)

lemma scans_ok_task:
  assumes step: "task_step T s t" and ok: "scans_ok s" and maps: "maps_ok s"
  shows "scans_ok t"
  unfolding scans_ok_def
proof (intro conjI allI impI ballI)
  note old = task_step_players [OF step] and same = task_step_maps [OF step]
  fix w a
  assume a: "a \<in> listed (at_work t w)"
  with task_step_window [OF step, of w] have win: "at_window t w = at_window s w" by auto
  from task_step_listed [OF step a] have "a < at_next s \<and> in_bounds (wn_bounds (at_window s w)) (p_skill_rating (at_heap s a))"
    using scans_okD(2) [OF ok] set_index_range(3) [OF maps] by blast
  with old win show "a < at_next t" "in_bounds (wn_bounds (at_window t w)) (p_skill_rating (at_heap t a))" by auto
next
  fix w es cs
  assume "at_work t w = W_scanning es cs"
  from task_step_scanning [OF step this] consider "at_work s w = W_scanning es cs"
    | "es = index_range (at_index s) (wn_bounds (at_window s w))" "cs = []"
    | a es' cs' where "at_work s w = W_scanning (a # es') cs'" "es \<in> {[], es'}" "cs \<in> {cs', cs' @ [a]}"
    by blast
  then have "distinct (es @ cs) \<and> set es \<union> set cs \<subseteq> ran (at_index s)"
  proof cases
    case 1
    then show ?thesis by (rule scans_okD(1) [OF ok])
  next
    case 2
    with set_index_range(1,2) [OF maps, of "wn_bounds (at_window s w)"] show ?thesis by simp
  next
    case 3
    with scans_okD(1) [OF ok 3(1)] show ?thesis by auto
  qed
  with task_step_maps [OF step] show "distinct (es @ cs)" "set es \<union> set cs \<subseteq> ran (at_index t)" by simp_all
qed

lemma unlocked_scanning: "index_unlocked s \<Longrightarrow> at_work s w \<noteq> W_scanning es cs"
  unfolding index_unlocked_def by (metis scanning.simps(1))

lemma pool_step_keeps:
  "pool_step s t \<Longrightarrow> listed (at_work t w) = listed (at_work s w) \<and> at_window t = at_window s \<and>
   at_heap t = at_heap s \<and> at_next t = at_next s"
  by (induction rule: pool_step.induct) simp_all

lemma pool_step_scanning:
  "pool_step s t \<Longrightarrow> at_work t w = W_scanning es cs \<Longrightarrow> at_work s w = W_scanning es cs \<and> at_index t = at_index s"
  by (induction rule: pool_step.induct) (auto simp: unlocked_scanning split: if_splits)

lemma scans_ok_pool:
  assumes step: "pool_step s t" and ok: "scans_ok s"
  shows "scans_ok t"
  unfolding scans_ok_def
proof (intro conjI allI impI ballI)
  note keeps = pool_step_keeps [OF step]
  show "a < at_next t" "in_bounds (wn_bounds (at_window t w)) (p_skill_rating (at_heap t a))" if "a \<in> listed (at_work t w)" for w a
    using that keeps scans_okD(2) [OF ok, of a w] by simp_all
  fix w es cs
  assume "at_work t w = W_scanning es cs"
  with pool_step_scanning [OF step this] scans_okD(1) [OF ok, of w es cs]
  show "distinct (es @ cs)" "set es \<union> set cs \<subseteq> ran (at_index t)" by simp_all
qed

end
