(* ===== verification/Atomic_Simulation.thy ===== *)
theory Atomic_Simulation
  imports Atomic_Scan Runs
begin

text \<open>
  Every step of a timely service is a step of the address-based model or invisible to it; so the
  invariants of that model hold of the service.
\<close>

section \<open>Steps of the tasks\<close>

abbreviation queue_gauge :: "service \<Rightarrow> i64" where
  "queue_gauge s \<equiv> mt_current_queue_size (at_metrics s)"

definition simulated :: "service \<Rightarrow> int \<Rightarrow> service \<Rightarrow> bool" where
  "simulated s g t \<longleftrightarrow>
     (\<exists>g'. conc_step\<^sup>=\<^sup>= (sys_of s g) (sys_of t g') \<and> (of_int g = queue_gauge s \<longrightarrow> of_int g' = queue_gauge t))"

lemma simulated_step:
  "conc_step (sys_of s g) u \<Longrightarrow> u = sys_of t g' \<Longrightarrow> (of_int g = queue_gauge s \<Longrightarrow> of_int g' = queue_gauge t) \<Longrightarrow>
   simulated s g t"
  by (auto simp: simulated_def)

lemma simulated_stutter: "sys_of t g = sys_of s g \<Longrightarrow> queue_gauge t = queue_gauge s \<Longrightarrow> simulated s g t"
  unfolding simulated_def by (intro exI [of _ g]) simp

lemma sy_funs:
  "sy_phase (sys_of s g) = phase_of \<circ> at_work s" "sy_enqueue (sys_of s g) = enqueue_of \<circ> at_enqueue s"
  "sy_cancel (sys_of s g) = cancel_of \<circ> at_cancel s"
  by (simp_all add: sys_of_def)

lemma gauge_shift:
  fixes q q' :: i64
  assumes "of_int g = q"
  shows "q' = q + 1 \<Longrightarrow> of_int (g + 1) = q'" and "q' = q - 1 \<Longrightarrow> of_int (g - 1) = q'"
    and "q' = q - 10 \<Longrightarrow> of_int (g - 10) = q'"
  unfolding of_int_add of_int_diff assms by simp_all

text \<open>The Reaper resets a claim of a dead worker, who loses it.\<close>

lemma reset_claim_is_dead:
  assumes ok: "conc_ok (sys_of s g)" and stamps: "stamps_ok s" and clocks: "visits (at_reaper s) \<subseteq> {..<at_next s}"
    and "at_reaper s = R_reset a as" and "p_state (at_heap s a) = CLAIMED"
  obtains w A U L where "at_work s w = W_dead A U L" and "a \<in> A"
    and "phase_of \<circ> (\<lambda>v. forget a (at_work s v)) = (phase_of \<circ> at_work s)(w := Crashed (A - {a}) U L)"
proof -
  from assms(3,4) have "a < at_next s" by simp
  with conc_okD(8) [OF ok, of a] assms(5) obtain w where w: "a \<in> live (phase_of (at_work s w))" by auto
  have "a \<notin> claims (at_work s w)" using stamps_okD(4) [OF stamps] assms(4) by simp
  with w obtain A U L where dead: "at_work s w = W_dead A U L" "a \<in> A" by (cases "at_work s w") auto
  have "forget a (at_work s v) = at_work s v" if "v \<noteq> w" for v
  proof -
    have "a \<notin> held (sy_phase (sys_of s g) v)"
      using conc_okD(4) [OF ok, of a v w] that w by (auto simp: held_def)
    then show ?thesis by (cases "at_work s v") (auto simp: held_def)
  qed
  with dead show ?thesis by (intro that [of w A U L]) (auto simp: fun_eq_iff)
qed

lemma task_simulated:
  assumes "task_step timeout s t" and "conc_ok (sys_of s g)" and "stamps_ok s" and "clocks_ok timeout s" and "maps_ok s"
    and "scans_ok s"
  shows "simulated s g t"
  using assms
proof (induction rule: task_step.induct)
  case (t_create i r s a now)
  show ?case
    by (rule simulated_step, rule enqueued [of a _ now i r]) (simp_all add: sys_of_def comp_upd t_create.hyps)
next
  case (t_enqueue_queue s a)
  then show ?case
    by (intro simulated_step [OF enqueue_counted [of _ a] _ gauge_shift(1) [of g]]) (simp_all add: sys_of_def comp_upd)
next
  case (t_evict a s p)
  then show ?case
    by (intro simulated_step [OF cancelled [of a _ p]]) (cases "at_enqueue s a"; simp_all add: sys_of_def comp_upd)+
next
  case (t_cancel_queue s a)
  then show ?case
    by (intro simulated_step [OF cancel_counted [of _ a] _ gauge_shift(2) [of g]]) (simp_all add: sys_of_def comp_upd)
next
  case (t_scanned s w cs)
  have "\<forall>a \<in> set cs. a < at_next s \<and> filed (sys_of s g) a"
  proof
    fix a
    assume "a \<in> set cs"
    with scans_okD(1) [OF t_scanned.prems(5) t_scanned.hyps(1)] have "a \<in> ran (at_index s)" by auto
    then show "a < at_next s \<and> filed (sys_of s g) a"
      using maps_okD(2) [OF t_scanned.prems(4)] by (fastforce simp: filed_def ran_def)
  qed
  with t_scanned.hyps(1) show ?case
    by (intro simulated_step [OF scanned [of _ w "sort_key (join_key (at_heap s)) cs"]]) (simp_all add: sys_of_def comp_upd)
next
  case (t_win s w a cs as p)
  then show ?case
    by (intro simulated_step [OF claim_won [of _ w a cs as p]]) (simp_all add: sys_of_def comp_upd)
next
  case (t_lose s w a cs as p)
  then show ?case
    by (intro simulated_step [OF claim_lost [of _ w a cs as p]]) (simp_all add: sys_of_def comp_upd)
next
  case (t_stamp_owner s w a cs as)
  then show ?case
    by (intro simulated_step [OF owner_stamped [of _ w a cs as]]) (simp_all add: sys_of_def comp_upd)
next
  case (t_stamp_time s w a cs as)
  then show ?case
    by (intro simulated_step [OF time_stamped [of _ w a cs as "at_now s w"]]) (simp_all add: sys_of_def comp_upd)
next
  case (t_too_few s w as)
  then show ?case
    by (intro simulated_step [OF too_few [of _ w as]]) (simp_all add: sys_of_def comp_upd)
next
  case (t_release_owner s w a as)
  then show ?case
    by (intro simulated_step [OF owner_released [of _ w a as]]) (simp_all add: sys_of_def comp_upd)
next
  case (t_release_time s w a as)
  then show ?case
    by (intro simulated_step [OF time_released [of _ w a as]]) (simp_all add: sys_of_def comp_upd)
next
  case (t_release_state s w a as)
  then show ?case
    by (intro simulated_step [OF state_released [of _ w a as]]) (simp_all add: sys_of_def comp_upd)
next
  case (t_released s w)
  then show ?case
    by (intro simulated_step [OF all_released [of _ w]]) (simp_all add: sys_of_def comp_upd count_claim_failed_def)
next
  case (t_enough s w cs as)
  then show ?case
    by (intro simulated_step [OF enough [of _ w cs as]]) (simp_all add: sys_of_def comp_upd)
next
  case (t_mark_time s w a todo as now)
  then show ?case
    by (intro simulated_step [OF match_timed [of _ w a todo as now]]) (simp_all add: sys_of_def comp_upd)
next
  case (t_mark_state s w a todo as)
  then show ?case
    by (intro simulated_step [OF state_marked [of _ w a todo as]]) (simp_all add: sys_of_def comp_upd)
next
  case (t_marked s w as balance rd)
  then show ?case
    by (intro simulated_step [OF all_marked [of _ w as]]) (simp_all add: sys_of_def comp_upd)
next
  case (t_publish s w as)
  then show ?case
    by (intro simulated_step [OF published [of _ w as]]) (simp_all add: sys_of_def comp_upd)
next
  case (t_count_queue s w as)
  then show ?case
    by (intro simulated_step [OF match_counted [of _ w as] _ gauge_shift(3) [of g]]) (simp_all add: sys_of_def comp_upd MATCH_SIZE_def)
next
  case (t_die s w)
  show ?case
    by (rule simulated_step [OF crashed [of _ w]]) (simp_all add: sys_of_def comp_upd)
next
  case (t_reaper_win s a as p)
  have claimed: "p_state (at_heap s a) = CLAIMED" using t_reaper_win.hyps(2) by (simp add: compare_exchange_True)
  have visits: "visits (at_reaper s) \<subseteq> {..<at_next s}" using t_reaper_win.prems(3) by (simp add: clocks_ok_def)
  show ?case
  proof (rule reset_claim_is_dead [OF t_reaper_win.prems(1,2) visits t_reaper_win.hyps(1) claimed])
    fix w A U L
    assume dead: "at_work s w = W_dead A U L" "a \<in> A"
      and after: "phase_of \<circ> (\<lambda>v. forget a (at_work s v)) = (phase_of \<circ> at_work s)(w := Crashed (A - {a}) U L)"
    show ?thesis
      by (rule simulated_step [OF reaped [of _ w A U L a p]])
        (use t_reaper_win.hyps dead in \<open>simp_all add: sys_of_def after\<close>)
  qed
next
  case (t_reaper_owner s a as)
  then show ?case
    by (intro simulated_step [OF owner_cleared [of _ a]]) (simp_all add: sys_of_def comp_upd)
next
  case (t_reaper_time s a as)
  then show ?case
    by (intro simulated_step [OF time_cleared [of _ a]]) (simp_all add: sys_of_def comp_upd)
qed (rule simulated_stutter; simp add: sys_of_def comp_upd fun_upd_idem count_cycle_def count_insufficient_def)+

section \<open>Accesses to the pool\<close>

text \<open>Ownership does not look at the pool, whatever is in it.\<close>

lemma conc_ok_cong:
  "sy_heap t = sy_heap s \<Longrightarrow> sy_next t = sy_next s \<Longrightarrow> sy_phase t = sy_phase s \<Longrightarrow> sy_matches t = sy_matches s \<Longrightarrow>
   conc_ok t = conc_ok s"
  by (simp add: conc_ok_def)

lemma conc_ok_gauge: "conc_ok (sys_of s g) = conc_ok (sys_of s g')"
  by (rule conc_ok_cong) (simp_all add: sys_of_def)

lemma pool_owned:
  assumes "pool_step s t" and "conc_ok (sys_of s g)"
  shows "conc_ok (sys_of t g)"
  using assms
proof (induction rule: pool_step.induct)
  case (p_remove s w a todo as b)
  let ?c = "(sys_of s g)\<lparr>sy_primary := {a}\<rparr>"
  have "conc_step ?c (?c\<lparr>sy_primary := sy_primary ?c - {a}, sy_phase := (sy_phase ?c)(w := Unlink_index (a # todo) as)\<rparr>)"
    by (rule primary_unlinked) (use p_remove.hyps in simp_all)
  from conc_ok_step [OF this] p_remove.prems have "conc_ok (?c\<lparr>sy_primary := sy_primary ?c - {a}, sy_phase := (sy_phase ?c)(w := Unlink_index (a # todo) as)\<rparr>)" by simp
  then show ?case by (rule iffD1 [OF conc_ok_cong, rotated -1]) (simp_all add: sys_of_def comp_upd)
next
  case (p_remove_absent s w a todo as)
  let ?c = "(sys_of s g)\<lparr>sy_primary := {}\<rparr>"
  have "conc_step ?c (?c\<lparr>sy_phase := (sy_phase ?c)(w := Unlink_primary todo as)\<rparr>)"
    by (rule primary_absent) (use p_remove_absent.hyps in simp_all)
  from conc_ok_step [OF this] p_remove_absent.prems have "conc_ok (?c\<lparr>sy_phase := (sy_phase ?c)(w := Unlink_primary todo as)\<rparr>)" by simp
  then show ?case by (rule iffD1 [OF conc_ok_cong, rotated -1]) (simp_all add: sys_of_def comp_upd)
next
  case (p_unindex s w b a todo as)
  let ?c = "sys_of s g"
  have "conc_step ?c (?c\<lparr>sy_index := sy_index ?c - {a}, sy_phase := (sy_phase ?c)(w := Unlink_primary todo as)\<rparr>)"
    by (rule index_unlinked) (use p_unindex.hyps in simp_all)
  from conc_ok_step [OF this] p_unindex.prems have "conc_ok (?c\<lparr>sy_index := sy_index ?c - {a}, sy_phase := (sy_phase ?c)(w := Unlink_primary todo as)\<rparr>)" by simp
  then show ?case by (rule iffD1 [OF conc_ok_cong, rotated -1]) (simp_all add: sys_of_def comp_upd)
qed (subst conc_ok_cong, auto simp: sys_of_def)+

text \<open>In an orderly state the maps change as sets of players do.\<close>

lemma ran_insert: "m i = None \<or> m i = Some a \<Longrightarrow> ran (m(i \<mapsto> a)) = insert a (ran m)"
  by (erule disjE) (simp_all add: ran_map_upd fun_upd_idem insert_absorb ranI)

lemma ran_delete:
  assumes "\<And>j b. m j = Some b \<Longrightarrow> j = i \<longleftrightarrow> b = a"
  shows "ran (m(i := None)) = ran m - {a}"
proof (intro set_eqI iffI)
  fix x
  assume "x \<in> ran (m(i := None))"
  then obtain j where "m j = Some x" "j \<noteq> i" by (auto simp: ran_def split: if_splits)
  with assms show "x \<in> ran m - {a}" by (auto intro: ranI)
next
  fix x
  assume "x \<in> ran m - {a}"
  then obtain j where "m j = Some x" "x \<noteq> a" by (auto simp: ran_def)
  with assms show "x \<in> ran (m(i := None))" by (auto intro!: ranI [of _ j])
qed

lemma orderlyD: "orderly s \<Longrightarrow> in_touch s a \<Longrightarrow> in_touch s b \<Longrightarrow> at_id s a = at_id s b \<Longrightarrow> a = b"
  by (auto simp: orderly_def)

lemma in_touch_filed:
  "at_primary s i = Some a \<Longrightarrow> in_touch s a" "at_index s k = Some a \<Longrightarrow> in_touch s a"
  unfolding in_touch_def by (blast intro: ranI)+

text \<open>The entries of a player in touch with the pool are his own.\<close>

lemma primary_own:
  assumes "orderly s" and "maps_ok s" and "in_touch s a" and "at_primary s j = Some b"
  shows "j = at_id s a \<longleftrightarrow> b = a"
  using maps_okD(1) [OF assms(2,4)] orderlyD [OF assms(1) in_touch_filed(1) [OF assms(4)] assms(3)] by auto

lemma index_own:
  assumes "orderly s" and "maps_ok s" and "in_touch s a" and "at_index s j = Some b"
  shows "j = at_key s a \<longleftrightarrow> b = a"
  using maps_okD(2) [OF assms(2,4)] orderlyD [OF assms(1) in_touch_filed(2) [OF assms(4)] assms(3)] by auto

lemma pool_simulated:
  assumes "pool_step s t" and "orderly s" and "maps_ok s" and "stages_ok s"
  shows "conc_step (sys_of s g) (sys_of t g)"
  using assms
proof (induction rule: pool_step.induct)
  case (p_insert s a)
  have a: "in_touch s a" using p_insert.hyps by (simp add: in_touch_def)
  have ran: "ran ((at_primary s)(at_id s a \<mapsto> a)) = insert a (ran (at_primary s))"
    by (rule ran_insert, cases "at_primary s (at_id s a)") (use primary_own [OF p_insert.prems(1,2) a] in auto)
  show ?case
    by (rule step_to, rule primary_inserted [of _ a]) (simp_all add: p_insert.hyps sys_of_def comp_upd ran del: fun_upd_apply)
next
  case (p_index s a)
  have a: "in_touch s a" using p_index.hyps by (simp add: in_touch_def)
  have ran: "ran ((at_index s)(at_key s a \<mapsto> a)) = insert a (ran (at_index s))"
    by (rule ran_insert, cases "at_index s (at_key s a)") (use index_own [OF p_index.prems(1,2) a] in auto)
  show ?case
    by (rule step_to, rule index_inserted [of _ a]) (simp_all add: p_index.hyps sys_of_def comp_upd ran del: fun_upd_apply)
next
  case (p_cancel s a b)
  have a: "in_touch s a" using p_cancel.hyps by (simp add: in_touch_def)
  note own = primary_own [OF p_cancel.prems(1,2) a]
  have "a \<in> ran (at_primary s)" using p_cancel.hyps(2) own [of "at_id s a" b] by (auto simp: ran_def)
  moreover have "ran ((at_primary s)(at_id s a := None)) = ran (at_primary s) - {a}" by (rule ran_delete) (rule own)
  ultimately show ?case
    by - (rule step_to, rule cancel_primary [of _ a], simp_all add: p_cancel.hyps sys_of_def comp_upd del: fun_upd_apply)
next
  case (p_cancel_absent s a)
  have "a \<notin> ran (at_primary s)"
    using p_cancel_absent.hyps maps_okD(1) [OF p_cancel_absent.prems(2), of _ a] by (auto simp: ran_def)
  then show ?case
    by - (rule step_to, rule cancel_primary [of _ a], simp_all add: p_cancel_absent.hyps sys_of_def comp_upd del: fun_upd_apply)
next
  case (p_cancel_index s a b)
  have a: "in_touch s a" "in_touch s b" using p_cancel_index.hyps by (auto simp: in_touch_def)
  with orderlyD [OF p_cancel_index.prems(1)] stages_okD(3) [OF p_cancel_index.prems(3) p_cancel_index.hyps(1)] have b: "b = a" by blast
  have ran: "ran ((at_index s)(at_key s a := None)) = ran (at_index s) - {a}"
    by (rule ran_delete) (rule index_own [OF p_cancel_index.prems(1,2) a(1)])
  show ?case
    by (rule step_to, rule cancel_index [of _ a]) (simp_all add: p_cancel_index.hyps sys_of_def comp_upd b ran del: fun_upd_apply)
next
  case (p_remove s w a todo as b)
  have "a \<in> removing (at_work s w)" using p_remove.hyps by simp
  then have a: "in_touch s a" unfolding in_touch_def by blast
  note own = primary_own [OF p_remove.prems(1,2) a]
  have "a \<in> ran (at_primary s)" using p_remove.hyps(2) own [of "at_id s a" b] by (auto simp: ran_def)
  moreover have "ran ((at_primary s)(at_id s a := None)) = ran (at_primary s) - {a}" by (rule ran_delete) (rule own)
  ultimately show ?case
    by - (rule step_to, rule primary_unlinked [of _ w a todo as], simp_all add: p_remove.hyps sys_of_def comp_upd del: fun_upd_apply)
next
  case (p_remove_absent s w a todo as)
  have "a \<notin> ran (at_primary s)"
    using p_remove_absent.hyps maps_okD(1) [OF p_remove_absent.prems(2), of _ a] by (auto simp: ran_def)
  then show ?case
    by - (rule step_to, rule primary_absent [of _ w a todo as], simp_all add: p_remove_absent.hyps sys_of_def comp_upd del: fun_upd_apply)
next
  case (p_unindex s w b a todo as)
  have "a \<in> removing (at_work s w)" "b \<in> removing (at_work s w)" using p_unindex.hyps by simp_all
  then have a: "in_touch s a" "in_touch s b" unfolding in_touch_def by blast+
  with orderlyD [OF p_unindex.prems(1)] stages_okD(4) [OF p_unindex.prems(3) p_unindex.hyps(1)] have b: "b = a" by fastforce
  have ran: "ran ((at_index s)(at_key s a := None)) = ran (at_index s) - {a}"
    by (rule ran_delete) (rule index_own [OF p_unindex.prems(1,2) a(1)])
  show ?case
    by (rule step_to, rule index_unlinked [of _ w a todo as]) (simp_all add: p_unindex.hyps sys_of_def comp_upd b ran del: fun_upd_apply)
qed

section \<open>Invariants of the service\<close>

definition node_ok :: "u64 \<Rightarrow> service \<Rightarrow> bool" where
  "node_ok timeout s \<longleftrightarrow>
     conc_ok (sys_of s 0) \<and> stamps_ok s \<and> clocks_ok timeout s \<and> maps_ok s \<and> stages_ok s \<and>
     scans_ok s"

lemma node_okD:
  assumes "node_ok timeout s"
  shows "conc_ok (sys_of s g)" and "stamps_ok s" and "clocks_ok timeout s" and "maps_ok s" and "stages_ok s"
    and "scans_ok s"
  using assms conc_ok_gauge [of s 0 g] by (simp_all add: node_ok_def)

lemma simulated_conc_ok:
  assumes "simulated s g t" and "conc_ok (sys_of s g)"
  shows "conc_ok (sys_of t g')"
proof -
  from assms(1) obtain g'' where "conc_step\<^sup>=\<^sup>= (sys_of s g) (sys_of t g'')" by (auto simp: simulated_def)
  then have "conc_ok (sys_of t g'')" using conc_ok_step assms(2) by auto
  then show ?thesis by (rule iffD1 [OF conc_ok_gauge])
qed

lemma node_ok_init:
  assumes "node_init s"
  shows "node_ok timeout s"
proof -
  have "conc_ok (sys_of s 0)"
    by (rule conc_ok_init) (use assms in \<open>simp add: node_init_def conc_init_def\<close>)
  then show ?thesis
    using assms by (simp add: node_ok_def node_init_def stamps_ok_def clocks_ok_def timely_def maps_ok_def stages_ok_def scans_ok_def)
qed

lemma node_ok_step:
  assumes "node_ok timeout s" and "timely_step timeout s t"
  shows "node_ok timeout t"
proof -
  note ok = node_okD [OF assms(1)]
  from assms(2) have timely: "timely timeout t" by (simp add: timely_step_def)
  from assms(2) consider (task) "task_step timeout s t" | (pool) "pool_step s t"
    by (auto simp: timely_step_def node_step_def)
  then show ?thesis
  proof cases
    case task
    then have "conc_ok (sys_of t 0)"
      by (rule simulated_conc_ok [OF task_simulated [OF _ ok(1,2,3,4,6)] ok(1)])
    then show ?thesis
      using stamps_ok_task [OF task ok(2,1,3,5)] clocks_ok_task [OF task ok(3) timely] maps_ok_task [OF task ok(4)]
        stages_ok_task [OF task ok(5)] scans_ok_task [OF task ok(6,4)] by (simp add: node_ok_def)
  next
    case pool
    have "a < at_next s" if "at_work s w = W_remove (a # todo) as" for w a todo as
      using conc_okD(1) [OF ok(1) [of 0], of w] conc_okD(3) [OF ok(1) [of 0], of a w] that by auto
    then show ?thesis
      using pool_owned [OF pool ok(1)] stamps_ok_pool [OF pool ok(2)] clocks_ok_pool [OF pool ok(3) timely]
        maps_ok_pool [OF pool ok(4,5)] stages_ok_pool [OF pool ok(4,5)] scans_ok_pool [OF pool ok(6)] by (simp add: node_ok_def)
  qed
qed

interpretation timely_service: inductive_invariant node_init "timely_step timeout" "node_ok timeout" for timeout
  by unfold_locales (auto intro: node_ok_init node_ok_step)

text \<open>An orderly service also keeps the books of the address-based model.\<close>

definition counted :: "service \<Rightarrow> bool" where
  "counted s \<longleftrightarrow> (\<exists>g. accounting_ok (sys_of s g) \<and> of_int g = queue_gauge s)"

definition tidy :: "u64 \<Rightarrow> service \<Rightarrow> bool" where
  "tidy timeout s \<longleftrightarrow> node_ok timeout s \<and> orderly s \<and> counted s"

lemma tidy_init:
  assumes "node_init s"
  shows "tidy timeout s"
proof -
  have "accounting_ok (sys_of s 0)"
    by (rule accounting_init) (use assms in \<open>simp add: node_init_def conc_init_def\<close>)
  moreover have "of_int 0 = queue_gauge s" "orderly s"
    using assms by (simp_all add: node_init_def metrics_new_def orderly_def in_touch_def)
  ultimately show ?thesis using node_ok_init [OF assms] unfolding tidy_def counted_def by blast
qed

lemma tidy_step:
  assumes "tidy timeout s" and "orderly_step timeout s t"
  shows "tidy timeout t"
proof -
  from assms(2) have timely: "timely_step timeout s t" and t: "orderly t" by (simp_all add: orderly_step_def)
  have node: "node_ok timeout s" and s: "orderly s" and "counted s" using assms(1) by (simp_all add: tidy_def)
  note ok = node_okD [OF node]
  from \<open>counted s\<close> obtain g where g: "accounting_ok (sys_of s g)" "of_int g = queue_gauge s" by (auto simp: counted_def)
  from timely consider (task) "task_step timeout s t" | (pool) "pool_step s t"
    by (auto simp: timely_step_def node_step_def)
  then have "counted t"
  proof cases
    case task
    from task_simulated [OF task ok(1,2,3,4,6), of g] g accounting.inv_step [OF g(1)] show ?thesis
      by (auto simp: simulated_def counted_def)
  next
    case pool
    have "queue_gauge t = queue_gauge s" using pool by (induction rule: pool_step.induct) simp_all
    with accounting.inv_step [OF g(1) pool_simulated [OF pool s ok(4,5)]] g(2) show ?thesis
      unfolding counted_def by auto
  qed
  with node_ok_step [OF node timely] t show ?thesis by (simp add: tidy_def)
qed

interpretation orderly_service: inductive_invariant node_init "orderly_step timeout" "tidy timeout" for timeout
  by unfold_locales (auto intro: tidy_init tidy_step)

end
