(* ===== verification/Atomic_Runs.thy ===== *)
theory Atomic_Runs
  imports Atomic_Simulation
begin

text \<open>
  Runs of the service in which one task goes on: what the steps of an enqueue and of an
  undisturbed worker add up to.
\<close>

section \<open>Steps of one task\<close>

text \<open>A worker that has just read the clock is in time as long as the clock stands.\<close>

lemma timely_mine:
  "timely T s \<Longrightarrow> at_now s w = at_clock s \<Longrightarrow> at_clock t = at_clock s \<Longrightarrow> at_now t = at_now s \<Longrightarrow>
   (\<And>v. v \<noteq> w \<Longrightarrow> at_work t v = at_work s v) \<Longrightarrow> timely T t"
  unfolding timely_def by (metis diff_self_eq_0 le0)

lemma timely_same:
  "timely T s \<Longrightarrow> at_clock t = at_clock s \<Longrightarrow> at_now t = at_now s \<Longrightarrow> at_work t = at_work s \<Longrightarrow> timely T t"
  by (simp add: timely_def)

lemma task_run: "task_step T s t \<Longrightarrow> timely T t \<Longrightarrow> (timely_step T)\<^sup>*\<^sup>* t u \<Longrightarrow> (timely_step T)\<^sup>*\<^sup>* s u"
  by (rule converse_rtranclp_into_rtranclp) (simp_all add: timely_step_def node_step_def)

lemma pool_run: "pool_step s t \<Longrightarrow> timely T t \<Longrightarrow> (timely_step T)\<^sup>*\<^sup>* t u \<Longrightarrow> (timely_step T)\<^sup>*\<^sup>* s u"
  by (rule converse_rtranclp_into_rtranclp) (simp_all add: timely_step_def node_step_def)

section \<open>The loops of a worker\<close>

lemma claim_first:
  assumes "timely T s" and "at_now s w = at_clock s" and "at_work s w = W_claiming (a # cs) as"
    and "is_waiting (at_heap s a)" and "length as \<noteq> MATCH_SIZE"
  shows "(timely_step T)\<^sup>*\<^sup>* s (s\<lparr>at_heap := (at_heap s)(a := claimed_by w (at_clock s) (at_heap s a)),
    at_work := (at_work s)(w := W_claiming cs (as @ [a]))\<rparr>)"
proof -
  note mine = timely_mine [OF assms(1,2)]
  let ?p = "(at_heap s a)\<lparr>p_state := CLAIMED\<rparr>"
  let ?s1 = "s\<lparr>at_heap := (at_heap s)(a := ?p), at_work := (at_work s)(w := W_claim_owner a cs as)\<rparr>"
  let ?s2 = "s\<lparr>at_heap := (at_heap s)(a := ?p\<lparr>p_claimed_by := w\<rparr>), at_work := (at_work s)(w := W_claim_time a cs as)\<rparr>"
  let ?s3 = "s\<lparr>at_heap := (at_heap s)(a := claimed_by w (at_clock s) (at_heap s a)), at_work := (at_work s)(w := W_claiming cs (as @ [a]))\<rparr>"
  have s1: "task_step T s ?s1"
    by (rule t_win [OF assms(3,5)]) (use assms(4) in \<open>auto simp: compare_exchange_True is_waiting_def\<close>)
  have s2: "task_step T ?s1 ?s2" using t_stamp_owner [of ?s1 w a cs as T] by simp
  have s3: "task_step T ?s2 ?s3"
    using t_stamp_time [of ?s2 w a cs as T] assms(2) by (simp add: claimed_by_def)
  have time: "timely T ?s1" "timely T ?s2" "timely T ?s3" by (rule mine; simp)+
  show ?thesis by (rule task_run [OF s1 time(1) task_run [OF s2 time(2) task_run [OF s3 time(3)]]]) simp
qed

text \<open>The claim loop takes the candidates that still wait, in order, until it has ten.\<close>

lemma claim_candidates:
  assumes "timely T s" and "at_now s w = at_clock s" and "at_work s w = W_claiming cs as" and "distinct cs"
    and "length as \<le> MATCH_SIZE" and "MATCH_SIZE \<le> length as + length (filter (\<lambda>a. is_waiting (at_heap s a)) cs)"
  shows "\<exists>rest. (timely_step T)\<^sup>*\<^sup>* s (s\<lparr>
    at_heap := update_on (set (take (MATCH_SIZE - length as) (filter (\<lambda>a. is_waiting (at_heap s a)) cs)))
      (\<lambda>_. claimed_by w (at_clock s)) (at_heap s),
    at_work := (at_work s)(w := W_claiming rest (as @ take (MATCH_SIZE - length as) (filter (\<lambda>a. is_waiting (at_heap s a)) cs)))\<rparr>)"
  using assms
proof (induction cs arbitrary: s as)
  case Nil
  have "update_on {} f h = h" for f h by (simp add: fun_eq_iff)
  with Nil show ?case by (intro exI [of _ "[]"]) (simp add: fun_upd_idem)
next
  case (Cons a cs)
  note mine = timely_mine [OF Cons.prems(1,2)]
  have none: "update_on {} f h = h" for f h by (simp add: fun_eq_iff)
  let ?wait = "\<lambda>s. filter (\<lambda>a. is_waiting (at_heap s a))"
  consider (full) "length as = MATCH_SIZE" | (win) "length as \<noteq> MATCH_SIZE" "is_waiting (at_heap s a)"
    | (lose) "length as \<noteq> MATCH_SIZE" "\<not> is_waiting (at_heap s a)" by blast
  then show ?case
  proof cases
    case full
    with Cons.prems(3) show ?thesis by (intro exI [of _ "a # cs"]) (simp add: none fun_upd_idem)
  next
    case win
    let ?s1 = "s\<lparr>at_heap := (at_heap s)(a := claimed_by w (at_clock s) (at_heap s a)), at_work := (at_work s)(w := W_claiming cs (as @ [a]))\<rparr>"
    let ?k = "MATCH_SIZE - length as - 1"
    have one: "(timely_step T)\<^sup>*\<^sup>* s ?s1" by (rule claim_first [OF Cons.prems(1-3) win(2,1)])
    have same: "?wait ?s1 cs = ?wait s cs" using Cons.prems(4) by (intro filter_cong) auto
    have new: "take (MATCH_SIZE - length as) (?wait s (a # cs)) = a # take ?k (?wait s cs)"
      using win Cons.prems(5) by (simp add: take_Cons')
    have k: "MATCH_SIZE - length (as @ [a]) = ?k" by simp
    have time: "timely T ?s1" by (rule mine) simp_all
    have "\<exists>rest. (timely_step T)\<^sup>*\<^sup>* ?s1 (?s1\<lparr>
        at_heap := update_on (set (take (MATCH_SIZE - length (as @ [a])) (?wait ?s1 cs))) (\<lambda>_. claimed_by w (at_clock ?s1)) (at_heap ?s1),
        at_work := (at_work ?s1)(w := W_claiming rest ((as @ [a]) @ take (MATCH_SIZE - length (as @ [a])) (?wait ?s1 cs)))\<rparr>)"
    proof (rule Cons.IH [OF time])
      show "MATCH_SIZE \<le> length (as @ [a]) + length (?wait ?s1 cs)" unfolding same using Cons.prems(6) win(2) by simp
    qed (use Cons.prems win(1) in simp_all)
    then obtain rest where
      "(timely_step T)\<^sup>*\<^sup>* ?s1 (?s1\<lparr>at_heap := update_on (set (take ?k (?wait s cs))) (\<lambda>_. claimed_by w (at_clock ?s1)) (at_heap ?s1),
         at_work := (at_work ?s1)(w := W_claiming rest ((as @ [a]) @ take ?k (?wait s cs)))\<rparr>)"
      unfolding same k by blast
    moreover have "?s1\<lparr>at_heap := update_on (set (take ?k (?wait s cs))) (\<lambda>_. claimed_by w (at_clock ?s1)) (at_heap ?s1),
         at_work := (at_work ?s1)(w := W_claiming rest ((as @ [a]) @ take ?k (?wait s cs)))\<rparr> =
      s\<lparr>at_heap := update_on (set (a # take ?k (?wait s cs))) (\<lambda>_. claimed_by w (at_clock s)) (at_heap s),
         at_work := (at_work s)(w := W_claiming rest (as @ a # take ?k (?wait s cs)))\<rparr>"
      by (rule service.equality) (use Cons.prems(4) in \<open>auto simp: fun_eq_iff dest: in_set_takeD\<close>)
    ultimately have "(timely_step T)\<^sup>*\<^sup>* s (s\<lparr>at_heap := update_on (set (a # take ?k (?wait s cs))) (\<lambda>_. claimed_by w (at_clock s)) (at_heap s),
         at_work := (at_work s)(w := W_claiming rest (as @ a # take ?k (?wait s cs)))\<rparr>)"
      using one by (metis (no_types, lifting) rtranclp_trans)
    then show ?thesis unfolding new by blast
  next
    case lose
    let ?s1 = "s\<lparr>at_work := (at_work s)(w := W_claiming cs as)\<rparr>"
    have step: "task_step T s ?s1"
      by (rule t_lose [OF Cons.prems(3) lose(1), of "at_heap s a"]) (use lose(2) in \<open>simp add: compare_exchange_def is_waiting_def\<close>)
    have time: "timely T ?s1" by (rule mine) simp_all
    from Cons.IH [OF time, of as] Cons.prems lose show ?thesis
      using task_run [OF step time] by (auto simp add: fun_upd_same simp del: fun_upd_apply update_on_apply)
  qed
qed

lemma mark_points:
  assumes "timely T s" and "at_now s w = at_clock s" and "at_work s w = W_mark_time todo as" and "distinct todo"
  shows "(timely_step T)\<^sup>*\<^sup>* s (s\<lparr>at_heap := update_on (set todo) (\<lambda>a. mark_matched (now a)) (at_heap s),
    at_work := (at_work s)(w := W_mark_time [] as)\<rparr>)"
  using assms
proof (induction todo arbitrary: s)
  case Nil
  have "update_on {} f h = h" for f h by (simp add: fun_eq_iff)
  with Nil show ?case by (simp add: fun_upd_idem)
next
  case (Cons a todo)
  note mine = timely_mine [OF Cons.prems(1,2)]
  let ?s1 = "s\<lparr>at_heap := (at_heap s)(a := (at_heap s a)\<lparr>p_matched_at := Some (now a)\<rparr>), at_work := (at_work s)(w := W_mark_state (a # todo) as)\<rparr>"
  let ?s2 = "s\<lparr>at_heap := (at_heap s)(a := mark_matched (now a) (at_heap s a)), at_work := (at_work s)(w := W_mark_time todo as)\<rparr>"
  have s1: "task_step T s ?s1" by (rule t_mark_time [OF Cons.prems(3)])
  have s2: "task_step T ?s1 ?s2" using t_mark_state [of ?s1 w a todo as T] by (simp add: mark_matched_def)
  have time: "timely T ?s1" "timely T ?s2" by (rule mine; simp)+
  have rest: "(timely_step T)\<^sup>*\<^sup>* ?s2 (?s2\<lparr>at_heap := update_on (set todo) (\<lambda>a. mark_matched (now a)) (at_heap ?s2),
      at_work := (at_work ?s2)(w := W_mark_time [] as)\<rparr>)"
    by (rule Cons.IH [OF \<open>timely T ?s2\<close>]) (use Cons.prems in auto)
  have "?s2\<lparr>at_heap := update_on (set todo) (\<lambda>a. mark_matched (now a)) (at_heap ?s2),
      at_work := (at_work ?s2)(w := W_mark_time [] as)\<rparr> =
    s\<lparr>at_heap := update_on (set (a # todo)) (\<lambda>a. mark_matched (now a)) (at_heap s),
      at_work := (at_work s)(w := W_mark_time [] as)\<rparr>"
    by (rule service.equality) (use Cons.prems(4) in \<open>auto simp: fun_eq_iff\<close>)
  with task_run [OF s1 time(1) task_run [OF s2 time(2) rest]] show ?case by (simp only:)
qed

lemma restrict_delete: "(m(i := None)) |` (- X) = m |` (- insert i X)"
  by (auto simp: restrict_map_def fun_eq_iff)

lemma remove_points:
  assumes "timely T s" and "at_now s w = at_clock s" and "at_work s w = W_remove todo as"
    and "\<forall>a \<in> set todo. at_primary s (at_id s a) = Some a" and "distinct (map (at_id s) todo)"
    and "\<forall>v. v \<noteq> w \<longrightarrow> \<not> scanning (at_work s v)"
  shows "(timely_step T)\<^sup>*\<^sup>* s (s\<lparr>at_primary := at_primary s |` (- (at_id s ` set todo)),
    at_index := at_index s |` (- (at_key s ` set todo)), at_work := (at_work s)(w := W_remove [] as)\<rparr>)"
  using assms
proof (induction todo arbitrary: s)
  case Nil
  then show ?case by (simp add: fun_upd_idem)
next
  case (Cons a todo)
  note mine = timely_mine [OF Cons.prems(1,2)]
  let ?s1 = "s\<lparr>at_primary := (at_primary s)(at_id s a := None), at_work := (at_work s)(w := W_unindex a (a # todo) as)\<rparr>"
  let ?s2 = "s\<lparr>at_primary := (at_primary s)(at_id s a := None), at_index := (at_index s)(at_key s a := None),
    at_work := (at_work s)(w := W_remove todo as)\<rparr>"
  have s1: "pool_step s ?s1" by (rule p_remove [OF Cons.prems(3)]) (use Cons.prems(4) in simp)
  have "index_unlocked ?s1" using Cons.prems(6) by (simp add: index_unlocked_def)
  then have s2: "pool_step ?s1 ?s2" using p_unindex [of ?s1 w a a todo as] by simp
  have time: "timely T ?s1" "timely T ?s2" by (rule mine; simp)+
  have rest: "(timely_step T)\<^sup>*\<^sup>* ?s2 (?s2\<lparr>at_primary := at_primary ?s2 |` (- (at_id ?s2 ` set todo)),
      at_index := at_index ?s2 |` (- (at_key ?s2 ` set todo)), at_work := (at_work ?s2)(w := W_remove [] as)\<rparr>)"
  proof (rule Cons.IH [OF time(2)])
    show "\<forall>b \<in> set todo. at_primary ?s2 (at_id ?s2 b) = Some b"
    proof
      fix b
      assume b: "b \<in> set todo"
      then have "at_primary s (at_id s b) = Some b" using bspec [OF Cons.prems(4), of b] by simp
      moreover have "at_id s a \<notin> at_id s ` set todo" using Cons.prems(5) by simp
      then have "at_id s b \<noteq> at_id s a" using b by (metis imageI)
      ultimately show "at_primary ?s2 (at_id ?s2 b) = Some b" by simp
    qed
  qed (use Cons.prems(2,5,6) in simp_all)
  have "?s2\<lparr>at_primary := at_primary ?s2 |` (- (at_id ?s2 ` set todo)), at_index := at_index ?s2 |` (- (at_key ?s2 ` set todo)),
      at_work := (at_work ?s2)(w := W_remove [] as)\<rparr> =
    s\<lparr>at_primary := at_primary s |` (- (at_id s ` set (a # todo))), at_index := at_index s |` (- (at_key s ` set (a # todo))),
      at_work := (at_work s)(w := W_remove [] as)\<rparr>"
    by (rule service.equality) (simp_all add: restrict_delete del: restrict_fun_upd)
  with pool_run [OF s1 time(1) pool_run [OF s2 time(2) rest]] show ?case by (simp only:)
qed

section \<open>A match\<close>

lemma timely_new:
  "timely T s \<Longrightarrow> at_clock t = at_clock s \<Longrightarrow> (\<And>v. v \<noteq> w \<Longrightarrow> at_now t v = at_now s v \<and> at_work t v = at_work s v) \<Longrightarrow>
   (claiming (at_work t w) \<Longrightarrow> at_now t w = at_clock t) \<Longrightarrow> timely T t"
  unfolding timely_def by (metis diff_self_eq_0 le0)

text \<open>A worker that has candidates reads the clock.\<close>

lemma begin_run:
  assumes "timely T s" and "at_work s w = W_found cs"
  shows "(timely_step T)\<^sup>*\<^sup>* s (s\<lparr>at_now := (at_now s)(w := at_clock s), at_work := (at_work s)(w := W_claiming cs [])\<rparr>)"
    and "timely T (s\<lparr>at_now := (at_now s)(w := at_clock s), at_work := (at_work s)(w := W_claiming cs [])\<rparr>)"
proof -
  show t: "timely T (s\<lparr>at_now := (at_now s)(w := at_clock s), at_work := (at_work s)(w := W_claiming cs [])\<rparr>)"
    by (rule timely_new [OF assms(1), of _ w]) simp_all
  show "(timely_step T)\<^sup>*\<^sup>* s (s\<lparr>at_now := (at_now s)(w := at_clock s), at_work := (at_work s)(w := W_claiming cs [])\<rparr>)"
    by (rule task_run [OF t_begin [OF assms(2)] t]) simp
qed

text \<open>An undisturbed scan finds the first two hundred waiting players of its window.\<close>

lemma not_claiming: "timely T s \<Longrightarrow> at_clock t = at_clock s \<Longrightarrow> at_now t = at_now s \<Longrightarrow>
   (\<And>v. v \<noteq> w \<Longrightarrow> at_work t v = at_work s v) \<Longrightarrow> \<not> claiming (at_work t w) \<Longrightarrow> timely T t"
  by (rule timely_new [of T s t w]) simp_all

lemma scan_points:
  assumes "timely T s" and "at_work s w = W_scanning es cs" and "length cs < MAX_CANDIDATES_PER_SCAN"
  shows "(timely_step T)\<^sup>*\<^sup>* s (s\<lparr>at_work := (at_work s)(w :=
    W_scanning [] (cs @ take (MAX_CANDIDATES_PER_SCAN - length cs) (filter (\<lambda>a. is_waiting (at_heap s a)) es)))\<rparr>)"
  using assms
proof (induction es arbitrary: s cs)
  case Nil
  then show ?case by (simp add: fun_upd_idem)
next
  case (Cons a es)
  let ?M = MAX_CANDIDATES_PER_SCAN
  let ?to = "\<lambda>es cs. s\<lparr>at_work := (at_work s)(w := W_scanning es cs)\<rparr>"
  have time: "timely T (?to es' cs')" for es' cs' by (rule not_claiming [OF Cons.prems(1), of _ w]) simp_all
  let ?rest = "\<lambda>cs. take (?M - length cs) (filter (\<lambda>a. is_waiting (at_heap s a)) es)"
  have IH: "(timely_step T)\<^sup>*\<^sup>* (?to es cs') (?to [] (cs' @ ?rest cs'))" if "length cs' < ?M" for cs'
    using Cons.IH [OF time, of es cs'] that by (simp add: fun_upd_same del: fun_upd_apply)
  consider (skip) "\<not> is_waiting (at_heap s a)" | (full) "is_waiting (at_heap s a)" "?M \<le> length (cs @ [a])"
    | (take) "is_waiting (at_heap s a)" "length (cs @ [a]) < ?M" by (meson not_le)
  then show ?case
  proof cases
    case skip
    have "task_step T s (?to es cs)" by (rule t_skip [OF Cons.prems(2)]) (use skip in \<open>simp add: is_waiting_def\<close>)
    from task_run [OF this time IH [OF Cons.prems(3)]] skip show ?thesis by (simp del: fun_upd_apply)
  next
    case full
    with Cons.prems(3) have "?M - length cs = 1" by simp
    moreover have "task_step T s (?to [] (cs @ [a]))"
      using t_read [OF Cons.prems(2), of T] full by (simp add: is_waiting_def)
    ultimately show ?thesis using task_run [OF _ time rtranclp.rtrancl_refl] full(1) by (simp del: fun_upd_apply)
  next
    case take
    then have "?M - length cs = Suc (?M - length (cs @ [a]))" by simp
    moreover have "task_step T s (?to es (cs @ [a]))"
      using t_read [OF Cons.prems(2), of T] take by (simp add: is_waiting_def)
    ultimately show ?thesis using task_run [OF _ time IH [OF take(2)]] take by (simp del: fun_upd_apply)
  qed
qed

text \<open>What a scan finds that starts now, for the seed \<open>j\<close>.\<close>

abbreviation window_at :: "instant \<Rightarrow> addr \<Rightarrow> service \<Rightarrow> window_reading" where
  "window_at now j s \<equiv>
     \<lparr>wn_bounds = scan_bounds now (p_skill_rating (at_heap s j)) (p_join_timestamp (at_heap s j)) (at_config s),
      wn_seed = j, wn_now = now\<rparr>"

definition scan_hits :: "window_reading \<Rightarrow> service \<Rightarrow> addr list" where
  "scan_hits window s =
     take MAX_CANDIDATES_PER_SCAN (filter (\<lambda>a. is_waiting (at_heap s a)) (index_range (at_index s) (wn_bounds window)))"

lemma hits_run:
  assumes "timely T s" and "at_work s w = W_idle" and "j \<in> ran (at_primary s)" and "is_waiting (at_heap s j)"
  shows "(timely_step T)\<^sup>*\<^sup>* s (s\<lparr>at_window := (at_window s)(w := window_at now j s), at_metrics := count_cycle (at_metrics s),
    at_work := (at_work s)(w := W_scanning [] (scan_hits (window_at now j s) s))\<rparr>)"
proof -
  let ?b = "window_at now j s"
  let ?s1 = "s\<lparr>at_work := (at_work s)(w := W_seeded j)\<rparr>"
  let ?s2 = "s\<lparr>at_window := (at_window s)(w := ?b), at_metrics := count_cycle (at_metrics s), at_work := (at_work s)(w := W_ranged)\<rparr>"
  let ?s3 = "s\<lparr>at_window := (at_window s)(w := ?b), at_metrics := count_cycle (at_metrics s),
    at_work := (at_work s)(w := W_scanning (index_range (at_index s) (wn_bounds ?b)) [])\<rparr>"
  have s1: "task_step T s ?s1" by (rule t_seed [OF assms(2-4)])
  have "task_step T ?s1 (bump count_cycle (?s1\<lparr>at_window := (at_window ?s1)(w := window_at now j ?s1),
      at_work := (at_work ?s1)(w := W_ranged)\<rparr>))" by (rule t_window) simp
  moreover have "bump count_cycle (?s1\<lparr>at_window := (at_window ?s1)(w := window_at now j ?s1),
      at_work := (at_work ?s1)(w := W_ranged)\<rparr>) = ?s2" by (rule service.equality) simp_all
  ultimately have s2: "task_step T ?s1 ?s2" by (simp only:)
  have s3: "task_step T ?s2 ?s3" using t_scan [of ?s2 w T] by simp
  have time: "timely T ?s1" "timely T ?s2" "timely T ?s3" by (rule not_claiming [OF assms(1), of _ w]; simp)+
  have "(timely_step T)\<^sup>*\<^sup>* ?s3 (s\<lparr>at_window := (at_window s)(w := ?b), at_metrics := count_cycle (at_metrics s),
      at_work := (at_work s)(w := W_scanning [] (scan_hits ?b s))\<rparr>)"
    using scan_points [OF time(3), of w _ "[]"] by (simp add: scan_hits_def MAX_CANDIDATES_PER_SCAN_def)
  then show ?thesis by (rule task_run [OF s1 time(1) task_run [OF s2 time(2) task_run [OF s3 time(3)]]])
qed

lemma scan_run:
  assumes "timely T s" and "at_work s w = W_idle" and "j \<in> ran (at_primary s)" and "is_waiting (at_heap s j)"
    and "MATCH_SIZE \<le> length (scan_hits (window_at now j s) s)"
  shows "(timely_step T)\<^sup>*\<^sup>* s (s\<lparr>at_window := (at_window s)(w := window_at now j s), at_metrics := count_cycle (at_metrics s),
      at_work := (at_work s)(w := W_found (sort_key (join_key (at_heap s)) (scan_hits (window_at now j s) s)))\<rparr>)"
    and "timely T (s\<lparr>at_window := (at_window s)(w := window_at now j s), at_metrics := count_cycle (at_metrics s),
      at_work := (at_work s)(w := W_found (sort_key (join_key (at_heap s)) (scan_hits (window_at now j s) s)))\<rparr>)"
proof -
  let ?s1 = "s\<lparr>at_window := (at_window s)(w := window_at now j s), at_metrics := count_cycle (at_metrics s),
    at_work := (at_work s)(w := W_scanning [] (scan_hits (window_at now j s) s))\<rparr>"
  let ?t = "s\<lparr>at_window := (at_window s)(w := window_at now j s), at_metrics := count_cycle (at_metrics s),
    at_work := (at_work s)(w := W_found (sort_key (join_key (at_heap s)) (scan_hits (window_at now j s) s)))\<rparr>"
  show time: "timely T ?t" by (rule not_claiming [OF assms(1), of _ w]) simp_all
  have "task_step T ?s1 ?t" using t_scanned [of ?s1 w _ T] assms(5) by simp
  from task_run [OF this time rtranclp.rtrancl_refl] hits_run [OF assms(1-4), of now] show "(timely_step T)\<^sup>*\<^sup>* s ?t"
    by (rule rtranclp_trans [rotated])
qed

lemma short_run:
  assumes "timely T s" and "at_work s w = W_idle" and "j \<in> ran (at_primary s)" and "is_waiting (at_heap s j)"
    and "length (scan_hits (window_at now j s) s) < MATCH_SIZE"
  shows "(timely_step T)\<^sup>*\<^sup>* s (s\<lparr>at_window := (at_window s)(w := window_at now j s),
    at_metrics := count_insufficient (count_cycle (at_metrics s))\<rparr>)"
proof -
  let ?t = "s\<lparr>at_window := (at_window s)(w := window_at now j s), at_metrics := count_insufficient (count_cycle (at_metrics s))\<rparr>"
  let ?s1 = "s\<lparr>at_window := (at_window s)(w := window_at now j s), at_metrics := count_cycle (at_metrics s),
    at_work := (at_work s)(w := W_scanning [] (scan_hits (window_at now j s) s))\<rparr>"
  let ?s2 = "s\<lparr>at_window := (at_window s)(w := window_at now j s), at_metrics := count_cycle (at_metrics s),
    at_work := (at_work s)(w := W_short)\<rparr>"
  have s1: "task_step T ?s1 ?s2" using t_short [of ?s1 w _ T] assms(5) by simp
  have "task_step T ?s2 (bump count_insufficient (?s2\<lparr>at_work := (at_work ?s2)(w := W_idle)\<rparr>))" by (rule t_count_short) simp
  moreover have "bump count_insufficient (?s2\<lparr>at_work := (at_work ?s2)(w := W_idle)\<rparr>) = ?t"
    by (rule service.equality) (simp_all add: fun_upd_idem assms(2))
  ultimately have s2: "task_step T ?s2 ?t" by (simp only:)
  have time: "timely T ?s2" "timely T ?t" by (rule not_claiming [OF assms(1), of _ w]; simp add: assms(2))+
  from task_run [OF s1 time(1) task_run [OF s2 time(2) rtranclp.rtrancl_refl]] hits_run [OF assms(1-4), of now]
  show ?thesis by (rule rtranclp_trans [rotated])
qed

text \<open>The eight counters of a match, one after the other.\<close>

lemma count_run:
  assumes "timely T s" and "at_work s w = W_count_match as"
  shows "(timely_step T)\<^sup>*\<^sup>* s (s\<lparr>at_work := (at_work s)(w := W_idle),
    at_metrics := update_metrics_on_success (rp_match (at_report s w)) (rp_waits (at_report s w))
      (m_skill_spread (rp_match (at_report s w))) (at_metrics s)\<rparr>)"
proof -
  let ?rp = "at_report s w" and ?at = "\<lambda>p m. s\<lparr>at_work := (at_work s)(w := p), at_metrics := m\<rparr>"
  let ?m0 = "at_metrics s"
  let ?m1 = "?m0\<lparr>mt_total_matches_created := mt_total_matches_created ?m0 + 1\<rparr>"
  let ?m2 = "?m1\<lparr>mt_total_players_matched := mt_total_players_matched ?m1 + of_nat MATCH_SIZE\<rparr>"
  let ?m3 = "?m2\<lparr>mt_current_queue_size := mt_current_queue_size ?m2 - of_nat MATCH_SIZE\<rparr>"
  let ?m4 = "?m3\<lparr>mt_total_wait_time_ms := mt_total_wait_time_ms ?m3 + sum_list (rp_waits ?rp)\<rparr>"
  let ?m5 = "?m4\<lparr>mt_skill_spread_sum := mt_skill_spread_sum ?m4 + ucast (m_skill_spread (rp_match ?rp))\<rparr>"
  let ?m6 = "?m5\<lparr>mt_skill_spread_count := mt_skill_spread_count ?m5 + 1\<rparr>"
  let ?m7 = "?m6\<lparr>mt_team_delta_sum := mt_team_delta_sum ?m6 + ucast (m_team_delta (rp_match ?rp))\<rparr>"
  let ?m8 = "?m7\<lparr>mt_team_delta_count := mt_team_delta_count ?m7 + 1\<rparr>"
  have time: "timely T (?at p m)" if "\<not> claiming p" for p m
    by (rule not_claiming [OF assms(1), of _ w]) (use that in simp_all)
  have start: "?at (W_count_match as) ?m0 = s" by (simp add: fun_upd_idem assms(2))
  have s1: "task_step T (?at (W_count_match as) ?m0) (?at (W_count_players as) ?m1)"
    using t_count_match [of "?at (W_count_match as) ?m0" w as T] by simp
  have s2: "task_step T (?at (W_count_players as) ?m1) (?at (W_count_queue as) ?m2)"
    using t_count_players [of "?at (W_count_players as) ?m1" w as T] by simp
  have s3: "task_step T (?at (W_count_queue as) ?m2) (?at (W_count_waits as) ?m3)"
    using t_count_queue [of "?at (W_count_queue as) ?m2" w as T] by simp
  have s4: "task_step T (?at (W_count_waits as) ?m3) (?at (W_count_spread as) ?m4)"
    using t_count_waits [of "?at (W_count_waits as) ?m3" w as T] by simp
  have s5: "task_step T (?at (W_count_spread as) ?m4) (?at (W_count_spreads as) ?m5)"
    using t_count_spread [of "?at (W_count_spread as) ?m4" w as T] by simp
  have s6: "task_step T (?at (W_count_spreads as) ?m5) (?at (W_count_delta as) ?m6)"
    using t_count_spreads [of "?at (W_count_spreads as) ?m5" w as T] by simp
  have s7: "task_step T (?at (W_count_delta as) ?m6) (?at (W_count_deltas as) ?m7)"
    using t_count_delta [of "?at (W_count_delta as) ?m6" w as T] by simp
  have s8: "task_step T (?at (W_count_deltas as) ?m7) (?at W_idle ?m8)"
    using t_count_deltas [of "?at (W_count_deltas as) ?m7" w as T] by simp
  have "(timely_step T)\<^sup>*\<^sup>* s (?at W_idle ?m8)"
    by (rule task_run [OF s1 [unfolded start] _ task_run [OF s2 _ task_run [OF s3 _ task_run [OF s4 _ task_run [OF s5 _
      task_run [OF s6 _ task_run [OF s7 _ task_run [OF s8 _ rtranclp.rtrancl_refl]]]]]]]]) (rule time, simp)+
  then show ?thesis by (simp add: update_metrics_on_success_def)
qed

definition matched_state :: "u64 \<Rightarrow> readings \<Rightarrow> addr list \<Rightarrow> addr balance_result \<Rightarrow> service \<Rightarrow> service" where
  "matched_state w rd as r s =
     (let h = update_on (set as) (\<lambda>a. mark_matched (rd_matched_now rd a))
            (update_on (set as) (\<lambda>_. claimed_by w (at_clock s)) (at_heap s));
          rp = make_report rd (at_window s w) h as r
      in s\<lparr>at_heap := h, at_now := (at_now s)(w := at_clock s), at_report := (at_report s)(w := rp),
           at_matches := as # at_matches s, at_reports := rp # at_reports s,
           at_history := push_history MATCH_HISTORY_LIMIT (rp_match rp) (at_history s),
           at_primary := at_primary s |` (- (at_id s ` set as)), at_index := at_index s |` (- (at_key s ` set as)),
           at_work := (at_work s)(w := W_idle),
           at_metrics := update_metrics_on_success (rp_match rp) (rp_waits rp) (m_skill_spread (rp_match rp)) (at_metrics s)\<rparr>)"

lemma update_on_keeps:
  "p_id (update_on A (\<lambda>_. claimed_by w t) h a) = p_id (h a)"
  "p_skill_rating (update_on A (\<lambda>_. claimed_by w t) h a) = p_skill_rating (h a)"
  "p_id (update_on A (\<lambda>a. mark_matched (now a)) h a) = p_id (h a)"
  "p_skill_rating (update_on A (\<lambda>a. mark_matched (now a)) h a) = p_skill_rating (h a)"
  by (simp_all add: mark_matched_def)

lemma found_run:
  assumes "timely T s" and "at_work s w = W_found cs" and "distinct cs" and "length as = MATCH_SIZE"
    and "as = take MATCH_SIZE (filter (\<lambda>a. is_waiting (at_heap s a)) cs)"
    and "\<forall>a \<in> set as. at_primary s (at_id s a) = Some a"
    and "exhaustive_balance (\<lambda>a. p_skill_rating (at_heap s a)) as = Some r"
    and "\<forall>v. v \<noteq> w \<longrightarrow> \<not> scanning (at_work s v)"
  shows "(timely_step T)\<^sup>*\<^sup>* s (matched_state w rd as r s)"
proof -
  let ?W = "\<lambda>p. (at_work s)(w := p)" and ?n = "(at_now s)(w := at_clock s)"
  let ?h1 = "update_on (set as) (\<lambda>_. claimed_by w (at_clock s)) (at_heap s)"
  let ?h2 = "update_on (set as) (\<lambda>a. mark_matched (rd_matched_now rd a)) ?h1"
  let ?rp = "make_report rd (at_window s w) ?h2 as r"
  let ?s2 = "s\<lparr>at_now := ?n, at_work := ?W (W_claiming cs [])\<rparr>"
  let ?s3 = "\<lambda>rest. s\<lparr>at_now := ?n, at_heap := ?h1, at_work := ?W (W_claiming rest as)\<rparr>"
  let ?s4 = "s\<lparr>at_now := ?n, at_heap := ?h1, at_work := ?W (W_mark_time as as)\<rparr>"
  let ?s5 = "s\<lparr>at_now := ?n, at_heap := ?h2, at_work := ?W (W_mark_time [] as)\<rparr>"
  let ?s6 = "s\<lparr>at_now := ?n, at_heap := ?h2, at_report := (at_report s)(w := ?rp), at_work := ?W (W_remove as as)\<rparr>"
  let ?base = "s\<lparr>at_now := ?n, at_heap := ?h2, at_report := (at_report s)(w := ?rp),
    at_primary := at_primary s |` (- (at_id s ` set as)), at_index := at_index s |` (- (at_key s ` set as))\<rparr>"
  let ?s7 = "?base\<lparr>at_work := ?W (W_remove [] as)\<rparr>"
  let ?s8 = "?base\<lparr>at_matches := as # at_matches s, at_reports := ?rp # at_reports s,
    at_history := push_history MATCH_HISTORY_LIMIT (rp_match ?rp) (at_history s), at_work := ?W (W_count_match as)\<rparr>"
  have timely: "timely T s'" if "at_clock s' = at_clock s" "at_work s' = ?W p" "at_now s' = ?n" for s' p
    by (rule timely_new [OF assms(1), of _ w]) (simp_all add: that)
  have step: "(timely_step T)\<^sup>*\<^sup>* q q'"
    if "task_step T q q'" "at_clock q' = at_clock s" "at_work q' = ?W p" "at_now q' = ?n" for q q' p
    by (rule task_run [OF that(1) timely [OF that(2-4)]]) simp
  have distinct: "distinct as" unfolding assms(5) by (intro distinct_take distinct_filter assms(3))
  have t2: "timely T ?s4" "timely T ?s6" by (rule timely; simp)+
  note r2 = begin_run [OF assms(1,2)]
  have enough: "MATCH_SIZE \<le> length (filter (\<lambda>a. is_waiting (at_heap s a)) cs)" using assms(4,5) by simp
  from claim_candidates [OF r2(2), of w cs "[]"] enough assms(3,5) obtain rest where r3: "(timely_step T)\<^sup>*\<^sup>* ?s2 (?s3 rest)"
    by auto
  have r4: "(timely_step T)\<^sup>*\<^sup>* (?s3 rest) ?s4"
    by (rule step) (use t_enough [of "?s3 rest" w rest as T] assms(4) in simp_all)
  have r5: "(timely_step T)\<^sup>*\<^sup>* ?s4 ?s5"
    using mark_points [OF t2(1), of w as as "rd_matched_now rd"] distinct by simp
  have ids: "at_id ?s6 = at_id s" "at_key ?s6 = at_key s" by (simp_all add: update_on_keeps fun_eq_iff del: update_on_apply)
  have "(\<lambda>a. p_skill_rating (at_heap ?s5 a)) = (\<lambda>a. p_skill_rating (at_heap s a))"
    by (simp add: update_on_keeps fun_eq_iff del: update_on_apply)
  then have "exhaustive_balance (\<lambda>a. p_skill_rating (at_heap ?s5 a)) as = Some r" using assms(7) by (simp only:)
  then have "task_step T ?s5 ?s6" using t_marked [of ?s5 w as r T rd] by simp
  then have r6: "(timely_step T)\<^sup>*\<^sup>* ?s5 ?s6" by (rule step) simp_all
  have "inj_on (at_id s) (set as)" using assms(6) by (intro inj_onI) (metis option.inject)
  then have "distinct (map (at_id s) as)" using distinct by (simp add: distinct_map)
  then have r7: "(timely_step T)\<^sup>*\<^sup>* ?s6 ?s7"
    using remove_points [OF t2(2), of w as as] assms(6,8) unfolding ids by simp
  have r8: "(timely_step T)\<^sup>*\<^sup>* ?s7 ?s8" by (rule step) (use t_publish [of ?s7 w as T] in simp_all)
  have t8: "timely T ?s8" by (rule timely) simp_all
  have w8: "at_work ?s8 w = W_count_match as" by simp
  have last: "?s8\<lparr>at_work := (at_work ?s8)(w := W_idle), at_metrics := update_metrics_on_success (rp_match (at_report ?s8 w))
      (rp_waits (at_report ?s8 w)) (m_skill_spread (rp_match (at_report ?s8 w))) (at_metrics ?s8)\<rparr> = matched_state w rd as r s"
    unfolding matched_state_def Let_def by (rule service.equality) simp_all
  note r9 = count_run [OF t8 w8, unfolded last]
  show ?thesis
    by (rule rtranclp_trans [OF r2(1) rtranclp_trans [OF r3 rtranclp_trans [OF r4 rtranclp_trans [OF r5
      rtranclp_trans [OF r6 rtranclp_trans [OF r7 rtranclp_trans [OF r8 r9]]]]]]])
qed

section \<open>An enqueue\<close>

text \<open>The player is filed in the primary store, and then in the index.\<close>

definition inserted_half :: "instant \<Rightarrow> uuid \<Rightarrow> u32 \<Rightarrow> service \<Rightarrow> service" where
  "inserted_half now i r s =
     s\<lparr>at_heap := (at_heap s)(at_next s := player_new now i r), at_next := Suc (at_next s),
       at_primary := (at_primary s)(i \<mapsto> at_next s), at_enqueue := (at_enqueue s)(at_next s := E_index)\<rparr>"

definition insert_finished :: "addr \<Rightarrow> service \<Rightarrow> service" where
  "insert_finished a s =
     s\<lparr>at_index := (at_index s)(at_key s a \<mapsto> a), at_enqueue := (at_enqueue s)(a := E_done),
       at_metrics := (at_metrics s)\<lparr>mt_total_players_enqueued := mt_total_players_enqueued (at_metrics s) + 1,
         mt_current_queue_size := mt_current_queue_size (at_metrics s) + 1\<rparr>\<rparr>"

definition joined_state :: "instant \<Rightarrow> uuid \<Rightarrow> u32 \<Rightarrow> service \<Rightarrow> service" where
  "joined_state now i r s =
     s\<lparr>at_heap := (at_heap s)(at_next s := player_new now i r), at_next := Suc (at_next s),
       at_enqueue := (at_enqueue s)(at_next s := E_done), at_primary := (at_primary s)(i \<mapsto> at_next s),
       at_index := (at_index s)((r, i) \<mapsto> at_next s),
       at_metrics := (at_metrics s)\<lparr>mt_total_players_enqueued := mt_total_players_enqueued (at_metrics s) + 1,
         mt_current_queue_size := mt_current_queue_size (at_metrics s) + 1\<rparr>\<rparr>"

lemma insert_half_run:
  assumes "timely T s" and "at_primary s i = None" and "r \<le> MAX_SKILL_RATING"
  shows "(timely_step T)\<^sup>*\<^sup>* s (inserted_half now i r s)"
proof -
  let ?a = "at_next s"
  let ?s1 = "s\<lparr>at_checked := add_mset (i, r) (at_checked s)\<rparr>"
  let ?s2 = "s\<lparr>at_heap := (at_heap s)(?a := player_new now i r), at_next := Suc ?a, at_enqueue := (at_enqueue s)(?a := E_primary)\<rparr>"
  have s1: "task_step T s ?s1" by (rule t_check [OF assms(3,2)])
  have "task_step T ?s1 (?s1\<lparr>at_heap := (at_heap ?s1)(?a := player_new now i r), at_next := Suc ?a,
      at_checked := at_checked ?s1 - {#(i, r)#}, at_enqueue := (at_enqueue ?s1)(?a := E_primary)\<rparr>)"
    by (rule t_create) simp_all
  moreover have "?s1\<lparr>at_heap := (at_heap ?s1)(?a := player_new now i r), at_next := Suc ?a,
      at_checked := at_checked ?s1 - {#(i, r)#}, at_enqueue := (at_enqueue ?s1)(?a := E_primary)\<rparr> = ?s2"
    by (rule service.equality) simp_all
  ultimately have s2: "task_step T ?s1 ?s2" by (simp only:)
  have s3: "pool_step ?s2 (inserted_half now i r s)" using p_insert [of ?s2 ?a] by (simp add: inserted_half_def)
  have t: "timely T ?s1" "timely T ?s2" "timely T (inserted_half now i r s)"
    by (rule timely_same [OF assms(1)]; simp add: inserted_half_def)+
  show ?thesis by (rule task_run [OF s1 t(1) task_run [OF s2 t(2) pool_run [OF s3 t(3)]]]) simp
qed

lemma finish_insert_run:
  assumes "timely T s" and "at_enqueue s a = E_index" and "index_unlocked s"
  shows "(timely_step T)\<^sup>*\<^sup>* s (insert_finished a s)"
proof -
  let ?E = "\<lambda>p. (at_enqueue s)(a := p)" and ?I = "(at_index s)(at_key s a \<mapsto> a)"
  let ?m = "(at_metrics s)\<lparr>mt_total_players_enqueued := mt_total_players_enqueued (at_metrics s) + 1\<rparr>"
  let ?s1 = "s\<lparr>at_index := ?I, at_enqueue := ?E E_total\<rparr>"
  let ?s2 = "s\<lparr>at_index := ?I, at_enqueue := ?E E_queue, at_metrics := ?m\<rparr>"
  have s1: "pool_step s ?s1" by (rule p_index [OF assms(2,3)])
  have s2: "task_step T ?s1 ?s2" using t_enqueue_total [of ?s1 a T] by simp
  have s3: "task_step T ?s2 (insert_finished a s)"
    using t_enqueue_queue [of ?s2 a T] by (simp add: insert_finished_def)
  have t: "timely T ?s1" "timely T ?s2" "timely T (insert_finished a s)"
    by (rule timely_same [OF assms(1)]; simp add: insert_finished_def)+
  show ?thesis by (rule pool_run [OF s1 t(1) task_run [OF s2 t(2) task_run [OF s3 t(3)]]]) simp
qed

lemma join_run:
  assumes "timely T s" and "at_primary s i = None" and "r \<le> MAX_SKILL_RATING" and "index_unlocked s"
  shows "(timely_step T)\<^sup>*\<^sup>* s (joined_state now i r s)"
proof -
  let ?t = "inserted_half now i r s"
  have "timely T ?t" by (rule timely_same [OF assms(1)]) (simp_all add: inserted_half_def)
  moreover have "index_unlocked ?t" using assms(4) by (simp add: inserted_half_def index_unlocked_def)
  ultimately have "(timely_step T)\<^sup>*\<^sup>* ?t (insert_finished (at_next s) ?t)"
    by (intro finish_insert_run) (simp_all add: inserted_half_def)
  moreover have "insert_finished (at_next s) ?t = joined_state now i r s"
    by (rule service.equality) (simp_all add: insert_finished_def inserted_half_def joined_state_def player_new_simps)
  ultimately have "(timely_step T)\<^sup>*\<^sup>* ?t (joined_state now i r s)" by (simp only:)
  with insert_half_run [OF assms(1-3)] show ?thesis by (rule rtranclp_trans)
qed

section \<open>Orderly runs\<close>

text \<open>If no identifier was used twice, nothing can be out of order.\<close>

lemma in_touch_used:
  assumes "node_ok T s" and "in_touch s a"
  shows "a < at_next s"
proof (rule ccontr)
  assume "\<not> a < at_next s"
  then have new: "at_next s \<le> a" by simp
  note ok = node_okD [OF assms(1)]
  note unused = stages_okD(1) [OF ok(5) new]
  have "a \<notin> ran (at_primary s)" "a \<notin> ran (at_index s)"
    using new maps_okD [OF ok(4)] by (fastforce simp: ran_def)+
  moreover have "a \<notin> removing (at_work s w)" for w
  proof
    assume "a \<in> removing (at_work s w)"
    then consider todo as where "at_work s w = W_remove todo as" "a \<in> set todo"
      | b todo as where "at_work s w = W_unindex b todo as" "a = b \<or> a \<in> set todo"
      by (cases "at_work s w") auto
    then show False
    proof cases
      case 1
      with conc_okD(1) [OF ok(1) [of 0], of w] conc_okD(3) [OF ok(1) [of 0], of a w] new show ?thesis by auto
    next
      case 2
      with conc_okD(1) [OF ok(1) [of 0], of w] conc_okD(3) [OF ok(1) [of 0], of a w] stages_okD(4) [OF ok(5) 2(1)] new
      show ?thesis by auto
    qed
  qed
  ultimately show False
    using assms(2) unused stages_okD(3) [OF ok(5), of _ a] new by (auto simp: in_touch_def)
qed

lemma distinct_ids_orderly: "node_ok T s \<Longrightarrow> inj_on (at_id s) {..<at_next s} \<Longrightarrow> orderly s"
  unfolding orderly_def using in_touch_used by (blast dest: inj_onD)

lemma node_step_players:
  "node_step T s t \<Longrightarrow> at_next s \<le> at_next t \<and> (\<forall>a < at_next s. at_key t a = at_key s a)"
  unfolding node_step_def using task_step_players
  by (auto elim: pool_step.cases)

lemma orderly_run:
  assumes "(timely_step T)\<^sup>*\<^sup>* s t" and "reach node_init (orderly_step T) s" and "inj_on (at_id t) {..<at_next t}"
  shows "reach node_init (orderly_step T) t"
  using assms(1,3)
proof induction
  case (step t u)
  have "inj_on (at_id t) {..<at_next t}"
  proof (rule inj_onI)
    fix a b
    assume ab: "a \<in> {..<at_next t}" "b \<in> {..<at_next t}" "at_id t a = at_id t b"
    from step(2) node_step_players [of T t u] have "at_next t \<le> at_next u" "\<forall>a < at_next t. at_key u a = at_key t a"
      by (auto simp: timely_step_def)
    with ab show "a = b" by (intro inj_onD [OF step.prems]) auto
  qed
  from step.IH [OF this] have r: "reach node_init (orderly_step T) t" .
  have "node_ok T t" using orderly_service.reachable_inv [OF r] by (simp add: tidy_def)
  from distinct_ids_orderly [OF node_ok_step [OF this step(2)] step.prems] step(2) have "orderly_step T t u"
    by (simp add: orderly_step_def)
  with r show ?case by (rule reach_step)
qed (rule assms(2))

end
