(* ===== verification/Atomic_Demo.thy ===== *)
theory Atomic_Demo
  imports Atomic_Runs
begin

text \<open>
  Runs of the service from its start: players who join, a match of ten of them, workers that die with a
  claim, and a Reaper scan that meets a stale one.
\<close>

section \<open>A match\<close>

definition blank_report :: report where
  "blank_report = \<lparr>rp_players = [], rp_window = \<lparr>wn_bounds = (0, 0), wn_seed = 0, wn_now = 0\<rparr>, rp_match = match_new 0 0 (team_new []) (team_new []) 0 0 0, rp_waits = []\<rparr>"

fun demo_node :: "nat \<Rightarrow> service" where
  "demo_node 0 =
     \<lparr>at_config = default_config, at_heap = (\<lambda>a. player_new 0 0 0), at_next = 0, at_clock = 100,
      at_work = (\<lambda>w. W_idle), at_now = (\<lambda>w. 0), at_window = (\<lambda>w. \<lparr>wn_bounds = (0, 0), wn_seed = 0, wn_now = 0\<rparr>), at_report = (\<lambda>w. blank_report),
      at_reaper = R_visit [], at_scan = 0, at_recovered = 0, at_matches = [], at_reports = [], at_history = [], at_checked = {#},
      at_enqueue = (\<lambda>a. E_none), at_cancel = (\<lambda>a. C_none), at_primary = Map.empty, at_index = Map.empty,
      at_metrics = metrics_new\<rparr>"
| "demo_node (Suc n) = joined_state n (of_nat n) 1000 (demo_node n)"

lemma demo_node_fields:
  "at_next (demo_node n) = n" "at_work (demo_node n) = (\<lambda>w. W_idle)" "at_clock (demo_node n) = 100"
  "at_matches (demo_node n) = []" "at_enqueue (demo_node n) = (\<lambda>a. if a < n then E_done else E_none)"
  "at_cancel (demo_node n) = (\<lambda>a. C_none)" "at_reaper (demo_node n) = R_visit []" "at_recovered (demo_node n) = 0"
  "at_reports (demo_node n) = []" "at_history (demo_node n) = []"
  by (induction n) (simp_all add: joined_state_def fun_eq_iff less_Suc_eq)

lemma demo_node_heap: "a < n \<Longrightarrow> at_heap (demo_node n) a = player_new a (of_nat a) 1000"
  by (induction n) (auto simp: joined_state_def demo_node_fields less_Suc_eq)

lemma demo_node_maps:
  assumes "n \<le> 100"
  shows "at_primary (demo_node n) i = (if unat i < n then Some (unat i) else None)"
    and "at_index (demo_node n) (r, i) = (if r = 1000 \<and> unat i < n then Some (unat i) else None)"
proof -
  have "at_primary (demo_node n) i = (if unat i < n then Some (unat i) else None) \<and>
      at_index (demo_node n) (r, i) = (if r = 1000 \<and> unat i < n then Some (unat i) else None)"
    using assms
  proof (induction n)
    case (Suc n)
    have "i = of_nat n \<longleftrightarrow> unat i = n" using Suc.prems by (auto simp: unat_of_nat)
    then show ?case using Suc by (auto simp: joined_state_def demo_node_fields less_Suc_eq)
  qed simp
  then show "at_primary (demo_node n) i = (if unat i < n then Some (unat i) else None)"
    and "at_index (demo_node n) (r, i) = (if r = 1000 \<and> unat i < n then Some (unat i) else None)" by simp_all
qed

lemma demo_node_run: "n \<le> 100 \<Longrightarrow> (timely_step T)\<^sup>*\<^sup>* (demo_node 0) (demo_node n)"
proof (induction n)
  case (Suc n)
  have "timely T (demo_node n)" by (simp add: timely_def demo_node_fields)
  moreover have "at_primary (demo_node n) (of_nat n) = None"
    using Suc.prems demo_node_maps(1) [of n "of_nat n"] by (simp add: unat_of_nat)
  ultimately have "(timely_step T)\<^sup>*\<^sup>* (demo_node n) (demo_node (Suc n))"
    unfolding demo_node.simps by (rule join_run) (simp_all add: MAX_SKILL_RATING_def index_unlocked_def demo_node_fields)
  with Suc show ?case by (meson Suc_leD rtranclp_trans)
qed simp

lemma demo_node_reach: "n \<le> 100 \<Longrightarrow> reach node_init (orderly_step T) (demo_node n)"
proof (rule orderly_run [OF demo_node_run])
  show "reach node_init (orderly_step T) (demo_node 0)" by (rule reach_init) (simp add: node_init_def)
  assume n: "n \<le> 100"
  show "inj_on (at_id (demo_node n)) {..<at_next (demo_node n)}"
  proof (rule inj_onI)
    fix a b
    assume "a \<in> {..<at_next (demo_node n)}" "b \<in> {..<at_next (demo_node n)}" "at_id (demo_node n) a = at_id (demo_node n) b"
    then have "a < n" "b < n" "(of_nat a :: uuid) = of_nat b" by (simp_all add: demo_node_fields demo_node_heap)
    with n show "a = b" by (simp add: word_of_nat_eq_iff take_bit_nat_eq_self)
  qed
qed

lemma orderly_timely: "reach node_init (orderly_step T) s \<Longrightarrow> reach node_init (timely_step T) s"
  by (induction rule: reach.induct) (auto intro: reach.intros simp: orderly_step_def)

text \<open>A scan finds the waiting ones of the eleven, in the order they joined.\<close>

definition demo_players :: "service \<Rightarrow> bool" where
  "demo_players s \<longleftrightarrow> at_index s = at_index (demo_node 11) \<and> at_primary s = at_primary (demo_node 11) \<and>
     (\<forall>a < 11. p_skill_rating (at_heap s a) = 1000 \<and> p_join_timestamp (at_heap s a) = a)"

definition demo_found :: "u64 \<Rightarrow> addr \<Rightarrow> service \<Rightarrow> service" where
  "demo_found w j s = s\<lparr>at_window := (at_window s)(w := window_at 0 j s), at_metrics := count_cycle (at_metrics s),
     at_work := (at_work s)(w := W_found (filter (\<lambda>a. is_waiting (at_heap s a)) [0..<11]))\<rparr>"

lemma demo_players_node: "demo_players (demo_node 11)"
  by (simp add: demo_players_def demo_node_heap player_new_def del: demo_node.simps)

lemma demo_range:
  assumes "in_bounds window 1000"
  shows "index_range (at_index (demo_node 11)) window = [0..<11]"
proof -
  let ?keys = "map (\<lambda>a. (1000 :: u32, of_nat a :: uuid)) [0..<11]"
  have "{k \<in> dom (at_index (demo_node 11)). (min (fst window) MAX_SKILL_RATING, 0) \<le> k \<and> k \<le> (min (snd window) MAX_SKILL_RATING, uuid_max)} = set ?keys"
  proof (intro equalityI subsetI)
    fix k
    assume "k \<in> {k \<in> dom (at_index (demo_node 11)). (min (fst window) MAX_SKILL_RATING, 0) \<le> k \<and> k \<le> (min (snd window) MAX_SKILL_RATING, uuid_max)}"
    then have "fst k = 1000" "unat (snd k) < 11"
      using demo_node_maps(2) [of 11 "fst k" "snd k"] by (auto simp del: demo_node.simps split: if_splits)
    then have "k = (1000, of_nat (unat (snd k)))" "unat (snd k) \<in> set [0..<11]" by (simp_all add: prod_eq_iff del: upt_rec_numeral)
    then show "k \<in> set ?keys" unfolding set_map by (rule image_eqI)
  next
    fix k
    assume "k \<in> set ?keys"
    then obtain a where a: "a < 11" "k = (1000, of_nat a)" by auto
    then have "at_index (demo_node 11) k = Some a" using demo_node_maps(2) [of 11 1000 "of_nat a"] by (simp add: unat_of_nat del: demo_node.simps)
    moreover have "(of_nat a :: uuid) \<le> uuid_max" by (simp add: uuid_max_def)
    ultimately show "k \<in> {k \<in> dom (at_index (demo_node 11)). (min (fst window) MAX_SKILL_RATING, 0) \<le> k \<and> k \<le> (min (snd window) MAX_SKILL_RATING, uuid_max)}"
      using assms a(2) by (auto simp: in_bounds_def less_eq_prod_def)
  qed
  moreover have "[0..<11] = [0, 1, 2, 3, 4, 5, 6, 7, 8, 9, 10 :: nat]" by (simp add: upt_conv_Cons)
  then have "sorted ?keys" "distinct ?keys" by (simp_all add: less_eq_prod_def word_le_nat_alt del: upt_rec_numeral)
  then have "sorted_list_of_set (set ?keys) = ?keys" by (rule sorted_list_of_set.idem_if_sorted_distinct)
  moreover have "map (the \<circ> at_index (demo_node 11)) ?keys = [0..<11]"
    unfolding map_map
  proof (rule map_idI)
    show "((the \<circ> at_index (demo_node 11)) \<circ> (\<lambda>a. (1000, of_nat a))) a = a" if "a \<in> set [0..<11]" for a
      using that demo_node_maps(2) [of 11 1000 "of_nat a"] by (simp add: unat_of_nat del: demo_node.simps)
  qed
  ultimately show ?thesis by (simp add: index_range_def del: demo_node.simps upt_rec_numeral)
qed

lemma demo_scan:
  assumes "timely T s" and "at_work s w = W_idle" and "demo_players s" and "j < 11" and "is_waiting (at_heap s j)"
    and "10 \<le> length (filter (\<lambda>a. is_waiting (at_heap s a)) [0..<11])"
  shows "(timely_step T)\<^sup>*\<^sup>* s (demo_found w j s)" and "timely T (demo_found w j s)"
proof -
  let ?hits = "filter (\<lambda>a. is_waiting (at_heap s a)) [0..<11]"
  have "at_primary s (of_nat j) = Some j"
    using assms(3,4) demo_node_maps(1) [of 11 "of_nat j"] by (simp add: demo_players_def unat_of_nat del: demo_node.simps)
  then have seed: "j \<in> ran (at_primary s)" by (rule ranI)
  have "p_skill_rating (at_heap s j) = 1000" using assms(3,4) by (simp add: demo_players_def)
  then have "in_bounds (wn_bounds (window_at 0 j s)) 1000"
    using scan_bounds_contain [of 1000] by (simp add: in_bounds_def MAX_SKILL_RATING_def min_le_iff_disj)
  from demo_range [OF this] have hits: "scan_hits (window_at 0 j s) s = ?hits"
    using assms(3) length_filter_le [of _ "[0..<11]"]
    by (simp add: scan_hits_def demo_players_def MAX_CANDIDATES_PER_SCAN_def le_trans [of _ 11 200] del: demo_node.simps upt_rec_numeral)
  have "sorted (map (join_key (at_heap s)) ?hits)"
    using assms(3) by (intro sorted_filter) (auto simp: sorted_map demo_players_def join_key_def less_eq_prod_def sorted_wrt_iff_nth_less
      simp del: upt_rec_numeral demo_node.simps)
  then have sorted: "sort_key (join_key (at_heap s)) ?hits = ?hits" by (rule sort_key_id_if_sorted)
  from assms(6) have "MATCH_SIZE \<le> length (scan_hits (window_at 0 j s) s)" unfolding hits by (simp add: MATCH_SIZE_def)
  note run = scan_run [OF assms(1,2) seed assms(5) this, unfolded hits sorted, folded demo_found_def]
  show "(timely_step T)\<^sup>*\<^sup>* s (demo_found w j s)" "timely T (demo_found w j s)" by (rule run)+
qed

definition demo_split :: "addr balance_result" where
  "demo_split = the (exhaustive_balance (\<lambda>a. p_skill_rating (at_heap (demo_node 11) a)) [0..<10])"

definition demo_done :: service where
  "demo_done = matched_state 1 demo_readings [0..<10] demo_split (demo_found 1 0 (demo_node 11))"

lemma all_waiting: "filter (\<lambda>a. is_waiting (at_heap (demo_node 11) a)) [0..<11] = [0..<11]"
  by (auto simp: filter_id_conv demo_node_heap is_waiting_def player_new_def simp del: demo_node.simps upt_rec_numeral)

lemma demo_found_run:
  shows "(timely_step T)\<^sup>*\<^sup>* (demo_node 11) (demo_found 1 0 (demo_node 11))" and "timely T (demo_found 1 0 (demo_node 11))"
proof -
  have "timely T (demo_node 11)" by (simp add: timely_def demo_node_fields del: demo_node.simps)
  moreover have "at_work (demo_node 11) 1 = W_idle" by (simp only: demo_node_fields)
  moreover have "is_waiting (at_heap (demo_node 11) 0)" using demo_node_heap [of 0 11] by (simp add: is_waiting_def player_new_def)
  moreover have "10 \<le> length (filter (\<lambda>a. is_waiting (at_heap (demo_node 11) a)) [0..<11])" unfolding all_waiting by simp
  ultimately show "(timely_step T)\<^sup>*\<^sup>* (demo_node 11) (demo_found 1 0 (demo_node 11))" "timely T (demo_found 1 0 (demo_node 11))"
    using demo_scan [OF _ _ demo_players_node, of T 1 0] by simp_all
qed

lemma demo_done_run: "(timely_step T)\<^sup>*\<^sup>* (demo_node 11) demo_done"
proof -
  let ?s = "demo_found 1 0 (demo_node 11)"
  have same: "at_heap ?s = at_heap (demo_node 11)" "at_primary ?s = at_primary (demo_node 11)"
    "at_work ?s = (\<lambda>w. W_idle)(1 := W_found [0..<11])"
    by (simp_all add: demo_found_def demo_node_fields all_waiting del: demo_node.simps upt_rec_numeral)
  have "(timely_step T)\<^sup>*\<^sup>* ?s demo_done"
    unfolding demo_done_def
  proof (rule found_run [OF demo_found_run(2)])
    show "at_work ?s 1 = W_found [0..<11]" by (simp add: same del: upt_rec_numeral)
    show "[0..<10] = take MATCH_SIZE (filter (\<lambda>a. is_waiting (at_heap ?s a)) [0..<11])"
      unfolding same all_waiting by (simp add: MATCH_SIZE_def take_upt del: upt_rec_numeral)
    have "at_primary (demo_node 11) (of_nat a) = Some a" if "a < 10" for a
      using that demo_node_maps [of 11] by (simp add: unat_of_nat del: demo_node.simps)
    then show "\<forall>a \<in> set [0..<10]. at_primary ?s (at_id ?s a) = Some a"
      by (auto simp: same demo_node_heap simp del: upt_rec_numeral demo_node.simps)
    have "\<forall>a \<in> set [0..<10]. unat (p_skill_rating (at_heap (demo_node 11) a)) \<le> 3000"
      by (auto simp: demo_node_heap simp del: upt_rec_numeral demo_node.simps)
    then show "exhaustive_balance (\<lambda>a. p_skill_rating (at_heap ?s a)) [0..<10] = Some demo_split"
      using exhaustive_balance_correct [of "[0..<10]" "\<lambda>a. p_skill_rating (at_heap (demo_node 11) a)"]
      unfolding demo_split_def same by (metis length_upt diff_zero option.sel)
    show "\<forall>v. v \<noteq> 1 \<longrightarrow> \<not> scanning (at_work ?s v)" by (simp add: same)
  qed (simp_all add: MATCH_SIZE_def)
  with demo_found_run(1) show ?thesis by (rule rtranclp_trans)
qed

lemma demo_done_reach: "reach node_init (orderly_step T) demo_done"
proof (rule orderly_run [OF demo_done_run demo_node_reach])
  have "at_id demo_done a = at_id (demo_node 11) a" for a
    by (simp add: demo_done_def matched_state_def demo_found_def Let_def update_on_keeps del: update_on_apply demo_node.simps)
  moreover have "at_next demo_done = 11" by (simp add: demo_done_def matched_state_def demo_found_def Let_def demo_node_fields del: demo_node.simps)
  ultimately show "inj_on (at_id demo_done) {..<at_next demo_done}"
    by (auto simp: demo_node_heap word_of_nat_eq_iff take_bit_nat_eq_self simp del: demo_node.simps intro!: inj_onI)
qed simp

lemma demo_done_fields:
  "at_next demo_done = 11" "at_matches demo_done = [[0..<10]]" "at_work demo_done = (\<lambda>w. W_idle)"
  "at_enqueue demo_done = (\<lambda>a. if a < 11 then E_done else E_none)" "at_cancel demo_done = (\<lambda>a. C_none)"
  "at_heap demo_done 10 = player_new 10 10 1000"
  "map rp_players (at_reports demo_done) = [[0..<10]]"
  by (simp_all add: demo_done_def matched_state_def demo_found_def Let_def make_report_def demo_node_fields demo_node_heap fun_upd_idem del: demo_node.simps upt_rec_numeral)

lemma demo_node_config: "at_config (demo_node n) = default_config"
  by (induction n) (simp_all add: joined_state_def)

lemma demo_done_config: "at_config demo_done = default_config"
  by (simp add: demo_done_def matched_state_def demo_found_def Let_def demo_node_config del: demo_node.simps)

lemma demo_done_window: "rp \<in> set (at_reports demo_done) \<Longrightarrow> wn_seed (rp_window rp) = 0 \<and> wn_now (rp_window rp) = 0"
  by (simp add: demo_done_def matched_state_def demo_found_def Let_def make_report_def demo_node_fields del: demo_node.simps upt_rec_numeral)

lemma demo_done_times:
  "a < 10 \<Longrightarrow> p_matched_at (at_heap demo_done a) = Some (100 + a) \<and> p_join_timestamp (at_heap demo_done a) = a"
  by (simp add: demo_done_def matched_state_def demo_found_def Let_def demo_node_heap demo_readings_def player_new_def
      del: demo_node.simps upt_rec_numeral)

section \<open>A Reaper scan that meets a stale claim\<close>

lemma timely_resting: "\<forall>v. \<not> claiming (at_work s v) \<Longrightarrow> timely T s"
  by (simp add: timely_def)

text \<open>The Reaper may come to the stale claim first; \<open>rest\<close> are the other players it found.\<close>

lemma stale_run:
  assumes "at_reaper s = R_visit []" and "at_recovered s = 0"
    and "\<forall>b \<in> set (a # rest). b < at_next s \<and> at_enqueue s b \<noteq> E_primary"
    and "p_state (at_heap s a) = CLAIMED" and "\<forall>v. \<not> claiming (at_work s v)"
    and "at_clock s \<le> t" and "too_old t T (at_stamp s a)"
  shows "(timely_step T)\<^sup>*\<^sup>* s (s\<lparr>at_clock := t, at_scan := t, at_recovered := 0, at_reaper := R_reset a rest\<rparr>)"
proof -
  let ?s1 = "s\<lparr>at_clock := t\<rparr>"
  let ?s2 = "\<lambda>r. s\<lparr>at_clock := t, at_scan := t, at_recovered := 0, at_reaper := r\<rparr>"
  have s1: "task_step T s ?s1" by (rule t_tick [OF assms(6)])
  have s2: "task_step T ?s1 (?s2 (R_visit (a # rest)))" using t_reaper_start [of ?s1 "a # rest" T] assms(1-3) by simp
  have s3: "task_step T (?s2 (R_visit (a # rest))) (?s2 (R_read a rest))"
    using t_reaper_claimed [of "?s2 (R_visit (a # rest))" a rest T] assms(4) by simp
  have s4: "task_step T (?s2 (R_read a rest)) (?s2 (R_reset a rest))"
    using t_reaper_stale [of "?s2 (R_read a rest)" a rest T] assms(7) by simp
  have time: "timely T ?s1" "timely T (?s2 r)" for r by (rule timely_resting; simp add: assms(5))+
  show ?thesis
    by (rule task_run [OF s1 time(1) task_run [OF s2 time(2) task_run [OF s3 time(2) task_run [OF s4 time(2)]]]]) simp
qed

lemma reset_run:
  assumes "at_reaper s = R_reset a rest" and "p_state (at_heap s a) = CLAIMED" and "\<forall>v. \<not> claiming (at_work s v)"
  shows "(timely_step T)\<^sup>*\<^sup>* s (s\<lparr>at_work := (\<lambda>w. forget a (at_work s w)),
    at_heap := (at_heap s)(a := (at_heap s a)\<lparr>p_state := WAITING, p_claimed_by := 0, p_claim_timestamp := 0\<rparr>),
    at_recovered := at_recovered s + 1, at_reaper := R_visit rest\<rparr>)"
proof -
  let ?p = "(at_heap s a)\<lparr>p_state := WAITING\<rparr>"
  let ?W = "\<lambda>w. forget a (at_work s w)"
  let ?s1 = "s\<lparr>at_heap := (at_heap s)(a := ?p), at_reaper := R_owner a rest, at_work := ?W\<rparr>"
  let ?s2 = "s\<lparr>at_work := ?W, at_heap := (at_heap s)(a := ?p\<lparr>p_claimed_by := 0\<rparr>), at_reaper := R_time a rest\<rparr>"
  let ?s3 = "s\<lparr>at_work := ?W, at_heap := (at_heap s)(a := ?p\<lparr>p_claimed_by := 0, p_claim_timestamp := 0\<rparr>),
    at_recovered := at_recovered s + 1, at_reaper := R_visit rest\<rparr>"
  have s1: "task_step T s ?s1" by (rule t_reaper_win [OF assms(1)]) (simp add: compare_exchange_True assms(2))
  have s2: "task_step T ?s1 ?s2" using t_reaper_owner [of ?s1 a rest T] by simp
  have s3: "task_step T ?s2 ?s3" using t_reaper_time [of ?s2 a rest T] by simp
  have time: "timely T ?s1" "timely T ?s2" "timely T ?s3"
    by (rule timely_resting; simp add: assms(3))+
  show ?thesis by (rule task_run [OF s1 time(1) task_run [OF s2 time(2) task_run [OF s3 time(3)]]]) simp
qed

section \<open>Workers that die with a claim\<close>

text \<open>Worker 1 has found eleven candidates and read the clock.\<close>

definition demo_claiming :: service where
  "demo_claiming = (demo_found 1 0 (demo_node 11))\<lparr>at_now := (at_now (demo_node 11))(1 := 100),
     at_work := (\<lambda>w. W_idle)(1 := W_claiming [0..<11] [])\<rparr>"

lemma demo_claiming_run: "(timely_step T)\<^sup>*\<^sup>* (demo_node 11) demo_claiming" and demo_claiming_timely: "timely T demo_claiming"
proof -
  let ?q = "demo_found 1 0 (demo_node 11)"
  have q: "at_work ?q = (\<lambda>w. W_idle)(1 := W_found [0..<11])" "at_clock ?q = 100" "at_now ?q = at_now (demo_node 11)"
    by (simp_all add: demo_found_def demo_node_fields all_waiting del: demo_node.simps upt_rec_numeral)
  then have "at_work ?q 1 = W_found [0..<11]" by (simp del: upt_rec_numeral)
  note read_clock = begin_run [OF demo_found_run(2) this, unfolded q fun_upd_upd, folded demo_claiming_def]
  show "(timely_step T)\<^sup>*\<^sup>* (demo_node 11) demo_claiming" by (rule rtranclp_trans [OF demo_found_run(1) read_clock(1)])
  show "timely T demo_claiming" by (rule read_clock(2))
qed

lemma demo_claiming_fields:
  "at_clock demo_claiming = 100" "at_now demo_claiming 1 = 100" "at_heap demo_claiming = at_heap (demo_node 11)"
  "at_work demo_claiming = (\<lambda>w. W_idle)(1 := W_claiming [0..<11] [])"
  by (simp_all add: demo_claiming_def demo_found_def demo_node_fields del: demo_node.simps upt_rec_numeral)

text \<open>It dies with one complete claim, or between its compare-and-swap and its stores.\<close>

definition demo_dead :: service where
  "demo_dead = demo_claiming\<lparr>at_heap := (at_heap (demo_node 11))(0 := claimed_by 1 100 (player_new 0 0 1000)),
     at_work := (\<lambda>w. W_idle)(1 := W_dead {0} {} {})\<rparr>"

definition demo_stuck :: service where
  "demo_stuck = demo_claiming\<lparr>at_heap := (at_heap (demo_node 11))(0 := (player_new 0 0 1000)\<lparr>p_state := CLAIMED\<rparr>),
     at_work := (\<lambda>w. W_idle)(1 := W_dead {0} {} {})\<rparr>"

lemma demo_claiming_first:
  "at_work demo_claiming 1 = W_claiming (0 # [1..<11]) []" "at_heap demo_claiming 0 = player_new 0 0 1000"
  using demo_node_heap [of 0 11] by (simp_all add: demo_claiming_fields upt_conv_Cons del: demo_node.simps upt_rec_numeral)

lemma demo_dead_run: "(timely_step T)\<^sup>*\<^sup>* (demo_node 11) demo_dead"
proof -
  let ?s = "demo_claiming\<lparr>at_heap := (at_heap (demo_node 11))(0 := claimed_by 1 100 (player_new 0 0 1000)),
    at_work := (\<lambda>w. W_idle)(1 := W_claiming [1..<11] [0])\<rparr>"
  have now: "at_now demo_claiming 1 = at_clock demo_claiming" by (simp only: demo_claiming_fields)
  have "(timely_step T)\<^sup>*\<^sup>* demo_claiming ?s"
    using claim_first [OF demo_claiming_timely now demo_claiming_first(1)] demo_claiming_first(2)
    by (simp add: demo_claiming_fields is_waiting_def player_new_def MATCH_SIZE_def del: demo_node.simps upt_rec_numeral)
  moreover have "task_step T ?s demo_dead"
    using t_die [of T ?s 1] by (simp add: demo_dead_def del: demo_node.simps upt_rec_numeral)
  then have "(timely_step T)\<^sup>*\<^sup>* ?s demo_dead"
    by (rule task_run) (rule timely_resting, simp_all add: demo_dead_def)
  ultimately show ?thesis using demo_claiming_run by (meson rtranclp_trans)
qed

lemma demo_stuck_run: "(timely_step T)\<^sup>*\<^sup>* (demo_node 11) demo_stuck"
proof -
  let ?p = "(player_new 0 0 1000)\<lparr>p_state := CLAIMED\<rparr>"
  let ?s = "demo_claiming\<lparr>at_heap := (at_heap (demo_node 11))(0 := ?p), at_work := (\<lambda>w. W_idle)(1 := W_claim_owner 0 [1..<11] [])\<rparr>"
  have "task_step T demo_claiming ?s"
    using t_win [OF demo_claiming_first(1), of ?p T] demo_claiming_first(2)
    by (simp add: demo_claiming_fields compare_exchange_True player_new_def MATCH_SIZE_def del: demo_node.simps upt_rec_numeral)
  moreover have "timely T ?s"
    by (rule timely_new [OF demo_claiming_timely, of _ 1])
      (simp_all add: demo_claiming_fields del: demo_node.simps upt_rec_numeral)
  moreover have "task_step T ?s demo_stuck"
    using t_die [of T ?s 1] by (simp add: demo_stuck_def del: demo_node.simps upt_rec_numeral)
  moreover have "timely T demo_stuck" by (rule timely_resting) (simp add: demo_stuck_def)
  ultimately have "(timely_step T)\<^sup>*\<^sup>* demo_claiming demo_stuck" using task_run by blast
  with demo_claiming_run show ?thesis by (meson rtranclp_trans)
qed

lemma demo_dead_fields:
  "at_work demo_dead = (\<lambda>w. W_idle)(1 := W_dead {0} {} {})" "at_reaper demo_dead = R_visit []"
  "at_recovered demo_dead = 0" "at_stamp demo_dead 0 = 100" "p_state (at_heap demo_dead 0) = CLAIMED"
  "at_next demo_dead = 11" "at_enqueue demo_dead = (\<lambda>a. if a < 11 then E_done else E_none)" "at_clock demo_dead = 100"
  "at_matches demo_dead = []" "\<not> claiming (at_work demo_dead v)"
  by (simp_all add: demo_dead_def demo_claiming_def demo_found_def demo_node_fields claimed_by_def del: demo_node.simps upt_rec_numeral)

lemma demo_dead_heap: "0 < a \<Longrightarrow> a < 11 \<Longrightarrow> at_heap demo_dead a = player_new a (of_nat a) 1000"
  by (simp add: demo_dead_def demo_node_heap del: demo_node.simps)

lemma demo_dead_players: "demo_players demo_dead"
  unfolding demo_players_def
proof (intro conjI allI impI)
  show "p_skill_rating (at_heap demo_dead a) = 1000" "p_join_timestamp (at_heap demo_dead a) = a" if "a < 11" for a
    using that demo_dead_heap [of a] by (cases "a = 0"; simp add: demo_dead_def claimed_by_def player_new_def)+
qed (simp_all add: demo_dead_def demo_claiming_def demo_found_def del: demo_node.simps)

lemma demo_dead_ids: "inj_on (at_id demo_dead) {..<at_next demo_dead}"
proof -
  have "at_id demo_dead a = of_nat a" if "a < 11" for a
    using that demo_dead_heap [of a] by (cases "a = 0") (simp_all add: demo_dead_def claimed_by_def player_new_def)
  then show ?thesis by (auto simp: demo_dead_fields word_of_nat_eq_iff take_bit_nat_eq_self intro!: inj_onI)
qed

lemma demo_dead_reach: "reach node_init (orderly_step T) demo_dead"
  by (rule orderly_run [OF demo_dead_run demo_node_reach demo_dead_ids]) simp

text \<open>The Reaper, a second later.\<close>

definition demo_stale :: service where
  "demo_stale = demo_dead\<lparr>at_clock := 1000, at_scan := 1000, at_recovered := 0, at_reaper := R_reset 0 [1..<11]\<rparr>"

lemma demo_stale_run: "(timely_step 500)\<^sup>*\<^sup>* demo_dead demo_stale"
  unfolding demo_stale_def
proof (rule stale_run)
  show "\<forall>b \<in> set (0 # [1..<11]). b < at_next demo_dead \<and> at_enqueue demo_dead b \<noteq> E_primary"
    by (auto simp: demo_dead_fields)
qed (simp_all add: demo_dead_fields too_old_def saturating_sub_def)

lemma demo_stale_reach: "reach node_init (timely_step 500) demo_stale"
  by (rule reach_steps [OF demo_stale_run orderly_timely [OF demo_dead_reach]])

text \<open>Another worker finds the ten who still wait.\<close>

definition demo_found_state :: service where
  "demo_found_state = demo_found 2 1 demo_dead"

lemma dead_waiting: "filter (\<lambda>a. is_waiting (at_heap demo_dead a)) [0..<11] = [1..<11]"
  using demo_dead_heap demo_dead_fields(5) by (simp add: upt_conv_Cons is_waiting_def player_new_def)

lemma demo_found_state_run: "(timely_step T)\<^sup>*\<^sup>* demo_dead demo_found_state"
  unfolding demo_found_state_def
proof (rule demo_scan)
  show "timely T demo_dead" by (rule timely_resting) (simp add: demo_dead_fields)
  show "is_waiting (at_heap demo_dead 1)" using demo_dead_heap [of 1] by (simp add: is_waiting_def player_new_def)
  show "10 \<le> length (filter (\<lambda>a. is_waiting (at_heap demo_dead a)) [0..<11])" unfolding dead_waiting by simp
qed (simp_all add: demo_dead_fields demo_dead_players)

lemma demo_found_state_fields:
  "at_work demo_found_state = (at_work demo_dead)(2 := W_found [1..<11])" "at_heap demo_found_state = at_heap demo_dead"
  "at_next demo_found_state = 11" "at_matches demo_found_state = []" "at_enqueue demo_found_state = at_enqueue demo_dead"
  by (simp_all add: demo_found_state_def demo_found_def dead_waiting demo_dead_fields(6,9) del: upt_rec_numeral)

lemma demo_found_reach: "reach node_init (orderly_step T) demo_found_state"
proof (rule orderly_run [OF demo_found_state_run demo_dead_reach])
  from demo_dead_ids show "inj_on (at_id demo_found_state) {..<at_next demo_found_state}"
    by (simp add: demo_dead_fields demo_found_state_fields)
qed

section \<open>A claim between the steps of the Reaper\<close>

text \<open>
  The Reaper has reset the claim; before it clears the fields another worker, whose scan found
  him first, claims the player.
\<close>

definition reset_found :: "addr \<Rightarrow> addr list \<Rightarrow> service \<Rightarrow> service" where
  "reset_found a rest s = s\<lparr>at_heap := (at_heap s)(a := (at_heap s a)\<lparr>p_state := WAITING\<rparr>), at_reaper := R_owner a rest,
     at_work := (\<lambda>v. forget a (at_work s v))\<rparr>"

definition taken_over :: "u64 \<Rightarrow> addr \<Rightarrow> addr list \<Rightarrow> addr list \<Rightarrow> service \<Rightarrow> service" where
  "taken_over w a cs rest s = s\<lparr>at_heap := (at_heap s)(a := claimed_by w (at_clock s) (at_heap s a)),
     at_now := (at_now s)(w := at_clock s), at_window := (at_window s)(w := window_at 0 a s),
     at_metrics := count_cycle (at_metrics s), at_reaper := R_owner a rest,
     at_work := (\<lambda>v. forget a (at_work s v))(w := W_claiming cs [a])\<rparr>"

definition erased_state :: "u64 \<Rightarrow> addr \<Rightarrow> addr list \<Rightarrow> addr list \<Rightarrow> service \<Rightarrow> service" where
  "erased_state w a cs rest s =
     (let t = taken_over w a cs rest s
      in t\<lparr>at_heap := (at_heap t)(a := (at_heap t a)\<lparr>p_claimed_by := 0, p_claim_timestamp := 0\<rparr>),
           at_recovered := at_recovered s + 1, at_reaper := R_visit rest, at_work := (at_work t)(w := W_dead {a} {} {})\<rparr>)"

lemma take_over_run:
  assumes "timely T s" and "at_reaper s = R_reset a rest" and "p_state (at_heap s a) = CLAIMED"
    and "at_work s w = W_idle" and "demo_players s" and "a < 11"
    and "filter (\<lambda>b. is_waiting (at_heap (reset_found a rest s) b)) [0..<11] = a # cs" and "9 \<le> length cs"
  shows "(timely_step T)\<^sup>*\<^sup>* s (taken_over w a cs rest s)"
proof -
  let ?s1 = "reset_found a rest s" and ?s2 = "demo_found w a (reset_found a rest s)"
  let ?s3 = "?s2\<lparr>at_now := (at_now ?s2)(w := at_clock ?s2), at_work := (at_work ?s2)(w := W_claiming (a # cs) [])\<rparr>"
  have s1: "task_step T s ?s1"
    unfolding reset_found_def by (rule t_reaper_win [OF assms(2)]) (simp add: compare_exchange_True assms(3))
  have "claiming (forget a p) \<longleftrightarrow> claiming p" for p by (cases p) simp_all
  then have t1: "timely T ?s1" using assms(1) by (simp add: timely_def reset_found_def)
  have idle: "at_work ?s1 w = W_idle" using assms(4) by (simp add: reset_found_def)
  have players: "demo_players ?s1" using assms(5) by (simp add: demo_players_def reset_found_def)
  have waits: "is_waiting (at_heap ?s1 a)" by (simp add: reset_found_def is_waiting_def)
  have "10 \<le> length (filter (\<lambda>b. is_waiting (at_heap ?s1 b)) [0..<11])" unfolding assms(7) using assms(8) by simp
  note r2 = demo_scan [OF t1 idle players assms(6) waits this]
  have "at_work ?s2 w = W_found (a # cs)" by (simp add: demo_found_def assms(7) del: upt_rec_numeral)
  note r3 = begin_run [OF r2(2) this]
  have "(timely_step T)\<^sup>*\<^sup>* ?s3 (?s3\<lparr>at_heap := (at_heap ?s3)(a := claimed_by w (at_clock ?s3) (at_heap ?s3 a)),
      at_work := (at_work ?s3)(w := W_claiming cs ([] @ [a]))\<rparr>)"
    by (rule claim_first [OF r3(2)]) (simp_all add: demo_found_def reset_found_def is_waiting_def MATCH_SIZE_def)
  moreover have "?s3\<lparr>at_heap := (at_heap ?s3)(a := claimed_by w (at_clock ?s3) (at_heap ?s3 a)),
      at_work := (at_work ?s3)(w := W_claiming cs ([] @ [a]))\<rparr> = taken_over w a cs rest s"
    by (rule service.equality) (auto simp: taken_over_def demo_found_def reset_found_def claimed_by_def fun_eq_iff)
  ultimately have "(timely_step T)\<^sup>*\<^sup>* ?s3 (taken_over w a cs rest s)" by (simp only:)
  from task_run [OF s1 t1 rtranclp_trans [OF r2(1) rtranclp_trans [OF r3(1) this]]] show ?thesis .
qed

lemma erase_run:
  assumes "timely T (taken_over w a cs rest s)"
  shows "(timely_step T)\<^sup>*\<^sup>* (taken_over w a cs rest s) (erased_state w a cs rest s)"
proof -
  let ?t = "taken_over w a cs rest s"
  let ?s1 = "?t\<lparr>at_heap := (at_heap ?t)(a := (at_heap ?t a)\<lparr>p_claimed_by := 0\<rparr>), at_reaper := R_time a rest\<rparr>"
  let ?s2 = "?t\<lparr>at_heap := (at_heap ?t)(a := (at_heap ?t a)\<lparr>p_claimed_by := 0, p_claim_timestamp := 0\<rparr>),
    at_recovered := at_recovered s + 1, at_reaper := R_visit rest\<rparr>"
  have s1: "task_step T ?t ?s1" by (rule t_reaper_owner) (simp add: taken_over_def)
  have rec: "at_recovered ?t = at_recovered s" by (simp add: taken_over_def)
  have s2: "task_step T ?s1 ?s2" using t_reaper_time [of ?s1 a rest T] by (simp add: rec)
  have s3: "task_step T ?s2 (erased_state w a cs rest s)"
    using t_die [of T ?s2 w] by (simp add: erased_state_def Let_def taken_over_def)
  have time: "timely T ?s1" "timely T ?s2" by (rule timely_same [OF assms]; simp)+
  have "timely T (erased_state w a cs rest s)"
    by (rule timely_new [OF assms, of _ w]) (simp_all add: erased_state_def Let_def)
  then show ?thesis by - (rule task_run [OF s1 time(1) task_run [OF s2 time(2) task_run [OF s3]]], simp_all)
qed

end
