(* ===== verification/Atomic_Races.thy ===== *)
theory Atomic_Races
  imports Atomic_Runs
begin

text \<open>
  A race of src/src/engine/bucket.rs: \<open>PlayerPool::remove\<close> takes a player out of the primary store
  and then deletes his index key.  Between the two he may join again, with the same identifier
  and rating and so under the same key; the second half of the removal then deletes the index entry
  of the new player, whom no scan can find any more.
\<close>

section \<open>Players out of reach\<close>

text \<open>\<open>listed\<close> are the players a worker may still claim, mark or publish.\<close>

definition hidden :: "addr \<Rightarrow> service \<Rightarrow> bool" where
  "hidden a s \<longleftrightarrow> a < at_next s \<and> at_enqueue s a \<in> {E_total, E_queue, E_done} \<and> a \<notin> ran (at_index s) \<and>
     (\<forall>w. a \<notin> listed (at_work s w)) \<and> a \<notin> set (concat (at_matches s))"

lemma listed_die [simp]: "listed (die p) = {}"
  by simp

lemma index_range_ran: "a \<in> set (index_range index window) \<Longrightarrow> a \<in> ran index"
  unfolding index_range_def by (cases "finite {k \<in> dom index. (min (fst window) MAX_SKILL_RATING, 0) \<le> k \<and> k \<le> (min (snd window) MAX_SKILL_RATING, uuid_max)}") (auto intro: ranI)

text \<open>A step that lists nobody new and files nobody of before keeps a hidden player hidden.\<close>

lemma hidden_kept:
  assumes "hidden a s" and "at_next s \<le> at_next t" and "at_enqueue t a = at_enqueue s a"
    and "ran (at_index t) \<subseteq> ran (at_index s)" and "at_matches t = at_matches s"
    and "\<And>w. listed (at_work t w) \<subseteq> listed (at_work s w) \<union> ran (at_index s)"
  shows "hidden a t"
  using assms unfolding hidden_def by fastforce

lemma hidden_task: "task_step T s t \<Longrightarrow> hidden a s \<Longrightarrow> hidden a t"
proof (induction rule: task_step.induct)
  case (t_publish s w as)
  have "a \<notin> listed (at_work s w)" using t_publish.prems by (simp add: hidden_def)
  with t_publish show ?case by (simp add: hidden_def)
next
  case (t_create i r s b now)
  then show ?case by (simp add: hidden_def)
next
  case (t_enqueue_total s b)
  then show ?case by (simp add: hidden_def)
next
  case (t_enqueue_queue s b)
  then show ?case by (simp add: hidden_def)
qed (erule hidden_kept; auto dest: index_range_ran split: if_splits)+

lemma ran_update: "ran (m(k \<mapsto> v)) \<subseteq> insert v (ran m)"
  by (auto simp: ran_def)

lemma ran_deleteD: "a \<in> ran (m(k := None)) \<Longrightarrow> a \<in> ran m"
  by (auto simp: ran_def split: if_splits)

lemma hidden_pool: "pool_step s t \<Longrightarrow> hidden a s \<Longrightarrow> hidden a t"
proof (induction rule: pool_step.induct)
  case (p_insert s b)
  then show ?case by (auto simp: hidden_def)
next
  case (p_index s b)
  then have "a \<noteq> b" by (auto simp: hidden_def)
  with p_index ran_update [of "at_index s" "at_key s b" b] show ?case by (auto simp: hidden_def)
qed (erule hidden_kept; auto dest: ran_deleteD split: if_splits)+

lemma hidden_forever:
  assumes "(node_step T)\<^sup>*\<^sup>* s t" and "hidden a s"
  shows "hidden a t"
  using assms by induction (auto simp: node_step_def dest: hidden_task hidden_pool)

lemma listed_used: "node_ok T s \<Longrightarrow> a \<in> listed (at_work s w) \<Longrightarrow> a < at_next s"
  using scans_okD(2) [OF node_okD(6)] by blast

section \<open>Unstamped claims of dead workers\<close>

definition stuck :: "u64 \<Rightarrow> addr \<Rightarrow> service \<Rightarrow> bool" where
  "stuck w a s \<longleftrightarrow> (\<exists>A U L. at_work s w = W_dead A U L \<and> a \<in> A) \<and> at_stamp s a = 0 \<and> (\<forall>as. at_reaper s \<noteq> R_reset a as)"

lemma stuck_claimed:
  assumes "node_ok T s" and "stuck w a s"
  shows "a < at_next s" and "p_state (at_heap s a) = CLAIMED" and "v \<noteq> w \<Longrightarrow> a \<notin> live (phase_of (at_work s v))"
proof -
  note conc = node_okD(1) [OF assms(1), of 0]
  from assms(2) have live: "a \<in> live (sy_phase (sys_of s 0) w)" by (auto simp: stuck_def)
  from conc_okD(2) [OF conc live] show "a < at_next s" "p_state (at_heap s a) = CLAIMED" by simp_all
  show "a \<notin> live (phase_of (at_work s v))" if "v \<noteq> w"
    using conc_okD(4) [OF conc, of a v w] live that by (auto simp: held_def)
qed

lemma stuck_kept:
  assumes "stuck w a s" and "at_work t w = at_work s w" and "at_stamp t a = at_stamp s a"
    and "at_reaper t = at_reaper s \<or> (\<forall>as. at_reaper t \<noteq> R_reset a as)"
  shows "stuck w a t"
  using assms unfolding stuck_def by auto

lemma stuck_task:
  assumes "task_step T s t" and "node_ok T s" and "stuck w a s"
  shows "stuck w a t"
proof -
  note mine = stuck_claimed [OF assms(2,3)]
  obtain A U L where dead: "at_work s w = W_dead A U L" "a \<in> A" and zero: "at_stamp s a = 0"
    and free: "\<And>as. at_reaper s \<noteq> R_reset a as" using assms(3) by (auto simp: stuck_def)
  from assms(1,3) mine dead zero free show ?thesis
  proof (induction rule: task_step.induct)
    case (t_stamp_time s v b cs as)
    have "a \<noteq> b" using t_stamp_time.prems(4) [of v] t_stamp_time.hyps t_stamp_time.prems(5) by force
    with t_stamp_time show ?case by (intro stuck_kept [OF t_stamp_time.prems(1)]) auto
  next
    case (t_reaper_stale s b as)
    have "a \<noteq> b" using t_reaper_stale.hyps t_reaper_stale.prems(7) by (auto simp: too_old_def)
    then show ?case by (intro stuck_kept [OF t_reaper_stale.prems(1)]) simp_all
  next
    case (t_reaper_win s b as p)
    then have "a \<noteq> b" by auto
    with t_reaper_win show ?case by (simp add: stuck_def)
  next
    case (t_die s v)
    then show ?case by (auto simp: stuck_def)
  qed (auto simp: stuck_def compare_exchange_def count_claim_failed_def split: if_splits)
qed

lemma stuck_pool: "pool_step s t \<Longrightarrow> stuck w a s \<Longrightarrow> stuck w a t"
  by (induction rule: pool_step.induct) (auto simp: stuck_def)

lemma stuck_forever:
  assumes "reach node_init (timely_step T) s" and "(timely_step T)\<^sup>*\<^sup>* s t" and "stuck w a s"
  shows "stuck w a t \<and> node_ok T t"
  using assms(2)
proof induction
  case base
  from assms(1,3) show ?case using timely_service.reachable_inv by blast
next
  case (step t u)
  then show ?case using node_ok_step stuck_task stuck_pool by (auto simp: timely_step_def node_step_def)
qed

section \<open>Joining while being removed\<close>

abbreviation evicted :: "player \<Rightarrow> player" where
  "evicted p \<equiv> p\<lparr>p_state := EVICTED\<rparr>"

text \<open>
  The cancel handler of player \<open>a\<close> has taken him out of the primary store; he joins again; the
  handler goes on.
\<close>

definition removed_half :: "addr \<Rightarrow> service \<Rightarrow> service" where
  "removed_half a s = s\<lparr>at_heap := (at_heap s)(a := evicted (at_heap s a)),
     at_primary := (at_primary s)(at_id s a := None), at_cancel := (at_cancel s)(a := C_index a)\<rparr>"

definition rejoined :: "instant \<Rightarrow> addr \<Rightarrow> service \<Rightarrow> service" where
  "rejoined now a s = joined_state now (at_id s a) (p_skill_rating (at_heap s a)) (removed_half a s)"

lemma remove_half_run:
  assumes "timely T s" and "a < at_next s" and "is_waiting (at_heap s a)" and "at_enqueue s a \<noteq> E_primary"
    and "at_primary s (at_id s a) = Some a"
  shows "(timely_step T)\<^sup>*\<^sup>* s (removed_half a s)"
proof -
  let ?s1 = "s\<lparr>at_heap := (at_heap s)(a := evicted (at_heap s a)), at_cancel := (at_cancel s)(a := C_primary)\<rparr>"
  have s1: "task_step T s ?s1"
    by (rule t_evict [OF assms(2,4)]) (use assms(3) in \<open>simp add: compare_exchange_True is_waiting_def\<close>)
  have s2: "pool_step ?s1 (removed_half a s)" using p_cancel [of ?s1 a a] assms(5) by (simp add: removed_half_def)
  have time: "timely T ?s1" "timely T (removed_half a s)"
    by (rule timely_same [OF assms(1)]; simp add: removed_half_def)+
  show ?thesis by (rule task_run [OF s1 time(1) pool_run [OF s2 time(2)]]) simp
qed

text \<open>The end of a cancellation.\<close>

definition removal_finished :: "addr \<Rightarrow> addr \<Rightarrow> service \<Rightarrow> service" where
  "removal_finished a b s = s\<lparr>at_index := (at_index s)(at_key s b := None), at_cancel := (at_cancel s)(a := C_done),
     at_metrics := (at_metrics s)\<lparr>mt_current_queue_size := mt_current_queue_size (at_metrics s) - 1,
       mt_total_players_cancelled := mt_total_players_cancelled (at_metrics s) + 1\<rparr>\<rparr>"

lemma finish_removal_run:
  assumes "timely T s" and "at_cancel s a = C_index b" and "index_unlocked s"
  shows "(timely_step T)\<^sup>*\<^sup>* s (removal_finished a b s)"
proof -
  let ?s1 = "s\<lparr>at_index := (at_index s)(at_key s b := None), at_cancel := (at_cancel s)(a := C_queue)\<rparr>"
  let ?m = "(at_metrics s)\<lparr>mt_current_queue_size := mt_current_queue_size (at_metrics s) - 1\<rparr>"
  let ?s2 = "s\<lparr>at_index := (at_index s)(at_key s b := None), at_cancel := (at_cancel s)(a := C_total), at_metrics := ?m\<rparr>"
  have s1: "pool_step s ?s1" by (rule p_cancel_index [OF assms(2,3)])
  have s2: "task_step T ?s1 ?s2" using t_cancel_queue [of ?s1 a T] by simp
  have s3: "task_step T ?s2 (removal_finished a b s)"
    using t_cancel_total [of ?s2 a T] by (simp add: removal_finished_def)
  have time: "timely T ?s1" "timely T ?s2" "timely T (removal_finished a b s)"
    by (rule timely_same [OF assms(1)]; simp add: removal_finished_def)+
  show ?thesis by (rule pool_run [OF s1 time(1) task_run [OF s2 time(2) task_run [OF s3 time(3)]]]) simp
qed

definition race_end :: "instant \<Rightarrow> addr \<Rightarrow> service \<Rightarrow> service" where
  "race_end now a s = removal_finished a a (rejoined now a s)"

lemma race_run:
  assumes "timely T s" and "a < at_next s" and "is_waiting (at_heap s a)" and "at_enqueue s a \<noteq> E_primary"
    and "at_primary s (at_id s a) = Some a" and "p_skill_rating (at_heap s a) \<le> MAX_SKILL_RATING"
    and "index_unlocked s"
  shows "(timely_step T)\<^sup>*\<^sup>* s (race_end now a s)"
proof -
  let ?t = "rejoined now a s"
  have r1: "(timely_step T)\<^sup>*\<^sup>* s (removed_half a s)" by (rule remove_half_run [OF assms(1-5)])
  have half: "timely T (removed_half a s)" by (rule timely_same [OF assms(1)]) (simp_all add: removed_half_def)
  have r2: "(timely_step T)\<^sup>*\<^sup>* (removed_half a s) ?t"
    unfolding rejoined_def by (rule join_run [OF half _ assms(6)]) (use assms(7) in \<open>simp_all add: removed_half_def index_unlocked_def\<close>)
  have "at_cancel ?t a = C_index a" by (simp add: rejoined_def removed_half_def joined_state_def)
  moreover have "timely T ?t" by (rule timely_same [OF half]) (simp_all add: rejoined_def joined_state_def)
  moreover have "index_unlocked ?t" using assms(7) by (simp add: index_unlocked_def rejoined_def removed_half_def joined_state_def)
  ultimately have "(timely_step T)\<^sup>*\<^sup>* ?t (race_end now a s)" unfolding race_end_def by (intro finish_removal_run)
  with r1 r2 show ?thesis by (meson rtranclp_trans)
qed

lemma race_end_hidden:
  assumes "node_ok T s" and "a < at_next s"
  shows "hidden (at_next s) (race_end now a s)"
proof -
  have key: "at_key (rejoined now a s) a = at_key s a"
    using assms(2) by (simp add: rejoined_def removed_half_def joined_state_def)
  have "at_next s \<notin> ran (at_index s)" using maps_okD(2) [OF node_okD(4) [OF assms(1)]] by (fastforce simp: ran_def)
  then have "at_next s \<notin> ran (at_index (race_end now a s))"
    unfolding race_end_def removal_finished_def key
    by (auto simp: rejoined_def joined_state_def removed_half_def ran_def split: if_splits)
  moreover have "at_next s \<notin> set (concat (at_matches s))"
    using conc_okD(5) [OF node_okD(1) [OF assms(1), of 0], of "at_next s"] by auto
  moreover have "at_next s \<notin> listed (at_work s w)" for w using listed_used [OF assms(1), of "at_next s" w] by auto
  ultimately show ?thesis
    by (simp add: hidden_def) (simp add: race_end_def removal_finished_def rejoined_def joined_state_def removed_half_def)
qed

end
