(* ===== verification/Atomic_Ledger.thy ===== *)
theory Atomic_Ledger
  imports Atomic_Simulation
begin

text \<open>
  The counters of src/src/metrics/mod.rs that the service adds to one at a time, and what they
  count: enqueues and cancellations that have got that far, and matches whose worker has.
\<close>

section \<open>Counting\<close>

lemma card_upd_in:
  assumes "finite A" and "x \<in> A" and "\<not> P (f x)" and "P y"
  shows "card {a \<in> A. P ((f(x := y)) a)} = Suc (card {a \<in> A. P (f a)})"
proof -
  have "{a \<in> A. P ((f(x := y)) a)} = insert x {a \<in> A. P (f a)}" using assms by auto
  with assms show ?thesis by simp
qed

lemma card_upd_out:
  assumes "finite A" and "x \<in> A" and "P (f x)" and "\<not> P y"
  shows "Suc (card {a \<in> A. P ((f(x := y)) a)}) = card {a \<in> A. P (f a)}"
proof -
  have "{a \<in> A. P (f a)} = insert x {a \<in> A. P ((f(x := y)) a)}" using assms by auto
  with assms show ?thesis by simp
qed

lemma upd_same: "P (f x) = P y \<Longrightarrow> {a \<in> A. P ((f(x := y)) a)} = {a \<in> A. P (f a)}"
  by auto

lemmas cycle_counts = count_cycle_def count_insufficient_def count_claim_failed_def

section \<open>The ledger\<close>

fun is_dead :: "worker_point \<Rightarrow> bool" where
  "is_dead (W_dead A U L) = True"
| "is_dead p = False"

text \<open>
  The seven counters a worker adds to for its match, apart from the queue gauge, in the order of
  \<open>update_metrics_on_success\<close>; \<open>stage\<close> is the number of the counter it comes to next.
\<close>

datatype tally = T_matches | T_players | T_waits | T_spread | T_spreads | T_delta | T_deltas

fun rank :: "tally \<Rightarrow> nat" where
  "rank T_matches = 1" | "rank T_players = 2" | "rank T_waits = 4" | "rank T_spread = 5" | "rank T_spreads = 6"
| "rank T_delta = 7" | "rank T_deltas = 8"

fun stage :: "worker_point \<Rightarrow> nat" where
  "stage (W_count_match as) = 1"
| "stage (W_count_players as) = 2"
| "stage (W_count_queue as) = 3"
| "stage (W_count_waits as) = 4"
| "stage (W_count_spread as) = 5"
| "stage (W_count_spreads as) = 6"
| "stage (W_count_delta as) = 7"
| "stage (W_count_deltas as) = 8"
| "stage p = 0"

fun counter :: "tally \<Rightarrow> metrics \<Rightarrow> u64" where
  "counter T_matches m = mt_total_matches_created m"
| "counter T_players m = mt_total_players_matched m"
| "counter T_waits m = mt_total_wait_time_ms m"
| "counter T_spread m = mt_skill_spread_sum m"
| "counter T_spreads m = mt_skill_spread_count m"
| "counter T_delta m = mt_team_delta_sum m"
| "counter T_deltas m = mt_team_delta_count m"

fun worth :: "tally \<Rightarrow> report \<Rightarrow> u64" where
  "worth T_matches rp = 1"
| "worth T_players rp = of_nat MATCH_SIZE"
| "worth T_waits rp = sum_list (rp_waits rp)"
| "worth T_spread rp = ucast (m_skill_spread (rp_match rp))"
| "worth T_spreads rp = 1"
| "worth T_delta rp = ucast (m_team_delta (rp_match rp))"
| "worth T_deltas rp = 1"

definition due :: "tally \<Rightarrow> service \<Rightarrow> u64 \<Rightarrow> u64" where
  "due k s w = (if 0 < stage (at_work s w) \<and> stage (at_work s w) \<le> rank k then worth k (at_report s w) else 0)"

definition tallied :: "tally \<Rightarrow> service \<Rightarrow> bool" where
  "tallied k s \<longleftrightarrow> counter k (at_metrics s) + (\<Sum>w \<in> UNIV. due k s w) = sum_list (map (worth k) (at_reports s))"

text \<open>Every cycle that has begun ends in too few candidates, a failed claim or a match.\<close>

fun cycling :: "worker_point \<Rightarrow> bool" where
  "cycling W_idle = False"
| "cycling (W_seeded j) = False"
| "cycling (W_dead A U L) = False"
| "cycling p = (stage p = 0)"

definition under_way :: "service \<Rightarrow> u64 \<Rightarrow> u64" where
  "under_way s w = (if cycling (at_work s w) then 1 else 0)"

definition cycled :: "service \<Rightarrow> bool" where
  "cycled s \<longleftrightarrow> mt_worker_cycles_total (at_metrics s) =
     mt_match_attempts_insufficient (at_metrics s) + mt_match_attempts_claim_failed (at_metrics s) +
     of_nat (length (at_reports s)) + (\<Sum>w \<in> UNIV. under_way s w)"

definition enqueued_ok :: "service \<Rightarrow> bool" where
  "enqueued_ok s \<longleftrightarrow> mt_total_players_enqueued (at_metrics s) =
     of_nat (card {a \<in> {..<at_next s}. at_enqueue s a \<in> {E_queue, E_done}})"

definition cancelled_ok :: "service \<Rightarrow> bool" where
  "cancelled_ok s \<longleftrightarrow> mt_total_players_cancelled (at_metrics s) =
     of_nat (card {a \<in> {..<at_next s}. at_cancel s a = C_done})"

text \<open>A worker that dies before counting its match leaves the counters behind for good.\<close>

definition matches_ok :: "service \<Rightarrow> bool" where
  "matches_ok s \<longleftrightarrow> (\<exists>w. is_dead (at_work s w)) \<or> (\<forall>k. tallied k s) \<and> cycled s"

lemma enqueued_ok_task:
  assumes "task_step T s t" and "enqueued_ok s" and "stages_ok s"
  shows "enqueued_ok t"
  using assms
proof (induction rule: task_step.induct)
  case (t_create i r s a now)
  have "{b \<in> {..<Suc a}. ((at_enqueue s)(a := E_primary)) b \<in> {E_queue, E_done}} = {b \<in> {..<a}. at_enqueue s b \<in> {E_queue, E_done}}"
    by (auto simp: less_Suc_eq)
  with t_create show ?case by (simp add: enqueued_ok_def del: fun_upd_apply)
next
  case (t_enqueue_total s a)
  then have "a < at_next s" using stages_okD(1) [OF t_enqueue_total.prems(2), of a] by (cases "a < at_next s") auto
  with t_enqueue_total card_upd_in [of "{..<at_next s}" a "\<lambda>p. p \<in> {E_queue, E_done}" "at_enqueue s" E_queue]
  show ?case by (simp add: enqueued_ok_def del: fun_upd_apply)
next
  case (t_enqueue_queue s a)
  with upd_same [of "\<lambda>p. p \<in> {E_queue, E_done}" "at_enqueue s" a E_done "{..<at_next s}"]
  show ?case by (simp add: enqueued_ok_def del: fun_upd_apply)
qed (simp_all add: enqueued_ok_def cycle_counts)

text \<open>The evicted players are those whose cancellation is under way or done.\<close>

definition evicted_ok :: "service \<Rightarrow> bool" where
  "evicted_ok s \<longleftrightarrow> (\<forall>a. at_cancel s a \<noteq> C_none \<longrightarrow> a < at_next s \<and> p_state (at_heap s a) = EVICTED)"

definition evictions_ok :: "service \<Rightarrow> bool" where
  "evictions_ok s \<longleftrightarrow> (\<forall>a < at_next s. p_state (at_heap s a) = EVICTED \<longrightarrow> at_cancel s a \<noteq> C_none)"

lemma evicted_ok_task: "task_step T s t \<Longrightarrow> evicted_ok s \<Longrightarrow> evicted_ok t"
proof (induction rule: task_step.induct)
  case (t_create i r s a now)
  then show ?case by (auto simp: evicted_ok_def)
qed (auto simp: evicted_ok_def compare_exchange_def split: if_splits)

lemma evictions_ok_task: "task_step T s t \<Longrightarrow> evictions_ok s \<Longrightarrow> evictions_ok t"
  by (induction rule: task_step.induct)
    (auto simp: evictions_ok_def compare_exchange_def player_new_def less_Suc_eq split: if_splits)

lemma evictions_ok_pool: "pool_step s t \<Longrightarrow> evictions_ok s \<Longrightarrow> evictions_ok t"
  by (induction rule: pool_step.induct) (auto simp: evictions_ok_def)

lemma evicted_ok_pool: "pool_step s t \<Longrightarrow> evicted_ok s \<Longrightarrow> evicted_ok t"
  by (induction rule: pool_step.induct) (auto simp: evicted_ok_def)

lemma cancelled_ok_task:
  assumes "task_step T s t" and "cancelled_ok s" and "evicted_ok s"
  shows "cancelled_ok t"
  using assms
proof (induction rule: task_step.induct)
  case (t_create i r s a now)
  have "at_cancel s a = C_none" using t_create.prems(2) t_create.hyps(2) by (auto simp: evicted_ok_def)
  then have "{b \<in> {..<Suc a}. at_cancel s b = C_done} = {b \<in> {..<a}. at_cancel s b = C_done}"
    by (auto simp: less_Suc_eq)
  with t_create show ?case by (simp add: cancelled_ok_def)
next
  case (t_evict a s p)
  have "at_cancel s a = C_none"
    using t_evict.prems(2) t_evict.hyps(3) by (fastforce simp: evicted_ok_def compare_exchange_True)
  with t_evict upd_same [of "\<lambda>p. p = C_done" "at_cancel s" a C_primary "{..<at_next s}"]
  show ?case by (simp add: cancelled_ok_def del: fun_upd_apply)
next
  case (t_cancel_queue s a)
  with upd_same [of "\<lambda>p. p = C_done" "at_cancel s" a C_total "{..<at_next s}"]
  show ?case by (simp add: cancelled_ok_def del: fun_upd_apply)
next
  case (t_cancel_total s a)
  have "a < at_next s" using t_cancel_total.prems(2) t_cancel_total.hyps by (simp add: evicted_ok_def)
  with t_cancel_total card_upd_in [of "{..<at_next s}" a "\<lambda>p. p = C_done" "at_cancel s" C_done]
  show ?case by (simp add: cancelled_ok_def del: fun_upd_apply)
qed (simp_all add: cancelled_ok_def cycle_counts)

lemma forget_stage [simp]:
  "is_dead (forget a p) = is_dead p" "stage (forget a p) = stage p" "cycling (forget a p) = cycling p"
  by (cases p; simp)+

lemma rank_pos: "0 < rank k" "Suc 0 \<le> rank k"
  by (cases k; simp)+

text \<open>A worker that moves changes its own share only.\<close>

lemma sum_move:
  fixes f g :: "u64 \<Rightarrow> u64"
  assumes "\<And>v. v \<noteq> w \<Longrightarrow> g v = f v"
  shows "sum g UNIV + f w = sum f UNIV + g w"
proof -
  have "sum g (UNIV - {w}) = sum f (UNIV - {w})" using assms by (intro sum.cong) auto
  then show ?thesis by (simp add: sum.remove [of UNIV w g] sum.remove [of UNIV w f])
qed

lemma shares_add_up:
  fixes c L S d :: u64
  assumes "c + S = L" and "S' + d = S + d'" and "c' + L + d' = c + L' + d"
  shows "c' + S' = L'"
proof -
  have "S' = S + d' - d" using assms(2) by (simp add: eq_diff_eq)
  moreover have "c' = c + L' + d - (L + d')" using assms(3) by (simp add: eq_diff_eq add.assoc)
  ultimately show ?thesis by (simp flip: assms(1))
qed

lemma shares_pay:
  fixes c S d b :: u64
  assumes "c = b + S" and "S' + d = S + d'" and "c' + d + b = c + d' + b'"
  shows "c' = b' + S'"
proof -
  have "S' = S + d' - d" using assms(2) by (simp add: eq_diff_eq)
  moreover have "c' = c + d' + b' - (d + b)" using assms(3) by (simp add: eq_diff_eq add.assoc)
  ultimately show ?thesis by (simp add: assms(1))
qed

text \<open>A live worker goes on; if no other is dead, what it counts has to add up.\<close>

lemma matches_ok_go:
  assumes "matches_ok s" and "at_work t = (at_work s)(w := p)" and "\<not> is_dead (at_work s w)"
    and "\<And>v. v \<noteq> w \<Longrightarrow> at_report t v = at_report s v"
    and "\<And>k. counter k (at_metrics t) + sum_list (map (worth k) (at_reports s)) + due k t w =
      counter k (at_metrics s) + sum_list (map (worth k) (at_reports t)) + due k s w"
    and "mt_worker_cycles_total (at_metrics t) + under_way s w + (mt_match_attempts_insufficient (at_metrics s) +
        mt_match_attempts_claim_failed (at_metrics s) + of_nat (length (at_reports s))) =
      mt_worker_cycles_total (at_metrics s) + under_way t w + (mt_match_attempts_insufficient (at_metrics t) +
        mt_match_attempts_claim_failed (at_metrics t) + of_nat (length (at_reports t)))"
  shows "matches_ok t"
proof (cases "\<exists>v. is_dead (at_work s v)")
  case True
  then obtain v where v: "is_dead (at_work s v)" ..
  with assms(3) have "v \<noteq> w" by auto
  with v have "is_dead (at_work t v)" by (simp add: assms(2))
  then show ?thesis by (auto simp: matches_ok_def)
next
  case False
  with assms(1) have s: "tallied k s" "cycled s" for k by (simp_all add: matches_ok_def)
  have "sum (due k t) UNIV + due k s w = sum (due k s) UNIV + due k t w" for k
    by (rule sum_move) (simp add: due_def assms(2,4))
  from shares_add_up [OF s(1) [unfolded tallied_def] this assms(5)] have "tallied k t" for k
    by (simp add: tallied_def)
  moreover have "sum (under_way t) UNIV + under_way s w = sum (under_way s) UNIV + under_way t w"
    by (rule sum_move) (simp add: under_way_def assms(2))
  from shares_pay [OF s(2) [unfolded cycled_def] this assms(6)] have "cycled t" by (simp add: cycled_def)
  ultimately show ?thesis by (simp add: matches_ok_def)
qed

lemma matches_ok_same:
  assumes "matches_ok s" and "\<And>w. is_dead (at_work t w) = is_dead (at_work s w)"
    and work: "\<And>w. stage (at_work t w) = stage (at_work s w)" "\<And>w. cycling (at_work t w) = cycling (at_work s w)"
    and report: "at_report t = at_report s" "at_reports t = at_reports s"
    and metrics: "\<And>k. counter k (at_metrics t) = counter k (at_metrics s)"
      "mt_worker_cycles_total (at_metrics t) = mt_worker_cycles_total (at_metrics s)"
      "mt_match_attempts_insufficient (at_metrics t) = mt_match_attempts_insufficient (at_metrics s)"
      "mt_match_attempts_claim_failed (at_metrics t) = mt_match_attempts_claim_failed (at_metrics s)"
  shows "matches_ok t"
proof -
  have "due k t = due k s" for k by (simp add: fun_eq_iff due_def work report)
  then have "tallied k t = tallied k s" for k by (simp only: tallied_def metrics report)
  moreover have "under_way t = under_way s" by (simp add: fun_eq_iff under_way_def work)
  then have "cycled t = cycled s" by (simp only: cycled_def metrics report)
  ultimately show ?thesis using assms(1,2) by (simp add: matches_ok_def)
qed

lemma matches_ok_move:
  assumes "matches_ok s" and "at_work t = (at_work s)(w := p)" and "\<not> is_dead (at_work s w)"
    and "stage p = stage (at_work s w)" and "cycling p = cycling (at_work s w)"
    and "at_report t = at_report s" and "at_reports t = at_reports s" and "at_metrics t = at_metrics s"
  shows "matches_ok t"
  by (rule matches_ok_go [OF assms(1-3)]) (simp_all add: assms(2,4-8) due_def under_way_def)

lemma counter_upd:
  "counter k metrics_new = 0" "counter k (m\<lparr>mt_current_queue_size := q\<rparr>) = counter k m"
  "counter k (m\<lparr>mt_total_players_enqueued := n\<rparr>) = counter k m"
  "counter k (m\<lparr>mt_total_players_cancelled := n\<rparr>) = counter k m"
  "counter k (m\<lparr>mt_total_stale_claims_recovered := n\<rparr>) = counter k m"
  "counter k (m\<lparr>mt_worker_cycles_total := n\<rparr>) = counter k m"
  "counter k (m\<lparr>mt_match_attempts_insufficient := n\<rparr>) = counter k m"
  "counter k (m\<lparr>mt_match_attempts_claim_failed := n\<rparr>) = counter k m"
  by (cases k; simp add: metrics_new_def)+

lemma matches_ok_task: "task_step T s t \<Longrightarrow> matches_ok s \<Longrightarrow> matches_ok t"
proof (induction rule: task_step.induct)
  case (t_die s w)
  show ?case by (auto simp: matches_ok_def)
next
  case (t_publish s w as)
  show ?case
    by (rule matches_ok_go [OF t_publish.prems, where w = w])
      (simp_all add: t_publish.hyps due_def under_way_def rank_pos)
next
  case (t_count_match s w as)
  show ?case
    by (rule matches_ok_go [OF t_count_match.prems, where w = w])
      (simp_all add: t_count_match.hyps under_way_def, rename_tac k, case_tac k, simp_all add: due_def t_count_match.hyps)
next
  case (t_count_players s w as)
  show ?case
    by (rule matches_ok_go [OF t_count_players.prems, where w = w])
      (simp_all add: t_count_players.hyps under_way_def, rename_tac k, case_tac k, simp_all add: due_def t_count_players.hyps)
next
  case (t_count_waits s w as)
  show ?case
    by (rule matches_ok_go [OF t_count_waits.prems, where w = w])
      (simp_all add: t_count_waits.hyps under_way_def, rename_tac k, case_tac k, simp_all add: due_def t_count_waits.hyps)
next
  case (t_count_spread s w as)
  show ?case
    by (rule matches_ok_go [OF t_count_spread.prems, where w = w])
      (simp_all add: t_count_spread.hyps under_way_def, rename_tac k, case_tac k, simp_all add: due_def t_count_spread.hyps)
next
  case (t_count_spreads s w as)
  show ?case
    by (rule matches_ok_go [OF t_count_spreads.prems, where w = w])
      (simp_all add: t_count_spreads.hyps under_way_def, rename_tac k, case_tac k, simp_all add: due_def t_count_spreads.hyps)
next
  case (t_count_delta s w as)
  show ?case
    by (rule matches_ok_go [OF t_count_delta.prems, where w = w])
      (simp_all add: t_count_delta.hyps under_way_def, rename_tac k, case_tac k, simp_all add: due_def t_count_delta.hyps)
next
  case (t_count_deltas s w as)
  show ?case
    by (rule matches_ok_go [OF t_count_deltas.prems, where w = w])
      (simp_all add: t_count_deltas.hyps under_way_def, rename_tac k, case_tac k, simp_all add: due_def t_count_deltas.hyps)
next
  case (t_window s w j now)
  show ?case
    by (rule matches_ok_go [OF t_window.prems, where w = w])
      (simp_all add: t_window.hyps due_def under_way_def cycle_counts counter_upd)
next
  case (t_count_short s w)
  show ?case
    by (rule matches_ok_go [OF t_count_short.prems, where w = w])
      (simp_all add: t_count_short.hyps due_def under_way_def cycle_counts counter_upd)
next
  case (t_released s w)
  show ?case
    by (rule matches_ok_go [OF t_released.prems, where w = w])
      (simp_all add: t_released.hyps due_def under_way_def cycle_counts counter_upd)
next
  case (t_marked s w as balance rd)
  show ?case
    by (rule matches_ok_go [OF t_marked.prems, where w = w])
      (simp_all add: t_marked.hyps due_def under_way_def)
next
  case (t_count_queue s w as)
  have "rank k \<noteq> 3" for k by (cases k) simp_all
  then have "3 \<le> rank k \<longleftrightarrow> 4 \<le> rank k" for k using le_neq_implies_less [of 3 "rank k"] by fastforce
  then show ?case
    by (intro matches_ok_go [OF t_count_queue.prems, where w = w])
      (simp_all add: t_count_queue.hyps due_def under_way_def counter_upd)
qed ((erule matches_ok_same; simp add: counter_upd; fail) | (erule matches_ok_move, simp, simp_all; fail))+

text \<open>The accesses to the pool count nothing.\<close>

lemma enqueued_ok_pool: "pool_step s t \<Longrightarrow> enqueued_ok s \<Longrightarrow> enqueued_ok t"
proof (induction rule: pool_step.induct)
  case (p_insert s a)
  with upd_same [of "\<lambda>p. p \<in> {E_queue, E_done}" "at_enqueue s" a E_index "{..<at_next s}"]
  show ?case by (simp add: enqueued_ok_def del: fun_upd_apply)
next
  case (p_index s a)
  with upd_same [of "\<lambda>p. p \<in> {E_queue, E_done}" "at_enqueue s" a E_total "{..<at_next s}"]
  show ?case by (simp add: enqueued_ok_def del: fun_upd_apply)
qed (simp_all add: enqueued_ok_def)

lemma cancelled_ok_pool: "pool_step s t \<Longrightarrow> cancelled_ok s \<Longrightarrow> cancelled_ok t"
proof (induction rule: pool_step.induct)
  case (p_cancel s a b)
  with upd_same [of "\<lambda>p. p = C_done" "at_cancel s" a "C_index b" "{..<at_next s}"]
  show ?case by (simp add: cancelled_ok_def del: fun_upd_apply)
next
  case (p_cancel_absent s a)
  with upd_same [of "\<lambda>p. p = C_done" "at_cancel s" a C_queue "{..<at_next s}"]
  show ?case by (simp add: cancelled_ok_def del: fun_upd_apply)
next
  case (p_cancel_index s a b)
  with upd_same [of "\<lambda>p. p = C_done" "at_cancel s" a C_queue "{..<at_next s}"]
  show ?case by (simp add: cancelled_ok_def del: fun_upd_apply)
qed (simp_all add: cancelled_ok_def)

lemma matches_ok_pool: "pool_step s t \<Longrightarrow> matches_ok s \<Longrightarrow> matches_ok t"
  by (induction rule: pool_step.induct) (rule matches_ok_same matches_ok_move, assumption, simp_all)+

definition ledger_ok :: "u64 \<Rightarrow> service \<Rightarrow> bool" where
  "ledger_ok T s \<longleftrightarrow> node_ok T s \<and> enqueued_ok s \<and> evicted_ok s \<and> evictions_ok s \<and> cancelled_ok s \<and> matches_ok s"

lemma ledger_ok_init: "node_init s \<Longrightarrow> ledger_ok T s"
  using node_ok_init [of s T]
  by (simp add: ledger_ok_def enqueued_ok_def evicted_ok_def evictions_ok_def cancelled_ok_def matches_ok_def tallied_def due_def cycled_def under_way_def
      node_init_def counter_upd) (simp add: metrics_new_def)

lemma ledger_ok_step:
  assumes "ledger_ok T s" and "timely_step T s t"
  shows "ledger_ok T t"
proof -
  have node: "node_ok T s" and ok: "enqueued_ok s" "evicted_ok s" "cancelled_ok s" "matches_ok s" "evictions_ok s"
    using assms(1) by (simp_all add: ledger_ok_def)
  from assms(2) consider (task) "task_step T s t" | (pool) "pool_step s t"
    by (auto simp: timely_step_def node_step_def)
  then have "enqueued_ok t \<and> evicted_ok t \<and> evictions_ok t \<and> cancelled_ok t \<and> matches_ok t"
  proof cases
    case task
    then show ?thesis
      using enqueued_ok_task [OF task ok(1) node_okD(5) [OF node]] evicted_ok_task evictions_ok_task cancelled_ok_task [OF task ok(3,2)]
        matches_ok_task ok by blast
  next
    case pool
    then show ?thesis
      using enqueued_ok_pool evicted_ok_pool evictions_ok_pool cancelled_ok_pool matches_ok_pool ok by blast
  qed
  with node_ok_step [OF node assms(2)] show ?thesis by (simp add: ledger_ok_def)
qed

interpretation ledger: inductive_invariant node_init "timely_step T" "ledger_ok T" for T
  by unfold_locales (auto intro: ledger_ok_init ledger_ok_step)

end
