(* ===== verification/Atomic_Reports.thy ===== *)
theory Atomic_Reports
  imports Atomic_Simulation
begin

text \<open>
  What is published: the match a worker builds of its ten players in phases 4 and 5 of
  src/src/engine/matcher.rs, and the bounded history it is pushed to.
\<close>

section \<open>Marked players have a match time\<close>

text \<open>The players a worker has given their match time.\<close>

fun timed :: "worker_point \<Rightarrow> addr set" where
  "timed (W_mark_time todo as) = set as - set todo"
| "timed (W_mark_state todo as) = insert (hd todo) (set as - set todo)"
| "timed p = {}"

definition times_ok :: "service \<Rightarrow> bool" where
  "times_ok s \<longleftrightarrow> (\<forall>w. \<forall>a \<in> timed (at_work s w). a < at_next s \<and> p_matched_at (at_heap s a) \<noteq> None)"

lemma timed_forget [simp]: "timed (forget b p) = timed p"
  by (cases p) simp_all

lemma compare_exchange_matched:
  "compare_exchange x y p = (b, q) \<Longrightarrow> p_matched_at q = p_matched_at p"
  "p_matched_at (snd (compare_exchange x y p)) = p_matched_at p"
  by (auto simp: compare_exchange_def split: if_splits)

lemma task_step_timed:
  "task_step T s t \<Longrightarrow> a < at_next s \<Longrightarrow> p_matched_at (at_heap s a) \<noteq> None \<Longrightarrow> p_matched_at (at_heap t a) \<noteq> None"
  by (induction rule: task_step.induct) (auto simp: compare_exchange_matched)

lemma task_step_marks:
  "task_step T s t \<Longrightarrow> a \<in> timed (at_work t w) \<Longrightarrow> a \<in> timed (at_work s w) \<or>
   a \<in> listed (at_work s w) \<and> p_matched_at (at_heap t a) \<noteq> None"
  by (induction rule: task_step.induct) (auto split: if_splits)

lemma times_ok_task:
  assumes step: "task_step T s t" and ok: "times_ok s" and used: "\<And>w a. a \<in> listed (at_work s w) \<Longrightarrow> a < at_next s"
  shows "times_ok t"
  unfolding times_ok_def
proof (intro allI ballI)
  fix w a
  assume "a \<in> timed (at_work t w)"
  from task_step_marks [OF step this] have "a < at_next s \<and> p_matched_at (at_heap t a) \<noteq> None"
    using ok used task_step_timed [OF step, of a] by (auto simp: times_ok_def)
  with task_step_players [OF step] show "a < at_next t \<and> p_matched_at (at_heap t a) \<noteq> None" by auto
qed

lemma times_ok_pool: "pool_step s t \<Longrightarrow> times_ok s \<Longrightarrow> times_ok t"
  by (induction rule: pool_step.induct) (auto simp: times_ok_def)

section \<open>Windows\<close>

text \<open>Every window is that of the seed recorded with it at the instant recorded with it, and ratings are what the handler lets in.\<close>

fun windowed :: "worker_point \<Rightarrow> bool" where
  "windowed W_idle = False"
| "windowed (W_seeded j) = False"
| "windowed (W_dead A U L) = False"
| "windowed p = True"

definition window_of :: "service \<Rightarrow> window_reading \<Rightarrow> bool" where
  "window_of s b \<longleftrightarrow> wn_seed b < at_next s \<and>
     wn_bounds b = scan_bounds (wn_now b) (p_skill_rating (at_heap s (wn_seed b))) (p_join_timestamp (at_heap s (wn_seed b))) (at_config s)"

definition windows_ok :: "service \<Rightarrow> bool" where
  "windows_ok s \<longleftrightarrow> (\<forall>w. windowed (at_work s w) \<longrightarrow> window_of s (at_window s w)) \<and>
     (\<forall>w j. at_work s w = W_seeded j \<longrightarrow> j < at_next s) \<and>
     (\<forall>x \<in># at_checked s. snd x \<le> MAX_SKILL_RATING) \<and> (\<forall>a < at_next s. p_skill_rating (at_heap s a) \<le> MAX_SKILL_RATING)"

lemma windowed_forget [simp]: "windowed (forget b p) = windowed p" "forget b p = W_seeded j \<longleftrightarrow> p = W_seeded j"
  by (cases p; simp)+

lemma task_step_config: "task_step T s t \<Longrightarrow> at_config t = at_config s"
  by (induction rule: task_step.induct) simp_all

lemma task_step_join:
  "task_step T s t \<Longrightarrow> a < at_next s \<Longrightarrow> p_join_timestamp (at_heap t a) = p_join_timestamp (at_heap s a)"
  by (induction rule: task_step.induct) (auto simp: compare_exchange_def split: if_splits)

lemma window_of_task: "task_step T s t \<Longrightarrow> window_of s b \<Longrightarrow> window_of t b"
  unfolding window_of_def using task_step_players [of T s t] task_step_join [of T s t] task_step_config [of T s t]
  by (metis less_le_trans prod.inject)

lemma task_step_windowed:
  "task_step T s t \<Longrightarrow> windowed (at_work t w) \<Longrightarrow> windowed (at_work s w) \<and> at_window t w = at_window s w \<or>
   (\<exists>now j. at_work s w = W_seeded j \<and> at_window t w =
     \<lparr>wn_bounds = scan_bounds now (p_skill_rating (at_heap s j)) (p_join_timestamp (at_heap s j)) (at_config s),
      wn_seed = j, wn_now = now\<rparr>)"
  by (induction rule: task_step.induct) (auto split: if_splits)

lemma task_step_seeded:
  "task_step T s t \<Longrightarrow> at_work t w = W_seeded j \<Longrightarrow> at_work s w = W_seeded j \<or> j \<in> ran (at_primary s)"
  by (induction rule: task_step.induct) (auto split: if_splits)

lemma task_step_ratings:
  "task_step T s t \<Longrightarrow> (\<forall>x \<in># at_checked s. snd x \<le> MAX_SKILL_RATING) \<and> (\<forall>a < at_next s. p_skill_rating (at_heap s a) \<le> MAX_SKILL_RATING) \<Longrightarrow>
   (\<forall>x \<in># at_checked t. snd x \<le> MAX_SKILL_RATING) \<and> (\<forall>a < at_next t. p_skill_rating (at_heap t a) \<le> MAX_SKILL_RATING)"
  by (induction rule: task_step.induct)
    (auto simp: compare_exchange_def player_new_def less_Suc_eq dest: in_diffD split: if_splits)

lemma windows_ok_task:
  assumes step: "task_step T s t" and ok: "windows_ok s" and maps: "maps_ok s"
  shows "windows_ok t"
  unfolding windows_ok_def
proof (intro conjI allI impI)
  note steps = task_step_players [OF step]
  have seeds: "j < at_next s" if "at_work s w = W_seeded j" for w j using ok that by (auto simp: windows_ok_def)
  show "window_of t (at_window t w)" if win: "windowed (at_work t w)" for w
  proof (rule window_of_task [OF step])
    from task_step_windowed [OF step win] show "window_of s (at_window t w)"
      using ok seeds by (auto simp: windows_ok_def window_of_def)
  qed
  have "ran (at_primary s) \<subseteq> {..<at_next s}" using maps_okD(1) [OF maps] by (auto simp: ran_def)
  then show "j < at_next t" if "at_work t w = W_seeded j" for w j
    using task_step_seeded [OF step that] seeds steps by (meson le_trans less_le_trans lessThan_iff subsetD)
  have "(\<forall>x \<in># at_checked t. snd x \<le> MAX_SKILL_RATING) \<and> (\<forall>a < at_next t. p_skill_rating (at_heap t a) \<le> MAX_SKILL_RATING)"
    by (rule task_step_ratings [OF step]) (use ok in \<open>simp add: windows_ok_def\<close>)
  then show "\<forall>x \<in># at_checked t. snd x \<le> MAX_SKILL_RATING"
    "a < at_next t \<Longrightarrow> p_skill_rating (at_heap t a) \<le> MAX_SKILL_RATING" for a by simp_all
qed

lemma windows_ok_pool: "pool_step s t \<Longrightarrow> windows_ok s \<Longrightarrow> windows_ok t"
  by (induction rule: pool_step.induct) (auto simp: windows_ok_def window_of_def)

section \<open>Reports\<close>

text \<open>
  A report is right about its players: they are ten different ones in the window, matched for good,
  and the match is the one theory Matcher describes, with the match times stored in the players.
\<close>

definition match_time :: "service \<Rightarrow> addr \<Rightarrow> instant" where
  "match_time s a = the (p_matched_at (at_heap s a))"

definition report_ok :: "service \<Rightarrow> report \<Rightarrow> bool" where
  "report_ok s rp \<longleftrightarrow> window_of s (rp_window rp) \<and> distinct (rp_players rp) \<and> length (rp_players rp) = MATCH_SIZE \<and>
     (\<forall>a \<in> set (rp_players rp). a < at_next s \<and> in_bounds (wn_bounds (rp_window rp)) (p_skill_rating (at_heap s a)) \<and>
        p_state (at_heap s a) = MATCHED \<and> p_matched_at (at_heap s a) \<noteq> None) \<and>
     match_of (match_time s) (at_heap s) (rp_players rp) (rp_match rp) \<and>
     rp_waits rp = map (\<lambda>a. millis_since (match_time s a) (p_join_timestamp (at_heap s a))) (rp_players rp)"

text \<open>A matched player keeps his match time: only his claimer writes it, before he is matched.\<close>

lemma task_step_matched:
  "task_step T s t \<Longrightarrow> a < at_next s \<Longrightarrow> p_state (at_heap s a) = MATCHED \<Longrightarrow>
   (\<And>w todo as. at_work s w \<noteq> W_mark_time (a # todo) as) \<Longrightarrow>
   p_state (at_heap t a) = MATCHED \<and> p_matched_at (at_heap t a) = p_matched_at (at_heap s a)"
  by (induction rule: task_step.induct) (auto simp: compare_exchange_def)

lemma report_ok_keep:
  assumes "report_ok s rp" and "at_next s \<le> at_next t" and "window_of t (rp_window rp)"
    and "\<And>a. a < at_next s \<Longrightarrow> at_key t a = at_key s a \<and> p_join_timestamp (at_heap t a) = p_join_timestamp (at_heap s a)"
    and "\<And>a. a < at_next s \<Longrightarrow> p_state (at_heap s a) = MATCHED \<Longrightarrow>
      p_state (at_heap t a) = MATCHED \<and> p_matched_at (at_heap t a) = p_matched_at (at_heap s a)"
  shows "report_ok t rp"
proof -
  have same: "at_id t a = at_id s a \<and> p_skill_rating (at_heap t a) = p_skill_rating (at_heap s a) \<and>
      p_join_timestamp (at_heap t a) = p_join_timestamp (at_heap s a) \<and> match_time t a = match_time s a"
    and players: "a < at_next t \<and> in_bounds (wn_bounds (rp_window rp)) (p_skill_rating (at_heap t a)) \<and>
      p_state (at_heap t a) = MATCHED \<and> p_matched_at (at_heap t a) \<noteq> None" if "a \<in> set (rp_players rp)" for a
    using assms(1,2) assms(4,5) [of a] that by (auto simp: report_ok_def match_time_def)
  have "match_of (match_time t) (at_heap t) (rp_players rp) (rp_match rp) =
      match_of (match_time s) (at_heap s) (rp_players rp) (rp_match rp)"
    by (rule match_of_cong) (use same in simp)
  moreover have "map (\<lambda>a. millis_since (match_time t a) (p_join_timestamp (at_heap t a))) (rp_players rp) =
      map (\<lambda>a. millis_since (match_time s a) (p_join_timestamp (at_heap s a))) (rp_players rp)"
    using same by simp
  ultimately show ?thesis using assms(1,3) players unfolding report_ok_def by simp
qed

lemma report_ok_task:
  assumes step: "task_step T s t" and node: "node_ok T s" and ok: "report_ok s rp"
  shows "report_ok t rp"
proof (rule report_ok_keep [OF ok])
  show "window_of t (rp_window rp)" by (rule window_of_task [OF step]) (use ok in \<open>simp add: report_ok_def\<close>)
  fix a
  assume a: "a < at_next s" "p_state (at_heap s a) = MATCHED"
  have "at_work s w \<noteq> W_mark_time (a # todo) as" for w todo as
    using conc_okD(2) [OF node_okD(1) [OF node, of 0], of a w] a(2) by auto
  with task_step_matched [OF step a]
  show "p_state (at_heap t a) = MATCHED \<and> p_matched_at (at_heap t a) = p_matched_at (at_heap s a)" by blast
qed (use task_step_players [OF step] task_step_join [OF step] in simp_all)

text \<open>A worker whose players are marked builds a right report.\<close>

lemma make_report_ok:
  assumes node: "node_ok T s" and times: "times_ok s" and windows: "windows_ok s" and work: "at_work s w = W_mark_time [] as"
    and balance: "exhaustive_balance (\<lambda>a. p_skill_rating (at_heap s a)) as = Some r"
  shows "report_ok s (make_report rd (at_window s w) (at_heap s) as r)"
proof -
  note ok = node_okD [OF node]
  let ?rd = "rd\<lparr>rd_matched_now := match_time s\<rparr>"
  have as: "distinct as" "length as = MATCH_SIZE" using conc_okD(1) [OF ok(1) [of 0], of w] work by simp_all
  have inside: "a < at_next s \<and> in_bounds (wn_bounds (at_window s w)) (p_skill_rating (at_heap s a))" if "a \<in> set as" for a
    using scans_okD(2) [OF ok(6), of a w] work that by simp
  then have valid: "\<forall>a \<in> set as. p_skill_rating (at_heap s a) \<le> MAX_SKILL_RATING"
    unfolding in_bounds_def by (meson min.cobounded2 order_trans)
  have marked: "p_state (at_heap s a) = MATCHED" "p_matched_at (at_heap s a) = Some (rd_matched_now ?rd a)"
    "p_matched_at (at_heap s a) \<noteq> None" if "a \<in> set as" for a
  proof -
    show "p_state (at_heap s a) = MATCHED" using conc_okD(3) [OF ok(1) [of 0], of a w] work that by simp
    have "a \<in> timed (at_work s w)" using work that by simp
    with times show "p_matched_at (at_heap s a) \<noteq> None" by (simp add: times_ok_def)
    then show "p_matched_at (at_heap s a) = Some (rd_matched_now ?rd a)" by (auto simp: match_time_def)
  qed
  then have "\<forall>a \<in> set as. p_matched_at (at_heap s a) = Some (rd_matched_now ?rd a)" by blast
  from build_match_of [OF as valid this] balance have "match_of (match_time s) (at_heap s) as (build_match ?rd (at_heap s) as r)"
    and "wait_times ?rd (at_heap s) as = map (\<lambda>a. millis_since (match_time s a) (p_join_timestamp (at_heap s a))) as"
    by (simp, metis option.inject)+
  moreover have "build_match ?rd (at_heap s) as r = build_match rd (at_heap s) as r"
    and "wait_times ?rd (at_heap s) as = wait_times rd (at_heap s) as"
    by (simp_all add: build_match_def wait_times_def)
  ultimately have "match_of (match_time s) (at_heap s) as (build_match rd (at_heap s) as r)"
    "wait_times rd (at_heap s) as = map (\<lambda>a. millis_since (match_time s a) (p_join_timestamp (at_heap s a))) as"
    by simp_all
  moreover have "window_of s (at_window s w)" using windows work by (simp add: windows_ok_def)
  ultimately show ?thesis using as inside marked unfolding report_ok_def make_report_def by auto
qed

section \<open>What has been published\<close>

fun closing :: "worker_point \<Rightarrow> addr list option" where
  "closing (W_remove todo as) = Some as"
| "closing (W_unindex b todo as) = Some as"
| "closing p = None"

lemma closing_forget [simp]: "closing (forget b p) = closing p"
  by (cases p) simp_all

definition reports_ok :: "service \<Rightarrow> bool" where
  "reports_ok s \<longleftrightarrow>
     (\<forall>w as. closing (at_work s w) = Some as \<longrightarrow> rp_players (at_report s w) = as \<and> report_ok s (at_report s w)) \<and>
     (\<forall>rp \<in> set (at_reports s). report_ok s rp) \<and> at_matches s = map rp_players (at_reports s) \<and>
     at_history s = drop (length (at_reports s) - MATCH_HISTORY_LIMIT) (rev (map rp_match (at_reports s)))"

lemma reports_okD:
  assumes "reports_ok s"
  shows "closing (at_work s w) = Some as \<Longrightarrow> rp_players (at_report s w) = as \<and> report_ok s (at_report s w)"
    and "rp \<in> set (at_reports s) \<Longrightarrow> report_ok s rp" and "at_matches s = map rp_players (at_reports s)"
    and "at_history s = drop (length (at_reports s) - MATCH_HISTORY_LIMIT) (rev (map rp_match (at_reports s)))"
  using assms unfolding reports_ok_def by blast+

lemma push_history_drop:
  "length xs = n \<Longrightarrow> push_history l m (drop (n - l) xs) = drop (Suc n - l) (xs @ [m])"
  by (cases "n < l") (auto simp: push_history_eq Suc_diff_le)

text \<open>A worker comes to close its match with the report it built, and publishes that one.\<close>

lemma task_step_closing:
  "task_step T s t \<Longrightarrow> closing (at_work t w) = Some as \<Longrightarrow>
   closing (at_work s w) = Some as \<and> at_report t w = at_report s w \<or>
   at_work s w = W_mark_time [] as \<and> (\<exists>rd r. exhaustive_balance (\<lambda>a. p_skill_rating (at_heap s a)) as = Some r \<and>
     at_report t w = make_report rd (at_window s w) (at_heap s) as r)"
  by (induction rule: task_step.induct) (auto split: if_splits)

lemma task_step_published:
  "task_step T s t \<Longrightarrow>
   at_matches t = at_matches s \<and> at_reports t = at_reports s \<and> at_history t = at_history s \<or>
   (\<exists>w as. closing (at_work s w) = Some as \<and> at_matches t = as # at_matches s \<and> at_reports t = at_report s w # at_reports s \<and>
     at_history t = push_history MATCH_HISTORY_LIMIT (rp_match (at_report s w)) (at_history s))"
  by (induction rule: task_step.induct) (auto, metis closing.simps(1))

lemma reports_ok_task:
  assumes step: "task_step T s t" and ok: "reports_ok s" and node: "node_ok T s" and times: "times_ok s"
    and windows: "windows_ok s"
  shows "reports_ok t"
  unfolding reports_ok_def
proof (intro conjI allI impI)
  note keep = report_ok_task [OF step node] and old = reports_okD [OF ok]
  show "rp_players (at_report t w) = as" "report_ok t (at_report t w)" if "closing (at_work t w) = Some as" for w as
    using task_step_closing [OF step that] old(1) [of w as] keep make_report_ok [OF node times windows]
    by (auto simp: make_report_def)
  from task_step_published [OF step] consider (same) "at_matches t = at_matches s" "at_reports t = at_reports s" "at_history t = at_history s"
    | (new) w as where "closing (at_work s w) = Some as" "at_matches t = as # at_matches s"
        "at_reports t = at_report s w # at_reports s"
        "at_history t = push_history MATCH_HISTORY_LIMIT (rp_match (at_report s w)) (at_history s)"
    by blast
  then have "(\<forall>rp \<in> set (at_reports t). report_ok t rp) \<and> at_matches t = map rp_players (at_reports t) \<and>
    at_history t = drop (length (at_reports t) - MATCH_HISTORY_LIMIT) (rev (map rp_match (at_reports t)))"
  proof cases
    case same
    with old(2-4) keep show ?thesis by simp
  next
    case new
    with old keep push_history_drop [of "rev (map rp_match (at_reports s))" "length (at_reports s)"] show ?thesis
      by (auto simp: new)
  qed
  then show "\<forall>rp \<in> set (at_reports t). report_ok t rp" "at_matches t = map rp_players (at_reports t)"
    "at_history t = drop (length (at_reports t) - MATCH_HISTORY_LIMIT) (rev (map rp_match (at_reports t)))" by blast+
qed

lemma pool_step_reports:
  "pool_step s t \<Longrightarrow> closing (at_work t w) = closing (at_work s w) \<and> at_report t = at_report s \<and> at_heap t = at_heap s \<and>
   at_next t = at_next s \<and> at_config t = at_config s \<and> at_matches t = at_matches s \<and> at_reports t = at_reports s \<and> at_history t = at_history s"
  by (induction rule: pool_step.induct) simp_all

lemma reports_ok_pool:
  assumes "pool_step s t" and "reports_ok s"
  shows "reports_ok t"
proof -
  note keep = pool_step_reports [OF assms(1)]
  have "report_ok t rp = report_ok s rp" for rp using keep by (simp add: report_ok_def window_of_def match_time_def [abs_def])
  then show ?thesis using assms(2) keep by (simp add: reports_ok_def)
qed

definition published_ok :: "u64 \<Rightarrow> service \<Rightarrow> bool" where
  "published_ok T s \<longleftrightarrow> node_ok T s \<and> times_ok s \<and> windows_ok s \<and> reports_ok s"

lemma published_ok_init: "node_init s \<Longrightarrow> published_ok T s"
  using node_ok_init [of s T] by (simp add: published_ok_def times_ok_def windows_ok_def reports_ok_def node_init_def)

lemma published_ok_step:
  assumes "published_ok T s" and "timely_step T s t"
  shows "published_ok T t"
proof -
  have ok: "node_ok T s" "times_ok s" "windows_ok s" "reports_ok s" using assms(1) by (simp_all add: published_ok_def)
  have used: "a < at_next s" if "a \<in> listed (at_work s w)" for w a
    using scans_okD(2) [OF node_okD(6) [OF ok(1)] that] by simp
  from assms(2) consider (task) "task_step T s t" | (pool) "pool_step s t"
    by (auto simp: timely_step_def node_step_def)
  then have "times_ok t \<and> windows_ok t \<and> reports_ok t"
  proof cases
    case task
    have "times_ok t" by (rule times_ok_task [OF task ok(2)]) (rule used)
    with reports_ok_task [OF task ok(4,1,2,3)] windows_ok_task [OF task ok(3) node_okD(4) [OF ok(1)]] show ?thesis by simp
  next
    case pool
    then show ?thesis using times_ok_pool windows_ok_pool reports_ok_pool ok by blast
  qed
  with node_ok_step [OF ok(1) assms(2)] show ?thesis by (simp add: published_ok_def)
qed

interpretation publishing: inductive_invariant node_init "timely_step T" "published_ok T" for T
  by unfold_locales (auto intro: published_ok_init published_ok_step)

end
