(* ===== verification/Matching_Spec.thy ===== *)
theory Matching_Spec
  imports Runs
begin

text \<open>
  What the interleaved service promises, without workers, claims, pools and counters: players
  join, are cancelled, or go ten at a time into a match, each of them at one instant.  Every
  atomic step of the service is one of these or invisible: a cancellation takes effect at its
  compare-and-swap, and a match when it is published.
\<close>

section \<open>The abstract service\<close>

record matching =
  mg_queued :: "addr set"
  mg_cancelled :: "addr set"
  mg_matches :: "addr list list"

inductive matching_step :: "matching \<Rightarrow> matching \<Rightarrow> bool" where
  join: "a \<notin> mg_queued g \<union> mg_cancelled g \<union> set (concat (mg_matches g)) \<Longrightarrow>
    matching_step g (g\<lparr>mg_queued := insert a (mg_queued g)\<rparr>)"
| leave: "a \<in> mg_queued g \<Longrightarrow>
    matching_step g (g\<lparr>mg_queued := mg_queued g - {a}, mg_cancelled := insert a (mg_cancelled g)\<rparr>)"
| form: "set m \<subseteq> mg_queued g \<Longrightarrow> distinct m \<Longrightarrow> length m = 10 \<Longrightarrow>
    matching_step g (g\<lparr>mg_queued := mg_queued g - set m, mg_matches := m # mg_matches g\<rparr>)"

definition matching_of :: "sys \<Rightarrow> matching" where
  "matching_of s =
     \<lparr>mg_queued = {a. a < sy_next s \<and> p_state (sy_heap s a) \<noteq> EVICTED} - set (concat (sy_matches s)),
      mg_cancelled = {a. a < sy_next s \<and> p_state (sy_heap s a) = EVICTED},
      mg_matches = sy_matches s\<rparr>"

section \<open>The steps of the service\<close>

text \<open>A step that neither evicts, nor allocates, nor publishes is invisible.\<close>

lemma invisible_step:
  "sy_next t = sy_next s \<Longrightarrow> sy_matches t = sy_matches s \<Longrightarrow>
   (\<And>a. p_state (sy_heap t a) = EVICTED \<longleftrightarrow> p_state (sy_heap s a) = EVICTED) \<Longrightarrow>
   matching_step\<^sup>=\<^sup>= (matching_of s) (matching_of t)"
  by (simp add: matching_of_def)

lemma matching_simulation:
  assumes "conc_step s t" and "conc_ok s"
  shows "matching_step\<^sup>=\<^sup>= (matching_of s) (matching_of t)"
  using assms
proof (induction rule: conc_step.induct)
  case (enqueued a s now i r)
  have "a \<notin> set (concat (sy_matches s))" using conc_okD(5) [OF enqueued(2), of a] enqueued(1) by auto
  then have "matching_of (s\<lparr>sy_heap := (sy_heap s)(a := player_new now i r), sy_next := Suc a,
      sy_enqueue := (sy_enqueue s)(a := At_primary)\<rparr>) =
      (matching_of s)\<lparr>mg_queued := insert a (mg_queued (matching_of s))\<rparr>"
    using enqueued(1) by (auto simp: matching_of_def player_new_def less_Suc_eq)
  moreover have "a \<notin> mg_queued (matching_of s) \<union> mg_cancelled (matching_of s) \<union> set (concat (mg_matches (matching_of s)))"
    using enqueued(1) conc_okD(5) [OF enqueued(2), of a] by (auto simp: matching_of_def)
  ultimately show ?case by (auto intro: matching_step.join)
next
  case (cancelled a s p)
  then have a: "p_state (sy_heap s a) = WAITING" "p = (sy_heap s a)\<lparr>p_state := EVICTED\<rparr>"
    by (simp_all add: compare_exchange_True)
  have queued: "a \<in> mg_queued (matching_of s)"
    using cancelled(1,4) a(1) conc_okD(5) [OF cancelled(4), of a] by (auto simp: matching_of_def)
  have "matching_of (s\<lparr>sy_heap := (sy_heap s)(a := p), sy_cancel := (sy_cancel s)(a := At_primary)\<rparr>) =
      (matching_of s)\<lparr>mg_queued := mg_queued (matching_of s) - {a}, mg_cancelled := insert a (mg_cancelled (matching_of s))\<rparr>"
    using cancelled(1) by (auto simp: matching_of_def a)
  with queued show ?case by (auto intro: matching_step.leave)
next
  case (published s w as)
  have mine: "a < sy_next s \<and> p_state (sy_heap s a) = MATCHED \<and> a \<notin> set (concat (sy_matches s))" if "a \<in> set as" for a
    using conc_okD(3) [OF published(2), of a w] published(1) that by simp
  have "distinct as" "length as = 10"
    using conc_okD(1) [OF published(2), of w] published(1) by (auto simp: MATCH_SIZE_def)
  moreover have "set as \<subseteq> mg_queued (matching_of s)" using mine by (auto simp: matching_of_def)
  moreover have "matching_of (s\<lparr>sy_matches := as # sy_matches s, sy_phase := (sy_phase s)(w := Count_match as)\<rparr>) =
      (matching_of s)\<lparr>mg_queued := mg_queued (matching_of s) - set as, mg_matches := as # mg_matches (matching_of s)\<rparr>"
    by (auto simp: matching_of_def)
  ultimately show ?case by (auto intro: matching_step.form)
qed (rule invisible_step; auto simp: compare_exchange_def split: if_splits)+

lemma matching_simulations:
  assumes "conc_step\<^sup>*\<^sup>* s t" and "reach conc_init conc_step s"
  shows "matching_step\<^sup>*\<^sup>* (matching_of s) (matching_of t)"
  using assms(1)
proof induction
  case (step t u)
  have "conc_ok t" by (rule concurrent.reachable_inv [OF reach_steps [OF step(1) assms(2)]])
  from matching_simulation [OF step(2) this] step(3) show ?case by (auto intro: rtranclp.rtrancl_into_rtrancl)
qed simp

section \<open>Properties\<close>

text \<open>
  The interleaved service implements the abstract one.  Whatever the interleaving of handlers,
  workers and Reaper, and whichever workers die, what has happened to the players from one
  reachable state to a later one is a sequence of joins of new players, cancellations of queued
  ones, and matches of ten different queued ones, each effective at one instant.
\<close>

theorem interleaved_service_implements_matching:
  assumes "reach conc_init conc_step s" and "conc_step\<^sup>*\<^sup>* s t"
  shows "matching_step\<^sup>*\<^sup>* (matching_of s) (matching_of t)"
  by (rule matching_simulations [OF assms(2,1)])

theorem interleaved_service_implements_matching_witness:
  "\<exists>g. matching_step\<^sup>*\<^sup>* \<lparr>mg_queued = {..<11}, mg_cancelled = {}, mg_matches = []\<rparr> g \<and> mg_matches g = [[0..<10]]"
proof -
  have "matching_of (demo_queued 11) = \<lparr>mg_queued = {..<11}, mg_cancelled = {}, mg_matches = []\<rparr>"
    using demo_queued_fields(4) [of _ 11] by (auto simp: matching_of_def demo_queued_fields is_waiting_def)
  moreover have "mg_matches (matching_of demo_matched) = [[0..<10]]"
    unfolding matching_of_def by (simp only: demo_matched_fields matching.select_convs)
  ultimately show ?thesis
    using interleaved_service_implements_matching [OF demo_queued_reach demo_matched_run] by auto
qed

end
