(* ===== verification/Atomic_Properties.thy ===== *)
theory Atomic_Properties
  imports Atomic_Demo Atomic_Races Atomic_Ledger Atomic_Reports Matching_Spec
begin

text \<open>
  What holds of the running service: ownership, matches and recovery under timely runs, the pool and
  the counters under orderly ones, and how a player can get lost.
\<close>

section \<open>Ownership\<close>

text \<open>
  C1: As long as no live worker takes longer than the claim timeout, no player is in two matches or
  twice in one, every match has ten players and each of them is matched: under any interleaving
  of requests, workers, the Reaper and the clock, whoever dies where, and whatever the identifiers.
\<close>

theorem timely_service_matches_nobody_twice:
  assumes "reach node_init (timely_step T) s"
  shows "distinct (concat (at_matches s)) \<and> (\<forall>m \<in> set (at_matches s). length m = MATCH_SIZE) \<and>
    (\<forall>a \<in> set (concat (at_matches s)). a < at_next s \<and> p_state (at_heap s a) = MATCHED)"
  using conc_okD(5-7) [OF node_okD(1) [OF timely_service.reachable_inv [OF assms]]] by simp

theorem timely_service_matches_nobody_twice_witness:
  "at_matches demo_done = [[0..<10]] \<and> p_state (at_heap demo_done 9) = MATCHED"
proof
  from timely_service_matches_nobody_twice [OF orderly_timely [OF demo_done_reach]]
  show "p_state (at_heap demo_done 9) = MATCHED" by (simp add: demo_done_fields)
qed (rule demo_done_fields)

text \<open>
  C19: As long as no live worker takes longer than the claim timeout, the Reaper takes players only
  from dead workers: whenever it is about to reset a claim and would succeed, that claim belongs to
  a worker that died, and everything a live worker has claimed stays claimed.
\<close>

theorem reaper_resets_only_dead_claims:
  assumes "reach node_init (timely_step T) s"
  shows "(\<forall>a as. at_reaper s = R_reset a as \<and> p_state (at_heap s a) = CLAIMED \<longrightarrow>
      (\<exists>w A U L. at_work s w = W_dead A U L \<and> a \<in> A) \<and> (\<forall>v. a \<notin> claims (at_work s v))) \<and>
    (\<forall>w. \<forall>a \<in> claims (at_work s w). p_state (at_heap s a) = CLAIMED)"
proof (intro conjI allI impI ballI)
  have node: "node_ok T s" by (rule timely_service.reachable_inv [OF assms])
  note ok = node_okD [OF node]
  show "p_state (at_heap s a) = CLAIMED" if "a \<in> claims (at_work s w)" for w a
    by (rule claimsD(2) [OF ok(1) [of 0] that])
  fix a as
  assume r: "at_reaper s = R_reset a as \<and> p_state (at_heap s a) = CLAIMED"
  show "a \<notin> claims (at_work s v)" for v using stamps_okD(4) [OF ok(2), of a v] r by simp
  have "visits (at_reaper s) \<subseteq> {..<at_next s}" using ok(3) by (simp add: clocks_ok_def)
  from reset_claim_is_dead [OF ok(1) [of 0] ok(2) this] r
  show "\<exists>w A U L. at_work s w = W_dead A U L \<and> a \<in> A" by metis
qed

theorem reaper_resets_only_dead_claims_witness:
  "at_reaper demo_stale = R_reset 0 [1..<11] \<and> (\<exists>w A U L. at_work demo_stale w = W_dead A U L \<and> 0 \<in> A)"
proof
  have "at_reaper demo_stale = R_reset 0 [1..<11] \<and> p_state (at_heap demo_stale 0) = CLAIMED"
    by (simp add: demo_stale_def demo_dead_fields del: upt_rec_numeral)
  with reaper_resets_only_dead_claims [OF demo_stale_reach]
  show "\<exists>w A U L. at_work demo_stale w = W_dead A U L \<and> 0 \<in> A" by blast
qed (simp add: demo_stale_def)

section \<open>Recovery\<close>



text \<open>
  C33: An unstamped claim of a dead worker is for ever: once a worker has died holding a player whose
  timestamp is zero, and the Reaper has not already decided to reset him, no run whose workers are
  timely ever takes him out of the claimed state, and he is in no match.
\<close>

theorem unstamped_dead_claim_lost:
  assumes "reach node_init (timely_step T) s" and "at_work s w = W_dead A U L" and "a \<in> A"
    and "at_stamp s a = 0" and "\<forall>as. at_reaper s \<noteq> R_reset a as"
  shows "\<not> (\<exists>t. (timely_step T)\<^sup>*\<^sup>* s t \<and> (p_state (at_heap t a) \<noteq> CLAIMED \<or> a \<in> set (concat (at_matches t))))"
proof
  assume "\<exists>t. (timely_step T)\<^sup>*\<^sup>* s t \<and> (p_state (at_heap t a) \<noteq> CLAIMED \<or> a \<in> set (concat (at_matches t)))"
  then obtain t where run: "(timely_step T)\<^sup>*\<^sup>* s t"
    and out: "p_state (at_heap t a) \<noteq> CLAIMED \<or> a \<in> set (concat (at_matches t))" by blast
  have "stuck w a s" using assms(2-5) by (simp add: stuck_def)
  with stuck_forever [OF assms(1) run] have t: "stuck w a t" "node_ok T t" by simp_all
  from stuck_claimed(2) [OF t(2,1)] out conc_okD(5) [OF node_okD(1) [OF t(2), of 0], of a] show False by auto
qed

theorem unstamped_dead_claim_lost_witness:
  "\<not> (\<exists>t. (timely_step 500)\<^sup>*\<^sup>* demo_stuck t \<and> (p_state (at_heap t 0) \<noteq> CLAIMED \<or> 0 \<in> set (concat (at_matches t))))"
proof (rule unstamped_dead_claim_lost)
  show "reach node_init (timely_step 500) demo_stuck"
    by (rule reach_steps [OF demo_stuck_run orderly_timely [OF demo_node_reach]]) simp
  show "at_work demo_stuck 1 = W_dead {0} {} {}" "0 \<in> {0 :: addr}" "at_stamp demo_stuck 0 = 0"
    "\<forall>as. at_reaper demo_stuck \<noteq> R_reset 0 as"
    by (simp_all add: demo_stuck_def demo_claiming_def demo_found_def demo_node_fields player_new_def del: demo_node.simps upt_rec_numeral)
qed

text \<open>
  C17: The Reaper can make a claim unrecoverable.  There is a run without a late worker in which a
  worker claims and stamps a player that the Reaper has just put back, the Reaper then clears the
  fields of the claim, and the worker dies: the stamp was there and is gone, and the player stays
  claimed for ever.
\<close>

theorem reaper_can_lose_claim:
  "\<exists>s t. reach node_init (timely_step 500) s \<and> at_work s 2 = W_claiming [1..<11] [0] \<and>
     at_stamp s 0 = 1000 \<and> p_claimed_by (at_heap s 0) = 2 \<and> (timely_step 500)\<^sup>*\<^sup>* s t \<and>
     at_work t 2 = W_dead {0} {} {} \<and> at_stamp t 0 = 0 \<and> p_claimed_by (at_heap t 0) = 0 \<and>
     \<not> (\<exists>u. (timely_step 500)\<^sup>*\<^sup>* t u \<and> p_state (at_heap u 0) \<noteq> CLAIMED)"
proof (intro exI conjI)
  let ?t = "taken_over 2 0 [1..<11] [1..<11] demo_stale" and ?u = "erased_state 2 0 [1..<11] [1..<11] demo_stale"
  have "timely 500 demo_stale" by (rule timely_resting) (simp add: demo_stale_def demo_dead_fields)
  then have r2: "(timely_step 500)\<^sup>*\<^sup>* demo_stale ?t"
  proof (rule take_over_run)
    show "filter (\<lambda>b. is_waiting (at_heap (reset_found 0 [1..<11] demo_stale) b)) [0..<11] = 0 # [1..<11]"
      using demo_dead_heap by (simp add: reset_found_def demo_stale_def upt_conv_Cons is_waiting_def player_new_def)
    show "demo_players demo_stale" using demo_dead_players by (simp add: demo_players_def demo_stale_def)
  qed (simp_all add: demo_stale_def demo_dead_fields del: upt_rec_numeral)
  show reach_t: "reach node_init (timely_step 500) ?t" by (rule reach_steps [OF r2 demo_stale_reach])
  have "timely 500 ?t" using timely_service.reachable_inv [OF reach_t] by (simp add: node_ok_def clocks_ok_def)
  then show r3: "(timely_step 500)\<^sup>*\<^sup>* ?t ?u" by (rule erase_run)
  have u: "reach node_init (timely_step 500) ?u" by (rule reach_steps [OF r3 reach_t])
  have "stuck 2 0 ?u" by (simp add: stuck_def erased_state_def Let_def)
  from stuck_forever [OF u _ this] stuck_claimed(2) [of 500 _ 2 0]
  show "\<not> (\<exists>v. (timely_step 500)\<^sup>*\<^sup>* ?u v \<and> p_state (at_heap v 0) \<noteq> CLAIMED)" by blast
qed (simp_all add: taken_over_def erased_state_def Let_def claimed_by_def demo_stale_def del: upt_rec_numeral)

section \<open>The pool and the counters\<close>

lemma queued_filed:
  assumes "tidy T s" and "a < at_next s" and "at_enqueue s a \<notin> {E_primary, E_index}"
    and "p_state (at_heap s a) \<in> {WAITING, CLAIMED}"
  shows "at_primary s (at_id s a) = Some a" and "at_index s (at_key s a) = Some a"
proof -
  from assms(1) obtain g where acc: "accounting_ok (sys_of s g)" and node: "node_ok T s"
    by (auto simp: tidy_def counted_def)
  have "enqueue_of (at_enqueue s a) \<in> {At_metrics, Done}" using assms(3) by (cases "at_enqueue s a") auto
  moreover have "entry_at (sys_of s g) a" using acc assms(2) filing_okD(1) [of "sys_of s g" a] by (simp add: accounting_ok_def)
  ultimately have filed: "a \<in> ran (at_primary s)" "a \<in> ran (at_index s)" using assms(4) by (auto simp: entry_ok_def)
  show "at_primary s (at_id s a) = Some a" "at_index s (at_key s a) = Some a"
    by (rule filed_own [OF node_okD(4) [OF node]]; rule filed)+
qed

text \<open>
  C9: As long as no live worker is late and no identifier is used by two players in touch with the
  pool, no queued player is lost: a waiting or claimed player whose enqueue got through the pool is
  found in the primary store under his identifier and in the index under his rating, and the players of
  a published match are in neither.
\<close>

theorem orderly_service_loses_nobody:
  assumes "reach node_init (orderly_step T) s"
  shows "(\<forall>a < at_next s. at_enqueue s a \<notin> {E_primary, E_index} \<longrightarrow> p_state (at_heap s a) \<in> {WAITING, CLAIMED} \<longrightarrow>
      at_primary s (at_id s a) = Some a \<and> at_index s (at_key s a) = Some a) \<and>
    (\<forall>a \<in> set (concat (at_matches s)). a \<notin> ran (at_primary s) \<and> a \<notin> ran (at_index s))"
proof (intro conjI allI impI ballI)
  have tidy: "tidy T s" by (rule orderly_service.reachable_inv [OF assms])
  then obtain g where acc: "accounting_ok (sys_of s g)" by (auto simp: tidy_def counted_def)
  show "a \<notin> ran (at_primary s)" "a \<notin> ran (at_index s)" if "a \<in> set (concat (at_matches s))" for a
    using acc that linking_okD(6) [of "sys_of s g" a] by (simp_all add: accounting_ok_def removed_def)
qed (rule queued_filed [OF orderly_service.reachable_inv [OF assms]], assumption+)+

theorem orderly_service_loses_nobody_witness:
  "at_primary demo_done 10 = Some 10 \<and> 3 \<notin> ran (at_index demo_done)"
proof
  note all = orderly_service_loses_nobody [OF demo_done_reach]
  have "10 < at_next demo_done \<and> at_enqueue demo_done 10 = E_done" by (simp add: demo_done_fields)
  with all [THEN conjunct1, rule_format, of 10] show "at_primary demo_done 10 = Some 10"
    by (simp add: demo_done_fields player_new_def)
  have "3 \<in> set (concat (at_matches demo_done))" by (simp add: demo_done_fields)
  with all show "3 \<notin> ran (at_index demo_done)" by blast
qed

lemma worth_fun:
  "worth T_matches = (\<lambda>rp. 1)" "worth T_players = (\<lambda>rp. of_nat MATCH_SIZE)" "worth T_spreads = (\<lambda>rp. 1)" "worth T_deltas = (\<lambda>rp. 1)"
  "worth T_waits = (\<lambda>rp. sum_list (rp_waits rp))" "worth T_spread = (\<lambda>rp. ucast (m_skill_spread (rp_match rp)))"
  "worth T_delta = (\<lambda>rp. ucast (m_team_delta (rp_match rp)))"
  by (simp_all add: fun_eq_iff)

text \<open>What the workers have counted once they are all idle.\<close>

lemma totals_at_rest:
  assumes "reach node_init (timely_step T) s" and "\<forall>w. at_work s w = W_idle"
  defines "m \<equiv> at_metrics s"
  shows "mt_total_matches_created m = of_nat (length (at_matches s))"
    and "mt_total_players_matched m = of_nat (10 * length (at_matches s))"
    and "mt_skill_spread_count m = of_nat (length (at_matches s))"
    and "mt_team_delta_count m = of_nat (length (at_matches s))"
    and "mt_total_wait_time_ms m = (\<Sum>rp \<leftarrow> at_reports s. sum_list (rp_waits rp))"
    and "mt_skill_spread_sum m = (\<Sum>rp \<leftarrow> at_reports s. ucast (m_skill_spread (rp_match rp)))"
    and "mt_team_delta_sum m = (\<Sum>rp \<leftarrow> at_reports s. ucast (m_team_delta (rp_match rp)))"
    and "mt_worker_cycles_total m =
      mt_match_attempts_insufficient m + mt_match_attempts_claim_failed m + mt_total_matches_created m"
proof -
  have ledger: "ledger_ok T s" by (rule ledger.reachable_inv [OF assms(1)])
  have "at_matches s = map rp_players (at_reports s)"
    using publishing.reachable_inv [OF assms(1)] reports_okD(3) by (auto simp: published_ok_def)
  then have length: "length (at_reports s) = length (at_matches s)" by simp
  have "\<not> is_dead (at_work s w)" for w using assms(2) by simp
  with ledger have tallied: "tallied k s" and cycled: "cycled s" for k by (auto simp: ledger_ok_def matches_ok_def)
  have "due k s = (\<lambda>w. 0)" for k using assms(2) by (simp add: due_def fun_eq_iff)
  then have totals: "counter k (at_metrics s) = sum_list (map (worth k) (at_reports s))" for k
    using tallied [of k] by (simp add: tallied_def)
  show matches: "mt_total_matches_created m = of_nat (length (at_matches s))"
    and "mt_total_players_matched m = of_nat (10 * length (at_matches s))"
    and "mt_skill_spread_count m = of_nat (length (at_matches s))"
    and "mt_team_delta_count m = of_nat (length (at_matches s))"
    using totals [of T_matches] totals [of T_players] totals [of T_spreads] totals [of T_deltas]
    by (simp_all add: m_def worth_fun sum_list_triv length MATCH_SIZE_def)
  show "mt_total_wait_time_ms m = (\<Sum>rp \<leftarrow> at_reports s. sum_list (rp_waits rp))"
    and "mt_skill_spread_sum m = (\<Sum>rp \<leftarrow> at_reports s. ucast (m_skill_spread (rp_match rp)))"
    and "mt_team_delta_sum m = (\<Sum>rp \<leftarrow> at_reports s. ucast (m_team_delta (rp_match rp)))"
    using totals [of T_waits] totals [of T_spread] totals [of T_delta] by (simp_all add: m_def worth_fun)
  have "under_way s = (\<lambda>w. 0)" using assms(2) by (simp add: under_way_def fun_eq_iff)
  with cycled matches show "mt_worker_cycles_total m =
      mt_match_attempts_insufficient m + mt_match_attempts_claim_failed m + mt_total_matches_created m"
    by (simp add: cycled_def length m_def)
qed

text \<open>
  C10: The counters tell the truth at rest.  After any orderly run that has come to rest, with every
  worker idle and every request answered, the queue gauge is the number of waiting players and the
  size of the primary store, and the totals of enqueues, cancellations, matches and matched
  players are what happened: every player that joined waits, was cancelled, or is one of the ten
  of exactly one match.  The totals of waiting time, skill spread and team delta are the sums over
  the published matches, and every worker cycle ended in a match or in one of the two failures.
\<close>

theorem counters_true_at_rest:
  assumes "reach node_init (orderly_step T) s" and "\<forall>w. at_work s w = W_idle"
    and "\<forall>a. at_enqueue s a \<in> {E_none, E_done} \<and> at_cancel s a \<in> {C_none, C_done}"
  shows "let waiting = {a. a < at_next s \<and> p_state (at_heap s a) = WAITING};
             evicted = {a. a < at_next s \<and> p_state (at_heap s a) = EVICTED}; m = at_metrics s
    in ran (at_primary s) = waiting \<and> mt_current_queue_size m = of_nat (card waiting) \<and>
       mt_total_players_enqueued m = of_nat (at_next s) \<and> mt_total_players_cancelled m = of_nat (card evicted) \<and>
       mt_total_matches_created m = of_nat (length (at_matches s)) \<and>
       mt_total_players_matched m = of_nat (10 * length (at_matches s)) \<and>
       mt_total_wait_time_ms m = (\<Sum>rp \<leftarrow> at_reports s. sum_list (rp_waits rp)) \<and>
       mt_skill_spread_sum m = (\<Sum>rp \<leftarrow> at_reports s. ucast (m_skill_spread (rp_match rp))) \<and>
       mt_team_delta_sum m = (\<Sum>rp \<leftarrow> at_reports s. ucast (m_team_delta (rp_match rp))) \<and>
       mt_skill_spread_count m = of_nat (length (at_matches s)) \<and> mt_team_delta_count m = of_nat (length (at_matches s)) \<and>
       mt_worker_cycles_total m = mt_match_attempts_insufficient m + mt_match_attempts_claim_failed m + mt_total_matches_created m \<and>
       at_next s = card waiting + card evicted + 10 * length (at_matches s)"
proof -
  note timely = orderly_timely [OF assms(1)]
  have tidy: "tidy T s" by (rule orderly_service.reachable_inv [OF assms(1)])
  have ledger: "ledger_ok T s" by (rule ledger.reachable_inv [OF timely])
  obtain g where acc: "accounting_ok (sys_of s g)" and g: "of_int g = queue_gauge s"
    using tidy by (auto simp: tidy_def counted_def)
  let ?waiting = "{a. a < at_next s \<and> p_state (at_heap s a) = WAITING}"
  let ?evicted = "{a. a < at_next s \<and> p_state (at_heap s a) = EVICTED}"
  have rest: "at_enqueue s a \<in> {E_none, E_done}" "at_cancel s a \<in> {C_none, C_done}" for a using assms(3) by auto
  have "\<forall>w. sy_phase (sys_of s g) w = Idle" using assms(2) by simp
  moreover have "\<forall>a. sy_enqueue (sys_of s g) a = Done \<and> sy_cancel (sys_of s g) a = Done"
  proof
    show "sy_enqueue (sys_of s g) a = Done \<and> sy_cancel (sys_of s g) a = Done" for a using rest [of a] by auto
  qed
  ultimately have all: "ran (at_primary s) = ?waiting \<and> g = int (card (ran (at_primary s))) \<and>
      at_next s = card (ran (at_primary s)) + card ?evicted + MATCH_SIZE * length (at_matches s)"
    using books_at_rest [OF acc] by auto
  then have ran: "ran (at_primary s) = ?waiting" ..
  from all have books: "g = int (card ?waiting)" "at_next s = card ?waiting + card ?evicted + MATCH_SIZE * length (at_matches s)"
    unfolding ran by blast+
  have "{a \<in> {..<at_next s}. at_enqueue s a \<in> {E_queue, E_done}} = {..<at_next s}"
    using rest(1) stages_okD(2) [OF node_okD(5), of T s] tidy by (auto simp: tidy_def)
  with ledger have enqueued: "mt_total_players_enqueued (at_metrics s) = of_nat (at_next s)"
    by (simp add: ledger_ok_def enqueued_ok_def)
  have "{a \<in> {..<at_next s}. at_cancel s a = C_done} = ?evicted"
    using ledger rest(2) by (auto simp: ledger_ok_def evicted_ok_def evictions_ok_def)
  with ledger have cancelled: "mt_total_players_cancelled (at_metrics s) = of_nat (card ?evicted)"
    by (simp add: ledger_ok_def cancelled_ok_def)
  note totals = totals_at_rest [OF timely assms(2)]
  have "mt_current_queue_size (at_metrics s) = of_nat (card ?waiting)" using g books(1) by simp
  with ran books enqueued cancelled totals show ?thesis by (simp add: Let_def MATCH_SIZE_def)
qed

theorem counters_true_at_rest_witness:
  "mt_total_players_enqueued (at_metrics demo_done) = 11 \<and> mt_total_matches_created (at_metrics demo_done) = 1 \<and>
   mt_worker_cycles_total (at_metrics demo_done) =
     mt_match_attempts_insufficient (at_metrics demo_done) + mt_match_attempts_claim_failed (at_metrics demo_done) + 1"
  using counters_true_at_rest [OF demo_done_reach] by (simp add: demo_done_fields Let_def)

section \<open>What is published\<close>

lemma in_scan_bounds:
  assumes "r \<le> MAX_SKILL_RATING" and "x \<le> MAX_SKILL_RATING" and "in_bounds (scan_bounds now r t c) x"
  shows "abs_diff x r \<le> relaxation_window now t c"
proof -
  have "fst (scan_bounds now r t c) \<le> MAX_SKILL_RATING" "snd (scan_bounds now r t c) \<le> MAX_SKILL_RATING"
    using scan_bounds_contain(1,3) [OF assms(1)] assms(1) by (auto intro: order_trans)
  then have "fst (scan_bounds now r t c) \<le> x \<and> x \<le> snd (scan_bounds now r t c)"
    using assms(3) by (simp add: in_bounds_def min_absorb1)
  then show ?thesis using scan_bounds_iff [OF assms(2,1)] by blast
qed

text \<open>
  C7: What the running service publishes is fair, whatever the tasks do meanwhile.  As long as no live
  worker is late, every published match is of ten different players, all matched, and carries the seed
  and the instant for which its worker computed the window; all ten are within the seed's relaxation
  window at that instant.  If the worker's \<open>Instant\<close> did not go back between that reading and the mark
  of a player, then he is also within the window the seed had at the match time stored in the player
  (under a validated configuration, for waits that fit 64 bits).  The two teams of the published
  match divide the ten with the smallest possible difference, which is the delta published; every
  player is published with his identifier, his rating and his wait from joining to his stored match
  time; the totals, the spread, the average and the longest wait are those of the ten.  The history holds
  the last 10000 published matches, oldest first.
\<close>

theorem published_matches_are_fair:
  assumes "reach node_init (timely_step T) s"
  shows "at_matches s = map rp_players (at_reports s) \<and>
    at_history s = drop (length (at_matches s) - 10000) (rev (map rp_match (at_reports s))) \<and>
    (\<forall>rp \<in> set (at_reports s).
       let as = rp_players rp; seed = wn_seed (rp_window rp); now = wn_now (rp_window rp);
           rating = (\<lambda>a. p_skill_rating (at_heap s a)); matched_at = (\<lambda>a. the (p_matched_at (at_heap s a)));
           window = (\<lambda>t. relaxation_window t (p_join_timestamp (at_heap s seed)) (at_config s))
       in seed < at_next s \<and> distinct as \<and> length as = 10 \<and>
          (\<forall>a \<in> set as. p_state (at_heap s a) = MATCHED \<and> p_matched_at (at_heap s a) = Some (matched_at a) \<and>
             abs_diff (rating a) (rating seed) \<le> window now \<and>
             (config_ok (at_config s) \<and> now \<le> matched_at a \<and>
                (matched_at a - p_join_timestamp (at_heap s seed)) div 1000000 < 2 ^ 64 \<longrightarrow>
              abs_diff (rating a) (rating seed) \<le> window (matched_at a))) \<and>
          match_of matched_at (at_heap s) as (rp_match rp))"
proof (intro conjI ballI)
  have ok: "windows_ok s" "reports_ok s" using publishing.reachable_inv [OF assms] by (simp_all add: published_ok_def)
  note reports = reports_okD [OF ok(2)]
  show matches: "at_matches s = map rp_players (at_reports s)" by (rule reports(3))
  show "at_history s = drop (length (at_matches s) - 10000) (rev (map rp_match (at_reports s)))"
    using reports(4) by (simp add: matches MATCH_HISTORY_LIMIT_def)
  fix rp
  assume "rp \<in> set (at_reports s)"
  then have rp: "report_ok s rp" by (rule reports(2))
  let ?seed = "wn_seed (rp_window rp)" and ?now = "wn_now (rp_window rp)"
  let ?window = "\<lambda>t. relaxation_window t (p_join_timestamp (at_heap s ?seed)) (at_config s)"
  have seed: "?seed < at_next s" and bounds: "wn_bounds (rp_window rp) =
      scan_bounds ?now (p_skill_rating (at_heap s ?seed)) (p_join_timestamp (at_heap s ?seed)) (at_config s)"
    using rp by (simp_all add: report_ok_def window_of_def)
  have ratings: "p_skill_rating (at_heap s a) \<le> MAX_SKILL_RATING" if "a < at_next s" for a
    using ok(1) that by (simp add: windows_ok_def)
  have near: "abs_diff (p_skill_rating (at_heap s a)) (p_skill_rating (at_heap s ?seed)) \<le> ?window ?now"
    if "a \<in> set (rp_players rp)" for a
  proof -
    have a: "a < at_next s" "in_bounds (wn_bounds (rp_window rp)) (p_skill_rating (at_heap s a))"
      using rp that by (auto simp: report_ok_def)
    then show ?thesis using in_scan_bounds [OF ratings [OF seed] ratings [OF a(1)]] unfolding bounds by blast
  qed
  have later: "abs_diff (p_skill_rating (at_heap s a)) (p_skill_rating (at_heap s ?seed)) \<le> ?window t"
    if "a \<in> set (rp_players rp)" "config_ok (at_config s)" "?now \<le> t"
      "(t - p_join_timestamp (at_heap s ?seed)) div 1000000 < 2 ^ 64" for a t
    using near [OF that(1)] relaxation_window_mono [OF that(2) millis_since_mono [OF that(3,4)]] by (rule order_trans)
  from rp have "match_of (\<lambda>a. the (p_matched_at (at_heap s a))) (at_heap s) (rp_players rp) (rp_match rp)"
    unfolding report_ok_def match_time_def [abs_def] by blast
  moreover have "distinct (rp_players rp)" "length (rp_players rp) = 10"
    "\<forall>a \<in> set (rp_players rp). p_state (at_heap s a) = MATCHED \<and> p_matched_at (at_heap s a) = Some (the (p_matched_at (at_heap s a)))"
    using rp by (auto simp: report_ok_def MATCH_SIZE_def)
  ultimately show "let as = rp_players rp; seed = wn_seed (rp_window rp); now = wn_now (rp_window rp);
           rating = (\<lambda>a. p_skill_rating (at_heap s a)); matched_at = (\<lambda>a. the (p_matched_at (at_heap s a)));
           window = (\<lambda>t. relaxation_window t (p_join_timestamp (at_heap s seed)) (at_config s))
       in seed < at_next s \<and> distinct as \<and> length as = 10 \<and>
          (\<forall>a \<in> set as. p_state (at_heap s a) = MATCHED \<and> p_matched_at (at_heap s a) = Some (matched_at a) \<and>
             abs_diff (rating a) (rating seed) \<le> window now \<and>
             (config_ok (at_config s) \<and> now \<le> matched_at a \<and>
                (matched_at a - p_join_timestamp (at_heap s seed)) div 1000000 < 2 ^ 64 \<longrightarrow>
              abs_diff (rating a) (rating seed) \<le> window (matched_at a))) \<and>
          match_of matched_at (at_heap s) as (rp_match rp)"
    using seed near later unfolding Let_def by blast
qed

text \<open>
  The demonstration run: the first ten of eleven, for seed 0 at instant 0, where the window is 50, and
  marked from instant 100 on; the delta is 0.
\<close>

theorem published_matches_are_fair_witness:
  "\<exists>rp \<in> set (at_reports demo_done). rp_players rp = [0..<10] \<and> wn_seed (rp_window rp) = 0 \<and>
     (\<forall>a < 10. abs_diff (p_skill_rating (at_heap demo_done a)) (p_skill_rating (at_heap demo_done 0)) \<le>
        relaxation_window (100 + a) (p_join_timestamp (at_heap demo_done 0)) default_config) \<and>
     match_of (\<lambda>a. the (p_matched_at (at_heap demo_done a))) (at_heap demo_done) [0..<10] (rp_match rp)"
proof -
  note fair = published_matches_are_fair [OF orderly_timely [OF demo_done_reach]]
  from fair have "map rp_players (at_reports demo_done) = [[0..<10]]" using demo_done_fields(2) by (simp only:)
  then obtain rp where rp: "rp \<in> set (at_reports demo_done)" "rp_players rp = [0..<10]" by (auto simp del: upt_rec_numeral)
  have window: "wn_seed (rp_window rp) = 0" "wn_now (rp_window rp) = 0" using demo_done_window [OF rp(1)] by simp_all
  have times: "the (p_matched_at (at_heap demo_done a)) = 100 + a" "p_join_timestamp (at_heap demo_done a) = a" if "a < 10" for a
    using demo_done_times [OF that] by simp_all
  from fair rp(1) have all: "\<forall>a \<in> set (rp_players rp). config_ok (at_config demo_done) \<and>
      wn_now (rp_window rp) \<le> the (p_matched_at (at_heap demo_done a)) \<and>
      (the (p_matched_at (at_heap demo_done a)) - p_join_timestamp (at_heap demo_done (wn_seed (rp_window rp)))) div 1000000 < 2 ^ 64 \<longrightarrow>
      abs_diff (p_skill_rating (at_heap demo_done a)) (p_skill_rating (at_heap demo_done (wn_seed (rp_window rp)))) \<le>
        relaxation_window (the (p_matched_at (at_heap demo_done a)))
          (p_join_timestamp (at_heap demo_done (wn_seed (rp_window rp)))) (at_config demo_done)"
    unfolding Let_def by blast
  have "abs_diff (p_skill_rating (at_heap demo_done a)) (p_skill_rating (at_heap demo_done 0)) \<le>
        relaxation_window (100 + a) (p_join_timestamp (at_heap demo_done 0)) default_config" if "a < 10" for a
  proof -
    have "a \<in> set (rp_players rp)" unfolding rp(2) using that by simp
    from bspec [OF all this] show ?thesis
      unfolding window times(1) [OF that] demo_done_config times(2) [of 0, simplified] using default_config_ok that by simp
  qed
  moreover from fair rp(1) have "match_of (\<lambda>a. the (p_matched_at (at_heap demo_done a))) (at_heap demo_done) (rp_players rp) (rp_match rp)"
    unfolding Let_def by blast
  ultimately show ?thesis using rp window(1) by metis
qed



section \<open>Joining again\<close>

text \<open>
  C20: A queued player who cancels and joins again can be hidden.  From any state of the service in
  which he is queued and no scan is under way, the two requests can interleave so that both succeed and he waits in the
  primary store under his identifier, with nothing about him left to do; but he is not in the
  index, and whatever happens later he is in no match.  No worker is late in this run.
\<close>

theorem rejoining_player_can_be_hidden:
  assumes "reach node_init (timely_step T) s" and "at_primary s (at_id s a) = Some a"
    and "is_waiting (at_heap s a)" and "p_skill_rating (at_heap s a) \<le> MAX_SKILL_RATING" and "index_unlocked s"
  shows "\<exists>b t. (timely_step T)\<^sup>*\<^sup>* s t \<and> b \<noteq> a \<and> at_key t b = at_key s a \<and> is_waiting (at_heap t b) \<and>
    at_primary t (at_id t b) = Some b \<and> at_enqueue t b = E_done \<and> at_cancel t a = C_done \<and>
    b \<notin> ran (at_index t) \<and> \<not> (\<exists>u. (node_step T)\<^sup>*\<^sup>* t u \<and> b \<in> set (concat (at_matches u)))"
proof (intro exI conjI)
  have node: "node_ok T s" by (rule timely_service.reachable_inv [OF assms(1)])
  then have timely: "timely T s" by (simp add: node_ok_def clocks_ok_def)
  from maps_okD(1) [OF node_okD(4) [OF node] assms(2)] have a: "a < at_next s" "at_enqueue s a \<noteq> E_primary" by simp_all
  let ?t = "race_end 0 a s"
  show "(timely_step T)\<^sup>*\<^sup>* s ?t" by (rule race_run [OF timely a(1) assms(3) a(2) assms(2,4,5)])
  have hidden: "hidden (at_next s) ?t" by (rule race_end_hidden [OF node a(1)])
  then show "at_next s \<notin> ran (at_index ?t)" by (simp add: hidden_def)
  show "\<not> (\<exists>u. (node_step T)\<^sup>*\<^sup>* ?t u \<and> at_next s \<in> set (concat (at_matches u)))"
    using hidden_forever [OF _ hidden] by (auto simp: hidden_def)
  show "at_next s \<noteq> a" using a(1) by simp
qed (simp_all add: race_end_def removal_finished_def rejoined_def joined_state_def removed_half_def player_new_def is_waiting_def)

theorem rejoining_player_can_be_hidden_witness:
  "\<exists>b t. (timely_step 500)\<^sup>*\<^sup>* (demo_node 11) t \<and> b \<noteq> 0 \<and> is_waiting (at_heap t b) \<and>
     \<not> (\<exists>u. (node_step 500)\<^sup>*\<^sup>* t u \<and> b \<in> set (concat (at_matches u)))"
proof -
  have heap: "at_heap (demo_node 11) 0 = player_new 0 0 1000" using demo_node_heap [of 0 11] by simp
  have "at_primary (demo_node 11) 0 = Some 0" using demo_node_maps(1) [of 11 0] by simp
  with rejoining_player_can_be_hidden [OF orderly_timely [OF demo_node_reach], of 11 0 500] show ?thesis
    by (simp add: heap player_new_def is_waiting_def MAX_SKILL_RATING_def index_unlocked_def demo_node_fields del: demo_node.simps One_nat_def) blast
qed

section \<open>What the service promises\<close>

text \<open>Only an eviction, a new player and a published match show.\<close>

lemma matching_of_gauge: "matching_of (sys_of s g) = matching_of (sys_of s 0)"
  by (simp add: matching_of_def)

lemma timely_matching:
  assumes "node_ok T s" and "timely_step T s t"
  shows "matching_step\<^sup>=\<^sup>= (matching_of (sys_of s 0)) (matching_of (sys_of t 0))"
proof -
  note ok = node_okD [OF assms(1)]
  from assms(2) consider (task) "task_step T s t" | (pool) "pool_step s t"
    by (auto simp: timely_step_def node_step_def)
  then show ?thesis
  proof cases
    case task
    from task_simulated [OF task ok(1,2,3,4,6)] obtain g where "conc_step\<^sup>=\<^sup>= (sys_of s 0) (sys_of t g)"
      by (auto simp: simulated_def)
    then have "matching_step\<^sup>=\<^sup>= (matching_of (sys_of s 0)) (matching_of (sys_of t g))"
      using matching_simulation [of "sys_of s 0" "sys_of t g"] ok(1) [of 0] by auto
    then show ?thesis by (simp only: matching_of_gauge [of t g])
  next
    case pool
    have "matching_of (sys_of t 0) = matching_of (sys_of s 0)"
      using pool by (induction rule: pool_step.induct) (simp_all add: matching_of_def)
    then show ?thesis by simp
  qed
qed

text \<open>
  C6: The service implements the abstract one.  As long as no live worker is late, what has happened to
  the players from one state to a later one is a sequence of joins of new players, cancellations of
  queued ones, and matches of ten different queued ones, each effective at one instant: whatever
  the interleaving, whoever dies where, and whatever the identifiers.
\<close>

theorem timely_service_implements_matching:
  assumes "reach node_init (timely_step T) s" and "(timely_step T)\<^sup>*\<^sup>* s t"
  shows "matching_step\<^sup>*\<^sup>* (matching_of (sys_of s 0)) (matching_of (sys_of t 0))"
  using assms(2)
proof induction
  case (step t u)
  have "node_ok T t" by (rule timely_service.reachable_inv [OF reach_steps [OF step(1) assms(1)]])
  from timely_matching [OF this step(2)] step(3) show ?case by (auto intro: rtranclp.rtrancl_into_rtrancl)
qed simp

theorem timely_service_implements_matching_witness:
  "\<exists>g. matching_step\<^sup>*\<^sup>* \<lparr>mg_queued = {..<11}, mg_cancelled = {}, mg_matches = []\<rparr> g \<and> mg_matches g = [[0..<10]]"
proof -
  have "matching_of (sys_of (demo_node 11) 0) = \<lparr>mg_queued = {..<11}, mg_cancelled = {}, mg_matches = []\<rparr>"
    using demo_node_heap [of _ 11]
    by (auto simp: matching_of_def demo_node_fields player_new_def simp del: demo_node.simps)
  moreover have "mg_matches (matching_of (sys_of demo_done 0)) = [[0..<10]]"
    by (simp add: matching_of_def demo_done_fields del: upt_rec_numeral)
  ultimately show ?thesis
    using timely_service_implements_matching [OF orderly_timely [OF demo_node_reach] demo_done_run] by auto
qed

end
