(* ===== verification/Atomic_Sequential.thy ===== *)
theory Atomic_Sequential
  imports Atomic_Demo Atomic_Races Queue_Spec
begin

text \<open>
  The whole operations of theories Matcher and Engine and the accesses of theory Atomic model the
  same code.  Here the two readings are compared: every sequence of whole operations is a run of
  the service in which the tasks happen to take turns, and leaves the same players, maps,
  counters and history.
\<close>

section \<open>The same state\<close>

definition agrees :: "'m dash \<Rightarrow> 'm core \<Rightarrow> service \<Rightarrow> bool" where
  "agrees D core s \<longleftrightarrow>
     at_config s = co_config core \<and> at_heap s = sh_heap (co_shared core) \<and> at_next s = co_next core \<and>
     at_primary s = pool_map D (sh_pool (co_shared core)) \<and> at_index s = map_of (pl_index (sh_pool (co_shared core))) \<and>
     at_metrics s = sh_metrics (co_shared core) \<and> at_history s = sh_history (co_shared core) \<and>
     (\<forall>w. at_work s w = W_idle) \<and> (\<forall>a. at_enqueue s a \<in> {E_none, E_done} \<and> at_cancel s a \<in> {C_none, C_done})"

lemma agreesD:
  assumes "agrees D core s"
  shows "at_config s = co_config core" and "at_heap s = sh_heap (co_shared core)" and "at_next s = co_next core"
    and "at_primary s = pool_map D (sh_pool (co_shared core))" and "at_index s = map_of (pl_index (sh_pool (co_shared core)))"
    and "at_metrics s = sh_metrics (co_shared core)" and "at_history s = sh_history (co_shared core)"
    and "at_work s w = W_idle" and "at_enqueue s a \<noteq> E_primary"
    and "timely T s" and "index_unlocked s"
proof -
  show "at_enqueue s a \<noteq> E_primary" using assms by (simp add: agrees_def) (metis enqueue_point.distinct)
  show "timely T s" "index_unlocked s" using assms by (simp_all add: agrees_def timely_def index_unlocked_def)
qed (use assms in \<open>simp_all add: agrees_def\<close>)

section \<open>Enqueue and cancel\<close>

lemma enqueue_is_run:
  assumes D: "dashmap D" and ok: "core_ok D core" and agree: "agrees D core s"
  shows "\<exists>t. (timely_step T)\<^sup>*\<^sup>* s t \<and> agrees D (snd (enqueue D now i r core)) t \<and> at_clock t = at_clock s"
proof (cases "r \<le> MAX_SKILL_RATING \<and> \<not> pool_contains D i (sh_pool (co_shared core))")
  case True
  note same = agreesD [OF agree]
  have new: "at_primary s i = None" using True by (simp add: same pool_contains_def pool_map_def)
  have run: "(timely_step T)\<^sup>*\<^sup>* s (joined_state now i r s)"
    by (rule join_run [OF same(10) new _ same(11)]) (use True in simp)
  let ?sh = "co_shared core" and ?a = "co_next core"
  let ?h = "(sh_heap ?sh)(?a := player_new now i r)"
  have out: "snd (enqueue D now i r core) = core\<lparr>co_shared := ?sh\<lparr>sh_heap := ?h, sh_pool := pool_insert D ?h ?a (sh_pool ?sh),
      sh_metrics := count_enqueued (sh_metrics ?sh)\<rparr>, co_next := Suc ?a, co_notifications := Suc (co_notifications core)\<rparr>"
    using True by (simp add: enqueue_def Let_def linorder_not_less [symmetric])
  have "map_of (pl_index (pool_insert D ?h ?a (sh_pool ?sh))) = (map_of (pl_index (sh_pool ?sh)))((r, i) \<mapsto> ?a)"
    using core_okD(1) [OF ok, THEN pool_okD(1)] by (simp add: pool_insert_def map_of_bt_insert index_key_def)
  with agree have "agrees D (snd (enqueue D now i r core)) (joined_state now i r s)"
    unfolding agrees_def out by (simp add: pool_map_insert [OF D] joined_state_def count_enqueued_def)
  with run show ?thesis by (auto simp: joined_state_def)
next
  case False
  then have "snd (enqueue D now i r core) = core" by (auto simp: enqueue_def)
  with agree show ?thesis by auto
qed

lemma cancel_is_run:
  assumes D: "dashmap D" and ok: "core_ok D core" and agree: "agrees D core s"
  shows "\<exists>t. (timely_step T)\<^sup>*\<^sup>* s t \<and> agrees D (snd (cancel D i core)) t \<and> at_clock t = at_clock s"
proof (cases "pool_map D (sh_pool (co_shared core)) i")
  case None
  then have "snd (cancel D i core) = core" by (simp add: cancel_def Let_def pool_get_def flip: pool_map_def)
  with agree show ?thesis by auto
next
  case (Some a)
  note same = agreesD [OF agree] and pok = core_okD(1) [OF ok]
  have a: "a \<in> members D (sh_pool (co_shared core))" using Some by (auto simp: members_def ran_def)
  have id: "at_id s a = i" using pool_okD(2) [OF pok Some] by (simp add: same)
  have wait: "is_waiting (at_heap s a)" using core_okD(3) [OF ok a] by (simp add: same)
  have "at_primary s (at_id s a) = Some a" using Some by (simp add: same id [unfolded same])
  then have r1: "(timely_step T)\<^sup>*\<^sup>* s (removed_half a s)"
    using core_okD(2) [OF ok a] wait by (intro remove_half_run) (simp_all add: same)
  have half: "timely T (removed_half a s)" "index_unlocked (removed_half a s)"
    using same(10,11) by (simp_all add: removed_half_def timely_def index_unlocked_def)
  then have r2: "(timely_step T)\<^sup>*\<^sup>* (removed_half a s) (removal_finished a a (removed_half a s))"
    by (intro finish_removal_run) (simp_all add: removed_half_def)
  let ?sh = "co_shared core"
  let ?h = "(sh_heap ?sh)(a := evicted (sh_heap ?sh a))"
  let ?pl = "snd (pool_remove D ?h i (sh_pool ?sh))"
  have waiting: "p_state (sh_heap ?sh a) = WAITING" using wait by (simp add: same is_waiting_def)
  have out: "snd (cancel D i core) = core\<lparr>co_shared := ?sh\<lparr>sh_heap := ?h, sh_pool := ?pl,
      sh_metrics := count_cancelled (sh_metrics ?sh)\<rparr>\<rparr>"
    using Some waiting by (simp add: cancel_def Let_def pool_get_def try_evict_step flip: pool_map_def)
  have "index_key ?h a = index_key (sh_heap ?sh) a" by (simp add: index_key_def)
  then have index: "map_of (pl_index ?pl) = (map_of (pl_index (sh_pool ?sh)))(index_key (sh_heap ?sh) a := None)"
    using Some pool_okD(1) [OF pok] by (simp add: pool_remove_def map_of_bt_remove flip: pool_map_def del: fun_upd_apply)
  have "p_id (sh_heap ?sh a) = i" using id by (simp add: same)
  with agree have "agrees D (snd (cancel D i core)) (removal_finished a a (removed_half a s))"
    unfolding agrees_def out
    by (simp add: index pool_map_remove [OF D] removal_finished_def removed_half_def count_cancelled_def index_key_def)
  with rtranclp_trans [OF r1 r2] show ?thesis by (auto simp: removal_finished_def removed_half_def)
qed

section \<open>An attempt\<close>

text \<open>The scan of the index, read off the list that represents the ordered map.\<close>

lemma index_range_list:
  assumes "bt_ok m"
  shows "index_range (map_of m) window = map snd (filter (\<lambda>(k, _).
    (min (fst window) MAX_SKILL_RATING, 0) \<le> k \<and> k \<le> (min (snd window) MAX_SKILL_RATING, uuid_max)) m)"
proof -
  let ?P = "\<lambda>k. (min (fst window) MAX_SKILL_RATING, 0) \<le> k \<and> k \<le> (min (snd window) MAX_SKILL_RATING, uuid_max)"
  let ?m = "filter (\<lambda>(k, _). ?P k) m"
  have ok: "bt_ok ?m" using assms by (rule bt_ok_filter)
  have "{k \<in> dom (map_of m). ?P k} = set (map fst ?m)" by (auto simp: dom_map_of_conv_image_fst)
  moreover have "sorted (map fst ?m)" "distinct (map fst ?m)"
    using ok by (simp_all add: bt_ok_def strict_sorted_iff)
  ultimately have keys: "sorted_list_of_set {k \<in> dom (map_of m). ?P k} = map fst ?m"
    by (simp only: sorted_list_of_set.idem_if_sorted_distinct)
  have "map_of m k = Some v" if "(k, v) \<in> set ?m" for k v
    using that bt_ok_distinct [OF assms] by (auto intro: map_of_is_SomeI)
  then have "the (map_of m (fst e)) = snd e" if "e \<in> set ?m" for e using that by (cases e) fastforce
  then have "map (the \<circ> map_of m) (map fst ?m) = map snd ?m" unfolding map_map comp_def by (intro map_cong) simp_all
  then show ?thesis unfolding index_range_def keys .
qed

lemma scan_hits_eligible:
  assumes "pool_ok D h pl" and "at_heap s = h" and "at_index s = map_of (pl_index pl)"
    and "lo \<le> hi" and "hi \<le> MAX_SKILL_RATING" and "wn_bounds window = (lo, hi)"
  shows "scan_hits window s = take MAX_CANDIDATES_PER_SCAN (eligible_list h lo hi pl)"
proof -
  have "min lo MAX_SKILL_RATING = lo" "min hi MAX_SKILL_RATING = hi" using assms(4,5) by (auto simp: min_def)
  moreover have "((lo, 0) \<le> k \<and> k \<le> (hi, uuid_max)) = (lo \<le> p_skill_rating (h a) \<and> p_skill_rating (h a) \<le> hi)"
    if "(k, a) \<in> set (pl_index pl)" for k a
    using that index_entries [OF assms(1)] by (auto simp: index_key_def less_eq_prod_def uuid_max_def less_le_not_le)
  then have "filter (\<lambda>(k, _). (lo, 0) \<le> k \<and> k \<le> (hi, uuid_max)) (pl_index pl) =
      filter (\<lambda>(k, a). lo \<le> p_skill_rating (h a) \<and> p_skill_rating (h a) \<le> hi) (pl_index pl)"
    by (intro filter_cong) auto
  ultimately show ?thesis
    by (simp add: scan_hits_def assms(2,3,6) index_range_list [OF pool_okD(1) [OF assms(1)]] eligible_list_def
        filter_map comp_def case_prod_unfold conj_ac)
qed

lemma remove_all_maps:
  assumes D: "dashmap D" and ok: "pool_ok D h pl" and as: "distinct as" "set as \<subseteq> members D pl"
  shows "pool_map D (remove_all D h as pl) = pool_map D pl |` (- ((\<lambda>a. p_id (h a)) ` set as))"
    and "map_of (pl_index (remove_all D h as pl)) = map_of (pl_index pl) |` (- (index_key h ` set as))"
proof -
  from remove_all_ok [OF D ok as] have ok': "pool_ok D h (remove_all D h as pl)"
    and members: "members D (remove_all D h as pl) = members D pl - set as" by simp_all
  show map: "pool_map D (remove_all D h as pl) = pool_map D pl |` (- ((\<lambda>a. p_id (h a)) ` set as))"
    using pool_map_members [OF ok ok' members] as(2) by (simp add: Int_absorb2)
  show "map_of (pl_index (remove_all D h as pl)) = map_of (pl_index pl) |` (- (index_key h ` set as))"
  proof
    fix k
    have "map_of (pl_index (remove_all D h as pl)) k = Some a \<longleftrightarrow> (map_of (pl_index pl) |` (- (index_key h ` set as))) k = Some a" for a
    proof (cases "map_of (pl_index pl) k = Some a")
      case True
      then have a: "pool_map D pl (snd k) = Some a" "fst k = p_skill_rating (h a)" using pool_okD(4) [OF ok] by blast+
      then have k: "k = index_key h a" and mem: "a \<in> members D pl"
        using pool_okD(2) [OF ok a(1)] by (auto simp: index_key_def members_def ran_def prod_eq_iff)
      have "snd k \<in> (\<lambda>a. p_id (h a)) ` set as \<longleftrightarrow> a \<in> set as"
        using inj_on_image_mem_iff [OF inj_on_members [OF ok] mem as(2)] by (simp add: k index_key_def)
      moreover have "k \<in> index_key h ` set as \<longleftrightarrow> a \<in> set as"
        using inj_on_members [OF ok] mem as(2) by (auto simp: k index_key_def dest: inj_onD)
      ultimately show ?thesis using a True by (simp add: pool_okD(4) [OF ok'] map restrict_map_def)
    next
      case False
      then show ?thesis
        using pool_okD(4) [OF ok, of k a] by (auto simp: pool_okD(4) [OF ok'] map restrict_map_def split: if_splits)
    qed
    then show "map_of (pl_index (remove_all D h as pl)) k = (map_of (pl_index pl) |` (- (index_key h ` set as))) k"
      by (metis not_None_eq)
  qed
qed

text \<open>The state an attempt that forms a match leaves, in both readings.\<close>

definition matched_shared :: "'m dash \<Rightarrow> readings \<Rightarrow> u64 \<Rightarrow> addr list \<Rightarrow> addr balance_result \<Rightarrow> 'm shared \<Rightarrow> 'm shared" where
  "matched_shared D rd w as r sh =
     (let h = update_on (set as) (\<lambda>a. mark_matched (rd_matched_now rd a))
                (update_on (set as) (\<lambda>_. claimed_by w (rd_unix_ms rd)) (sh_heap sh));
          m = build_match rd h as r
      in \<lparr>sh_heap = h, sh_pool = remove_all D h as (sh_pool sh),
          sh_metrics = update_metrics_on_success m (wait_times rd h as) (m_skill_spread m) (count_cycle (sh_metrics sh)),
          sh_history = push_history MATCH_HISTORY_LIMIT m (sh_history sh)\<rparr>)"

lemma finish_formed:
  assumes "distinct as" and "exhaustive_balance (\<lambda>a. p_skill_rating (sh_heap sh a)) as = Some r"
    and "wc_match_history_limit ctx = MATCH_HISTORY_LIMIT"
  shows "finish D ctx rd as (after_claim ctx rd as sh) st =
    Some (Success (build_match rd (sh_heap (matched_shared D rd (wc_worker_id ctx) as r sh)) as r),
      matched_shared D rd (wc_worker_id ctx) as r sh, reset st)"
proof -
  have "exhaustive_balance (\<lambda>a. p_skill_rating (sh_heap (after_claim ctx rd as sh) a)) as = Some r"
    using assms(2) by (simp only: after_claim_simps update_on_keeps)
  then show ?thesis
    unfolding finish_def after_claim_def by (cases sh) (simp add: mark_all_eq [OF assms(1)] matched_shared_def assms(3) Let_def del: update_on_apply)
qed

lemma attempt_outcome:
  assumes D: "dashmap D" and ok: "pool_ok D (sh_heap sh) (sh_pool sh)"
    and seed: "select_seed D ctx rd sh st = Some seed"
    and cs: "range_scan D (sh_heap sh) {} (fst (seed_bounds ctx rd (sh_heap sh seed)))
        (snd (seed_bounds ctx rd (sh_heap sh seed))) (sh_pool sh) = Some cs"
    and hits: "distinct cs" "set cs \<subseteq> in_window D ctx rd sh seed"
    and limit: "wc_match_history_limit ctx = MATCH_HISTORY_LIMIT"
  obtains (short) "length cs < MATCH_SIZE"
      and "attempt_match D ctx rd sh st = Some (insufficient ctx rd seed (length cs) sh st)"
    | (formed) r where "MATCH_SIZE \<le> length cs"
      and "exhaustive_balance (\<lambda>a. p_skill_rating (sh_heap sh a)) (take MATCH_SIZE cs) = Some r"
      and "attempt_match D ctx rd sh st =
        (let sh' = matched_shared D rd (wc_worker_id ctx) (take MATCH_SIZE cs) r sh
         in Some (Success (build_match rd (sh_heap sh') (take MATCH_SIZE cs) r), sh', reset st))"
proof -
  have rating: "p_skill_rating (sh_heap sh a) \<le> MAX_SKILL_RATING" if "a \<in> members D (sh_pool sh)" for a
    by (rule members_rating [OF ok that])
  let ?b = "seed_bounds ctx rd (sh_heap sh seed)"
  have bounds: "fst ?b \<le> snd ?b" "snd ?b \<le> MAX_SKILL_RATING"
    using rating [OF select_seed_Some(1) [OF D seed]] by (simp_all add: seed_bounds_def scan_bounds_ordered scan_bounds_contain)
  have scan: "range_scan D (sh_heap sh) held (fst ?b) (snd ?b) (sh_pool sh) = Some cs" for held
    using cs by (simp add: range_scan_eq [OF D ok bounds])
  have "\<forall>a \<in> set cs. is_waiting (sh_heap sh a)" using hits(2) in_window_waiting by blast
  note attempt = attempt_match_seed [OF seed scan hits(1) this]
  show ?thesis
  proof (cases "length cs < MATCH_SIZE")
    case True
    with attempt show ?thesis by (intro short) simp_all
  next
    case False
    let ?as = "take MATCH_SIZE cs"
    have as: "distinct ?as" "length ?as = 10" using hits(1) False by (simp_all add: MATCH_SIZE_def)
    have "p_skill_rating (sh_heap sh a) \<le> MAX_SKILL_RATING" if "a \<in> set ?as" for a
      using that hits(2) in_window_members rating by (blast dest: in_set_takeD)
    then have "\<forall>a \<in> set ?as. unat (p_skill_rating (sh_heap sh a)) \<le> 3000" by (simp add: word_le_nat_alt MAX_SKILL_RATING_def)
    then obtain r where r: "exhaustive_balance (\<lambda>a. p_skill_rating (sh_heap sh a)) ?as = Some r"
      using exhaustive_balance_correct [OF as(2)] by metis
    then show ?thesis using False attempt
      by (intro formed) (simp_all add: finish_formed [OF as(1) r limit] Let_def)
  qed
qed

lemma matched_agrees:
  assumes D: "dashmap D" and ok: "pool_ok D (sh_heap (co_shared core)) (sh_pool (co_shared core))"
    and as: "distinct as" "set as \<subseteq> members D (sh_pool (co_shared core))"
    and agree: "agrees D core s" and clock: "at_clock s = rd_unix_ms rd"
  shows "agrees D (core\<lparr>co_shared := matched_shared D rd w as r (co_shared core)\<rparr>)
    (matched_state w rd as r (s\<lparr>at_window := b, at_metrics := count_cycle (at_metrics s), at_work := (at_work s)(w := p)\<rparr>))"
proof -
  let ?sh = "co_shared core"
  let ?h = "update_on (set as) (\<lambda>a. mark_matched (rd_matched_now rd a))
    (update_on (set as) (\<lambda>_. claimed_by w (rd_unix_ms rd)) (sh_heap ?sh))"
  have keys: "(\<lambda>a. p_id (?h a)) = (\<lambda>a. p_id (sh_heap ?sh a))" "index_key ?h = index_key (sh_heap ?sh)"
    by (simp_all add: update_on_keeps index_key_def fun_eq_iff del: update_on_apply)
  have "pool_ok D ?h (sh_pool ?sh)"
    using ok pool_ok_heap_cong [of D "sh_pool ?sh" ?h "sh_heap ?sh"] by (simp add: update_on_keeps del: update_on_apply)
  note maps = remove_all_maps [OF D this as, unfolded keys]
  show ?thesis using agree
    by (simp add: agrees_def matched_state_def matched_shared_def make_report_def Let_def clock maps index_key_def del: update_on_apply)
qed

text \<open>Once the worker has its candidates.\<close>

lemma formed_is_run:
  fixes b
  defines "q w cs s \<equiv> s\<lparr>at_window := b, at_metrics := count_cycle (at_metrics s), at_work := (at_work s)(w := W_found cs)\<rparr>"
  assumes D: "dashmap D" and ok: "core_ok D core" and agree: "agrees D core s" and clock: "at_clock s = rd_unix_ms rd"
    and cs: "distinct cs" "set cs \<subseteq> members D (sh_pool (co_shared core))" and enough: "MATCH_SIZE \<le> length cs"
    and r: "exhaustive_balance (\<lambda>a. p_skill_rating (sh_heap (co_shared core) a)) (take MATCH_SIZE cs) = Some r"
    and time: "timely T (q w cs s)"
  shows "(timely_step T)\<^sup>*\<^sup>* (q w cs s) (matched_state w rd (take MATCH_SIZE cs) r (q w cs s))"
    and "agrees D (core\<lparr>co_shared := matched_shared D rd w (take MATCH_SIZE cs) r (co_shared core)\<rparr>)
      (matched_state w rd (take MATCH_SIZE cs) r (q w cs s))"
proof -
  note same = agreesD [OF agree] and pok = core_okD(1) [OF ok]
  have mem: "set (take MATCH_SIZE cs) \<subseteq> members D (sh_pool (co_shared core))" using cs(2) by (blast dest: in_set_takeD)
  have waiting: "filter (\<lambda>a. is_waiting (at_heap (q w cs s) a)) cs = cs"
    using cs(2) core_okD(3) [OF ok] by (auto simp: q_def same(2) filter_id_conv)
  show "(timely_step T)\<^sup>*\<^sup>* (q w cs s) (matched_state w rd (take MATCH_SIZE cs) r (q w cs s))"
  proof (rule found_run [OF time])
    show "\<forall>a \<in> set (take MATCH_SIZE cs). at_primary (q w cs s) (at_id (q w cs s) a) = Some a"
      using mem members_iff [OF pok] by (auto simp: q_def same(2,4))
    show "exhaustive_balance (\<lambda>a. p_skill_rating (at_heap (q w cs s) a)) (take MATCH_SIZE cs) = Some r"
      using r by (simp add: q_def same(2))
    show "take MATCH_SIZE cs = take MATCH_SIZE (filter (\<lambda>a. is_waiting (at_heap (q w cs s) a)) cs)" unfolding waiting ..
  qed (use cs(1) enough same(8) in \<open>simp_all add: q_def\<close>)
  show "agrees D (core\<lparr>co_shared := matched_shared D rd w (take MATCH_SIZE cs) r (co_shared core)\<rparr>)
      (matched_state w rd (take MATCH_SIZE cs) r (q w cs s))"
    unfolding q_def by (rule matched_agrees [OF D pok distinct_take [OF cs(1)] mem agree clock])
qed

lemma attempt_is_run:
  assumes D: "dashmap D" and ok: "core_ok D core" and agree: "agrees D core s" and clock: "at_clock s \<le> rd_unix_ms rd"
    and res: "attempt_match D (make_worker_context w core) rd (co_shared core) st = Some (r, sh', st')"
  shows "\<exists>t. (timely_step T)\<^sup>*\<^sup>* s t \<and> agrees D (core\<lparr>co_shared := sh'\<rparr>) t \<and> at_clock t = rd_unix_ms rd"
proof -
  let ?ctx = "make_worker_context w core" and ?sh = "co_shared core" and ?q = "s\<lparr>at_clock := rd_unix_ms rd\<rparr>"
  note pok = core_okD(1) [OF ok]
  have q: "agrees D core ?q" using agree by (simp add: agrees_def)
  note same = agreesD [OF q]
  have tick: "(timely_step T)\<^sup>*\<^sup>* s ?q" by (rule task_run [OF t_tick [OF clock] same(10)]) simp
  show ?thesis
  proof (cases "select_seed D ?ctx rd ?sh st")
    case None
    from attempt_match_empty [OF this] res have "sh' = ?sh" by simp
    with tick q show ?thesis by (intro exI [of _ ?q]) simp
  next
    case (Some j)
    note seed = select_seed_Some [OF D Some]
    have limit: "wc_match_history_limit ?ctx = MATCH_HISTORY_LIMIT" by (simp add: make_worker_context_def)
    let ?b = "seed_bounds ?ctx rd (sh_heap ?sh j)"
    let ?w = "\<lparr>wn_bounds = ?b, wn_seed = j, wn_now = rd_scan_now rd\<rparr>"
    let ?found = "\<lambda>p. ?q\<lparr>at_window := (at_window s)(w := ?w), at_metrics := count_cycle (at_metrics s), at_work := (at_work s)(w := p)\<rparr>"
    have window: "window_at (rd_scan_now rd) j ?q = ?w" by (simp only: same seed_bounds_def make_worker_context_def worker_context.simps)
    have ran: "j \<in> ran (at_primary ?q)" using seed(1) by (simp only: same members_def)
    have wait: "is_waiting (at_heap ?q j)" using seed(2) by (simp only: same)
    have bounds: "fst ?b \<le> snd ?b" "snd ?b \<le> MAX_SKILL_RATING"
      using members_rating [OF pok seed(1)] by (simp_all add: seed_bounds_def scan_bounds_ordered scan_bounds_contain)
    have hits: "scan_hits ?w ?q = take MAX_CANDIDATES_PER_SCAN (eligible_list (sh_heap ?sh) (fst ?b) (snd ?b) (sh_pool ?sh))"
      using scan_hits_eligible [OF pok same(2,5) bounds, of ?w] by simp
    let ?cs = "sort_key (join_key (sh_heap ?sh)) (scan_hits ?w ?q)"
    have scan: "range_scan D (sh_heap ?sh) {} (fst ?b) (snd ?b) (sh_pool ?sh) = Some ?cs"
      by (simp only: range_scan_eq [OF D pok bounds] hits)
    have cs: "distinct ?cs" "set ?cs \<subseteq> in_window D ?ctx rd ?sh j"
      using eligible_list_distinct [OF pok] set_take_subset [of MAX_CANDIDATES_PER_SCAN]
      by (fastforce simp: hits in_window_def set_eligible_list [OF pok, symmetric])+
    show ?thesis
    proof (rule attempt_outcome [OF D pok Some scan cs limit])
      assume few: "length ?cs < MATCH_SIZE"
        and "attempt_match D ?ctx rd ?sh st = Some (insufficient ?ctx rd j (length ?cs) ?sh st)"
      with res have sh': "sh' = ?sh\<lparr>sh_metrics := count_insufficient (count_cycle (sh_metrics ?sh))\<rparr>"
        by (simp add: insufficient_def Let_def)
      from few have few': "length (scan_hits (window_at (rd_scan_now rd) j ?q) ?q) < MATCH_SIZE" unfolding window by simp
      note run = short_run [OF same(10,8) ran wait few', where w = w, unfolded window]
      from q have "agrees D (core\<lparr>co_shared := sh'\<rparr>) (?q\<lparr>at_window := (at_window ?q)(w := ?w),
          at_metrics := count_insufficient (count_cycle (at_metrics ?q))\<rparr>)"
        by (simp add: agrees_def sh')
      with rtranclp_trans [OF tick run] show ?thesis by (intro exI conjI) (assumption, assumption, simp)
    next
      fix r'
      assume enough: "MATCH_SIZE \<le> length ?cs"
        and r: "exhaustive_balance (\<lambda>a. p_skill_rating (sh_heap ?sh a)) (take MATCH_SIZE ?cs) = Some r'"
        and attempt: "attempt_match D ?ctx rd ?sh st =
          (let sh' = matched_shared D rd (wc_worker_id ?ctx) (take MATCH_SIZE ?cs) r' ?sh
           in Some (Success (build_match rd (sh_heap sh') (take MATCH_SIZE ?cs) r'), sh', reset st))"
      let ?as = "take MATCH_SIZE ?cs" and ?s1 = "?found (W_found ?cs)"
      from enough have "MATCH_SIZE \<le> length (scan_hits (window_at (rd_scan_now rd) j ?q) ?q)" unfolding window by simp
      note scanned = scan_run [OF same(10,8) ran wait this, where w = w, unfolded window]
      have found: "(timely_step T)\<^sup>*\<^sup>* ?q ?s1" "timely T ?s1" using scanned by (simp_all add: agreesD(2) [OF agree])
      have mem: "set ?cs \<subseteq> members D (sh_pool ?sh)" using cs(2) in_window_members by blast
      note formed = formed_is_run [OF D ok q _ cs(1) mem enough r, where rd = rd and w = w and T = T and b = "(at_window s)(w := ?w)"]
      have "(timely_step T)\<^sup>*\<^sup>* ?s1 (matched_state w rd ?as r' ?s1)" using formed(1) found(2) by simp
      moreover have "sh' = matched_shared D rd w ?as r' ?sh"
        using attempt res by (simp add: make_worker_context_def Let_def)
      then have "agrees D (core\<lparr>co_shared := sh'\<rparr>) (matched_state w rd ?as r' ?s1)" using formed(2) found(2) by simp
      moreover have "at_clock (matched_state w rd ?as r' ?s1) = rd_unix_ms rd" by (simp add: matched_state_def Let_def)
      ultimately show ?thesis using rtranclp_trans [OF tick found(1)] by (meson rtranclp_trans)
    qed
  qed
qed

section \<open>Sequences of operations\<close>

text \<open>The clock of the attempts never goes back.\<close>

fun in_time :: "u64 \<Rightarrow> engine_op list \<Rightarrow> bool" where
  "in_time t [] = True"
| "in_time t (Op_attempt w rd st # xs) = (t \<le> rd_unix_ms rd \<and> in_time (rd_unix_ms rd) xs)"
| "in_time t (x # xs) = in_time t xs"

lemma op_is_run:
  assumes D: "dashmap D" and ok: "core_ok D core" and agree: "agrees D core s"
    and run: "run_op D x core = Some (e, core')" and clock: "in_time (at_clock s) (x # xs)"
  shows "\<exists>t. (timely_step T)\<^sup>*\<^sup>* s t \<and> agrees D core' t \<and> in_time (at_clock t) xs"
proof (cases x)
  case (Op_enqueue now i r)
  then have "core' = snd (enqueue D now i r core)" using run by (auto split: prod.splits sum.splits)
  with enqueue_is_run [OF D ok agree, of T now i r] clock Op_enqueue show ?thesis by auto
next
  case (Op_cancel i)
  then have "core' = snd (cancel D i core)" using run by (auto split: prod.splits sum.splits)
  with cancel_is_run [OF D ok agree, of T i] clock Op_cancel show ?thesis by auto
next
  case (Op_attempt w rd st)
  obtain r sh' st' where res: "attempt_match D (make_worker_context w core) rd (co_shared core) st = Some (r, sh', st')"
    and core': "core' = core\<lparr>co_shared := sh'\<rparr>"
    using run Op_attempt by (auto split: option.splits match_attempt_result.splits)
  have "at_clock s \<le> rd_unix_ms rd" using clock Op_attempt by simp
  from attempt_is_run [OF D ok agree this res, of T] clock show ?thesis by (auto simp: Op_attempt core')
qed

lemma engine_is_run:
  assumes D: "dashmap D"
  shows "core_ok D core \<Longrightarrow> agrees D core s \<Longrightarrow> in_time (at_clock s) xs \<Longrightarrow>
    \<exists>es core' t. run_engine D xs core = Some (es, core') \<and> (timely_step T)\<^sup>*\<^sup>* s t \<and> agrees D core' t \<and> core_ok D core'"
proof (induction xs arbitrary: core s)
  case Nil
  then show ?case by auto
next
  case (Cons x xs)
  obtain e core1 where run: "run_op D x core = Some (e, core1)" by (rule run_op_total [OF D Cons.prems(1)])
  from op_is_run [OF D Cons.prems(1,2) run Cons.prems(3), of T] obtain s1
    where s1: "(timely_step T)\<^sup>*\<^sup>* s s1" "agrees D core1 s1" "in_time (at_clock s1) xs" by blast
  have "core_ok D core1" using run_op_refines [OF D Cons.prems(1) run] by simp
  from Cons.IH [OF this s1(2,3)] run rtranclp_trans [OF s1(1)] show ?case by fastforce
qed

text \<open>
  C8: The two readings of the code agree.  Any sequence of enqueues, cancellations and match attempts of
  any workers, carried out one after the other by the sequential operations of the core, is a run of
  the interleaved service without a late worker, and at its end both have the same players, primary store,
  rating index, counters and match history.  The clock the attempts read must not go back.
\<close>

theorem whole_operations_are_runs:
  assumes "dashmap D" and "node_init s" and "in_time (at_clock s) xs"
  shows "\<exists>es core t. run_engine D xs (core_new D start (at_config s) metrics_new (at_heap s)) = Some (es, core) \<and>
    reach node_init (timely_step T) t \<and> (timely_step T)\<^sup>*\<^sup>* s t \<and>
    at_heap t = sh_heap (co_shared core) \<and> at_primary t = pool_map D (sh_pool (co_shared core)) \<and>
    at_index t = map_of (pl_index (sh_pool (co_shared core))) \<and> at_metrics t = sh_metrics (co_shared core) \<and>
    at_history t = sh_history (co_shared core) \<and> (\<forall>w. at_work t w = W_idle)"
proof -
  let ?core = "core_new D start (at_config s) metrics_new (at_heap s)"
  have "agrees D ?core s"
    using assms(2) dashmap_get_new [OF assms(1)] by (simp add: agrees_def node_init_def core_new_def pool_map_def pool_new_def fun_eq_iff)
  from engine_is_run [OF assms(1) core_ok_new [OF assms(1)] this assms(3), of T] obtain es core t
    where run: "run_engine D xs ?core = Some (es, core)" and t: "(timely_step T)\<^sup>*\<^sup>* s t" "agrees D core t" by blast
  have "reach node_init (timely_step T) t" by (rule reach_steps [OF t(1) reach_init]) (rule assms(2))
  with run t show ?thesis by (intro exI [of _ es] exI [of _ core] exI [of _ t]) (simp add: agrees_def)
qed

text \<open>Ten players join in turn, one leaves and joins again, and a worker matches them.\<close>

theorem whole_operations_are_runs_witness:
  "\<exists>es core t. run_engine dash_alist
       (map (\<lambda>n. Op_enqueue n (of_nat n) 1000) [0..<10] @ [Op_cancel 3, Op_enqueue 20 3 1000, Op_attempt 1 demo_readings worker_state_new])
       (core_new dash_alist 0 default_config metrics_new (\<lambda>a. player_new 0 0 0)) = Some (es, core) \<and>
     reach node_init (timely_step 500) t \<and> at_history t = sh_history (co_shared core)"
proof -
  let ?xs = "map (\<lambda>n. Op_enqueue n (of_nat n) 1000) [0..<10] @ [Op_cancel 3, Op_enqueue 20 3 1000, Op_attempt 1 demo_readings worker_state_new]"
  have "node_init (demo_node 0)" by (simp add: node_init_def)
  moreover have "in_time (at_clock (demo_node 0)) ?xs" by (simp add: upt_conv_Cons demo_readings_def)
  ultimately show ?thesis
    using whole_operations_are_runs [OF dashmap_dash_alist, of "demo_node 0" ?xs 0 500] by (simp del: upt_rec_numeral) blast
qed

end
