(* ===== verification/Atomic_Leak.thy ===== *)
theory Atomic_Leak
  imports Atomic_Demo Atomic_Races Atomic_Ledger
begin

text \<open>
  A second race of src/src/engine/bucket.rs: \<open>PlayerPool::insert\<close> files a player in the primary store
  and then in the index.  A cancellation between the two finds him, removes him, and deletes an
  index entry that is not there yet; the entry the insertion then adds belongs to nobody.  Nothing
  removes it, the Reaper included.
\<close>

section \<open>A cancellation during the enqueue\<close>

definition leaked :: "instant \<Rightarrow> uuid \<Rightarrow> u32 \<Rightarrow> service \<Rightarrow> service" where
  "leaked now i r s =
     (let a = at_next s
      in insert_finished a (removal_finished a a (removed_half a (inserted_half now i r s))))"

lemma leaked_fields:
  "at_next (leaked now i r s) = Suc (at_next s)" "at_work (leaked now i r s) = at_work s"
  "at_reaper (leaked now i r s) = at_reaper s"
  "at_heap (leaked now i r s) = (at_heap s)(at_next s := evicted (player_new now i r))"
  "at_enqueue (leaked now i r s) = (at_enqueue s)(at_next s := E_done)"
  "at_cancel (leaked now i r s) = (at_cancel s)(at_next s := C_done)"
  "at_primary (leaked now i r s) = (at_primary s)(i := None)"
  "at_index (leaked now i r s) = (at_index s)((r, i) \<mapsto> at_next s)"
  "mt_current_queue_size (at_metrics (leaked now i r s)) = mt_current_queue_size (at_metrics s)"
  by (simp_all add: leaked_def Let_def insert_finished_def removal_finished_def removed_half_def inserted_half_def player_new_def)

lemma leak_run:
  assumes "timely T s" and "at_primary s i = None" and "r \<le> MAX_SKILL_RATING" and "index_unlocked s"
  shows "(timely_step T)\<^sup>*\<^sup>* s (leaked now i r s)"
proof -
  let ?a = "at_next s"
  let ?s1 = "inserted_half now i r s"
  let ?s2 = "removed_half ?a ?s1"
  let ?s3 = "removal_finished ?a ?a ?s2"
  have still: "timely T q \<and> index_unlocked q" if "at_clock q = at_clock s" "at_now q = at_now s" "at_work q = at_work s" for q
    using assms(1,4) that by (simp add: timely_def index_unlocked_def)
  have t1: "timely T ?s1" "index_unlocked ?s1" and t2: "timely T ?s2" "index_unlocked ?s2" and t3: "timely T ?s3" "index_unlocked ?s3"
    using still by (simp_all add: inserted_half_def removed_half_def removal_finished_def)
  have r1: "(timely_step T)\<^sup>*\<^sup>* s ?s1" by (rule insert_half_run [OF assms(1-3)])
  have r2: "(timely_step T)\<^sup>*\<^sup>* ?s1 ?s2"
    by (rule remove_half_run [OF t1(1)]) (simp_all add: inserted_half_def player_new_def is_waiting_def)
  have r3: "(timely_step T)\<^sup>*\<^sup>* ?s2 ?s3" by (rule finish_removal_run [OF t2(1) _ t2(2)]) (simp add: removed_half_def)
  have "(timely_step T)\<^sup>*\<^sup>* ?s3 (leaked now i r s)"
    unfolding leaked_def Let_def
    by (rule finish_insert_run [OF t3(1) _ t3(2)]) (simp add: removal_finished_def removed_half_def inserted_half_def)
  from rtranclp_trans [OF r1 rtranclp_trans [OF r2 rtranclp_trans [OF r3 this]]] show ?thesis .
qed

section \<open>Nothing happens any more\<close>

text \<open>Every player has left and every task is idle or dead.\<close>

definition quiet :: "service \<Rightarrow> bool" where
  "quiet s \<longleftrightarrow> at_primary s = Map.empty \<and> (\<forall>w. at_work s w = W_idle \<or> is_dead (at_work s w)) \<and>
     (\<exists>as. at_reaper s = R_visit as \<and> set as \<subseteq> {..<at_next s}) \<and>
     (\<forall>a. at_enqueue s a \<in> {E_none, E_done} \<and> at_cancel s a \<in> {C_none, C_done}) \<and>
     (\<forall>a < at_next s. p_state (at_heap s a) = EVICTED)"

lemma quiet_points:
  assumes "quiet s"
  shows "at_enqueue s a \<noteq> E_primary" "at_enqueue s a \<noteq> E_index" "at_enqueue s a \<noteq> E_total" "at_enqueue s a \<noteq> E_queue"
    and "at_cancel s a \<noteq> C_primary" "at_cancel s a \<noteq> C_index b" "at_cancel s a \<noteq> C_queue" "at_cancel s a \<noteq> C_total"
proof -
  have "at_enqueue s a \<in> {E_none, E_done}" "at_cancel s a \<in> {C_none, C_done}" using assms by (simp_all add: quiet_def)
  then show "at_enqueue s a \<noteq> E_primary" "at_enqueue s a \<noteq> E_index" "at_enqueue s a \<noteq> E_total" "at_enqueue s a \<noteq> E_queue"
    "at_cancel s a \<noteq> C_primary" "at_cancel s a \<noteq> C_index b" "at_cancel s a \<noteq> C_queue" "at_cancel s a \<noteq> C_total" by auto
qed

lemma quiet_work: "quiet s \<Longrightarrow> at_work s w = W_idle \<or> (\<exists>A U L. at_work s w = W_dead A U L)"
  unfolding quiet_def by (metis is_dead.elims(2))

lemma quiet_at: "at_work s w = p \<Longrightarrow> quiet s \<Longrightarrow> p = W_idle \<or> is_dead p"
  using quiet_work [of s w] by auto

lemma quiet_pool: "pool_step s t \<Longrightarrow> \<not> quiet s"
proof (induction rule: pool_step.induct)
  case (p_remove s w a todo as b)
  then show ?case using quiet_work [of s w] by auto
next
  case (p_remove_absent s w a todo as)
  then show ?case using quiet_work [of s w] by auto
next
  case (p_unindex s w b a todo as)
  then show ?case using quiet_work [of s w] by auto
qed (auto dest: quiet_points)

lemma quiet_task: "task_step T s t \<Longrightarrow> quiet s \<Longrightarrow> quiet t \<or> at_next s < at_next t"
proof (induction rule: task_step.induct)
  case (t_tick s c)
  then show ?case by (simp add: quiet_def)
next
  case (t_check r s i)
  then show ?case by (simp add: quiet_def)
next
  case (t_create i r s a now)
  then show ?case by simp
next
  case (t_evict a s p)
  then show ?case by (auto simp: quiet_def compare_exchange_def)
next
  case (t_seed s w j)
  then show ?case by (simp add: quiet_def)
next
  case (t_die s w)
  then show ?case by (simp add: quiet_def)
next
  case (t_reaper_start s as)
  then show ?case by (auto simp: quiet_def)
next
  case (t_reaper_skip s a as)
  then show ?case by (auto simp: quiet_def)
next
  case (t_reaper_count s)
  then show ?case by (simp add: quiet_def)
next
  case (t_reaper_claimed s a as)
  then show ?case by (auto simp: quiet_def)
next
  case (t_reaper_fresh s a as)
  then show ?case by (auto simp: quiet_def)
next
  case (t_reaper_stale s a as)
  then show ?case by (auto simp: quiet_def)
next
  case (t_reaper_lose s a as p)
  then show ?case by (auto simp: quiet_def)
next
  case (t_reaper_win s a as p)
  then show ?case by (auto simp: quiet_def)
next
  case (t_reaper_owner s a as)
  then show ?case by (auto simp: quiet_def)
next
  case (t_reaper_time s a as)
  then show ?case by (auto simp: quiet_def)
qed ((drule (1) quiet_at, simp; fail) | (auto dest: quiet_points; fail))+

text \<open>Until somebody joins, the index stays as it is.\<close>

lemma quiet_forever:
  assumes "(node_step T)\<^sup>*\<^sup>* s u" and "quiet s" and "at_next u = at_next s"
  shows "at_index u = at_index s"
proof -
  have "at_next s < at_next u \<or> quiet u \<and> at_index u = at_index s \<and> at_next u = at_next s"
    using assms(1)
  proof induction
    case (step u v)
    have le: "at_next u \<le> at_next v" using node_step_players [OF step(2)] by simp
    from step(3) show ?case
    proof
      assume quiet: "quiet u \<and> at_index u = at_index s \<and> at_next u = at_next s"
      then have task: "task_step T u v" using step(2) quiet_pool by (auto simp: node_step_def)
      from quiet_task [OF task] task_step_maps [OF task] quiet le show ?thesis by auto
    qed (use le in simp)
  qed (use assms(2) in simp)
  with assms(3) show ?thesis by simp
qed

section \<open>The index without a queue\<close>

fun leaking :: "nat \<Rightarrow> service" where
  "leaking 0 = demo_node 0"
| "leaking (Suc n) = leaked 0 (of_nat n) 1000 (leaking n)"

lemma leaking_fields:
  "at_next (leaking n) = n" "at_work (leaking n) = (\<lambda>w. W_idle)" "at_reaper (leaking n) = R_visit []"
  "at_enqueue (leaking n) = (\<lambda>a. if a < n then E_done else E_none)" "at_cancel (leaking n) = (\<lambda>a. if a < n then C_done else C_none)"
  "at_primary (leaking n) = Map.empty" "mt_current_queue_size (at_metrics (leaking n)) = 0"
  by (induction n) (simp_all add: leaked_fields fun_eq_iff less_Suc_eq metrics_new_def)

lemma leaking_players: "a < n \<Longrightarrow> at_heap (leaking n) a = evicted (player_new 0 (of_nat a) 1000)"
  by (induction n) (auto simp: leaked_fields leaking_fields less_Suc_eq)

lemma leaking_run: "(timely_step T)\<^sup>*\<^sup>* (demo_node 0) (leaking n)"
proof (induction n)
  case (Suc n)
  have "timely T (leaking n)" "index_unlocked (leaking n)" by (simp_all add: timely_def index_unlocked_def leaking_fields)
  moreover have "at_primary (leaking n) (of_nat n) = None" by (simp add: leaking_fields)
  ultimately have "(timely_step T)\<^sup>*\<^sup>* (leaking n) (leaking (Suc n))"
    by (simp only: leaking.simps, intro leak_run) (simp_all add: MAX_SKILL_RATING_def)
  with Suc show ?case by (rule rtranclp_trans)
qed simp

lemma leaking_index:
  "n \<le> 2 ^ 128 \<Longrightarrow> dom (at_index (leaking n)) = (\<lambda>a. (1000, of_nat a)) ` {..<n}"
  by (induction n) (auto simp: leaked_fields leaking_fields lessThan_Suc)

lemma leaking_quiet: "quiet (leaking n)"
  by (simp add: quiet_def leaking_fields leaking_players player_new_def)

lemma leaking_reach: "n \<le> 2 ^ 128 \<Longrightarrow> reach node_init (orderly_step T) (leaking n)"
proof (rule orderly_run [OF leaking_run])
  show "reach node_init (orderly_step T) (demo_node 0)" by (rule reach_init) (simp add: node_init_def)
  assume "n \<le> 2 ^ 128"
  then show "inj_on (at_id (leaking n)) {..<at_next (leaking n)}"
    by (auto simp: leaking_fields leaking_players player_new_def word_of_nat_eq_iff take_bit_nat_eq_self intro!: inj_onI)
qed

text \<open>
  C21: The rating index can grow without bound while the queue is empty.  For every number n there is
  an orderly run without a late worker after which every request is answered, nobody is queued, the gauge is zero
  and the index has n entries: each is left by a player whose cancellation came between the two
  insertions of his enqueue.  No task ever deletes these entries, the Reaper included: until somebody joins,
  the index stays as it is.
\<close>

theorem index_can_outgrow_queue:
  assumes "n \<le> 2 ^ 128"
  shows "\<exists>s. reach node_init (orderly_step T) s \<and> (\<forall>a. at_enqueue s a \<in> {E_none, E_done} \<and> at_cancel s a \<in> {C_none, C_done}) \<and>
    at_primary s = Map.empty \<and> mt_current_queue_size (at_metrics s) = 0 \<and> card (dom (at_index s)) = n \<and>
    (\<forall>u. (node_step T)\<^sup>*\<^sup>* s u \<and> at_next u = at_next s \<longrightarrow> at_index u = at_index s)"
proof (intro exI [of _ "leaking n"] conjI allI impI)
  show "reach node_init (orderly_step T) (leaking n)" by (rule leaking_reach [OF assms])
  have "inj_on (\<lambda>a. (1000 :: u32, of_nat a :: uuid)) {..<n}"
    using assms by (auto simp: word_of_nat_eq_iff take_bit_nat_eq_self intro!: inj_onI)
  then show "card (dom (at_index (leaking n))) = n" by (simp add: leaking_index [OF assms] card_image)
  show "at_index u = at_index (leaking n)" if "(node_step T)\<^sup>*\<^sup>* (leaking n) u \<and> at_next u = at_next (leaking n)" for u
    using quiet_forever [of T "leaking n" u] leaking_quiet that by blast
qed (simp_all add: leaking_fields)

theorem index_can_outgrow_queue_witness:
  "\<exists>s. reach node_init (orderly_step 500) s \<and> at_primary s = Map.empty \<and> card (dom (at_index s)) = 1000000"
  using index_can_outgrow_queue [of 1000000 500] by auto

end
