(* ===== verification/Spec2Isabelle.thy ===== *)
theory Spec2Isabelle
  imports Service Concurrency Liveness Queue_Spec Races Atomic_Properties Atomic_Sequential Atomic_Leak
begin

text \<open>
  Verification of Matchmaker, a 5v5 matchmaking service in Rust (crate at src/src).

  The program.  HTTP handlers (src/src/api/mod.rs) put players into a queue and take them out;
  a fixed set of worker tasks (src/src/workers/mod.rs) repeatedly attempts to form a match
  (src/src/engine/matcher.rs): it picks the longest waiting player as the seed, scans the
  rating index of the player pool (src/src/engine/bucket.rs) for players inside the seed's
  window (src/src/engine/relaxation.rs), claims ten of them by compare-and-swap on their state
  words (src/src/models/mod.rs), splits them into two teams (src/src/engine/balancer.rs),
  and publishes the match.  A Reaper task gives back the claims of workers that died.  The core
  (src/src/engine/mod.rs) owns pool, metrics (src/src/metrics/mod.rs) and match history; the
  configuration (src/src/config/mod.rs) comes from the environment, and src/src/main.rs puts
  the parts together.

  Theories, in the order of imports.
  \<^item> Prelude: machine integers and their readings as naturals, iterator operations, transition
    systems with the locale \<open>inductive_invariant\<close>.  Nothing in it models a file.
  \<^item> Models, Lifecycle: models/mod.rs.  Atomic fields are record fields and an operation on them,
    compare-and-swap and stores together, is one function on the player; Lifecycle relates the operations
    to the documented state machine and interprets \<open>inductive_invariant\<close> for one player whom
    whole operations use.  The Reaper's reset is one function there too (\<open>reaper_reset\<close>), although the code
    makes the player available first and clears the claim fields in two later stores.
  \<^item> Config, Relaxation, Balancer, Metrics, and in Api the helpers of utils/mod.rs: the pure
    parts.  The balancer is the search over 1024 masks as the code runs it; \<open>optimal_split\<close> says that
    a division has the smallest difference of all divisions into two teams of five.
  \<^item> Containers: the standard and third-party maps.  \<open>BTreeMap\<close> is a sorted association list.
    \<open>DashMap\<close> cannot be read here, so it is a record of operations \<open>dash_ops\<close> with the predicate
    \<open>dashmap\<close> for their documented laws; two instances with different iteration orders show
    that the laws can hold.  The locale \<open>keyed_map\<close> is interpreted by all three.
  \<^item> Pool: bucket.rs.  A player object lives at an address of a heap (\<open>Arc<Player>\<close>); the pool
    maps identifiers to addresses.  \<open>pool_ok\<close> is the consistency of the two structures,
    \<open>pool_map\<close> the abstract pool the operations refine.
  \<^item> Matcher: matcher.rs, one definition per phase of an attempt that no other task interferes
    with.  Clock readings, the fresh match identifier and the strong references of other tasks are the
    record \<open>readings\<close>.  \<open>match_of\<close> is what a match says of its ten players.
  \<^item> Engine: engine/mod.rs, and the service as a system of whole operations (\<open>engine_step\<close>), each of
    which ends before the next one starts, with its invariant.
  \<^item> Workers: workers/mod.rs; the event loops consume the wake-ups they see.
  \<^item> Api, Service: api/mod.rs on typed requests, and main.rs as a trace of events.
  \<^item> Queue_Spec: the abstract queue (identifiers with rating and join time) and the proof that every
    sequence of enqueues, cancellations and attempts implements it.
  \<^item> Interleaving, Ownership, Accounting, Runs, Concurrency, Matching_Spec: a model of the
    interleaved service in which the pool is two sets of players, the only counter is the queue
    gauge, and the Reaper resets what dead workers claimed.  It is an abstraction, not a reading of the
    code: it carries the invariants (\<open>conc_ok\<close>: who holds which claim; \<open>accounting_ok\<close>: where every
    player and every unit of the gauge is) and the simulation of an abstract service, in which players
    join, are cancelled, or go ten at a time into a match, each at one instant.
  \<^item> Atomic: the running service, access by access.  Any number of workers, enqueue and cancel
    handlers, the Reaper and the clock take turns; every compare-and-swap, store, map access and
    counter is a step of its own.  \<open>task_step\<close> are the steps of matcher.rs, engine/mod.rs,
    workers/mod.rs and metrics/mod.rs, \<open>pool_step\<close> the accesses to the two maps of bucket.rs by key;
    the datatypes \<open>worker_point\<close>, \<open>enqueue_point\<close>, \<open>cancel_point\<close> and \<open>reaper_point\<close> are the program
    points.  Nothing is assumed about identifiers, and the Reaper makes the comparison of the code
    (\<open>too_old\<close>) and its three writes one by one.  The wall clock only moves forward (\<open>t_tick\<close>).
  \<^item> Atomic_Refinement, Atomic_Simulation: the abstraction \<open>sys_of\<close> to the model above, and the
    interpretations of \<open>inductive_invariant\<close> for timely and for orderly runs.  Atomic_Scan: the scan
    of the index under its lock, and the window of a worker.  Atomic_Ledger: every counter, as
    what has been counted and what the workers still have to count.  Atomic_Reports: the match a
    worker builds and the history.  Atomic_Runs, Atomic_Demo: what the steps of one task add up to, and runs
    from the start.  Atomic_Races: players out of reach of every scan, and claims out of reach of the
    Reaper.  Atomic_Leak: index entries that belong to nobody.  Atomic_Properties: the properties.
  \<^item> Atomic_Sequential: the operations of Engine and Matcher are what the accesses of Atomic add up to
    when the tasks take turns.
  \<^item> Races: a duplicate enqueue, as two commits of the sequential \<open>enqueue\<close>, and, on the abstraction,
    a claim between the steps of the Reaper.
  \<^item> Liveness: sequences of attempts drain the queue, and the Reaper returns what dead workers
    held to a state from which matches form again.

  What the lemmas show.  For the sequential parts: the well-formedness invariant of each state and
  its preservation, the outcome of each operation on each branch, optimality of the balancer,
  exactness of scans, and refinements of a map (Pool), of a life cycle (Lifecycle) and of a queue
  (Queue_Spec).  For the interleaved service: no player is in two matches, the Reaper takes players
  only from dead workers, published matches are fair and the history holds the last of them, no queued
  player falls out of the pool, the counters are true at rest, a worker that nothing disturbs forms its
  match, a dead worker's stamped claim can be recovered, and the service implements the abstract one.
  The two readings of the code meet in \<open>whole_operations_are_runs\<close>: sequences of whole operations
  are runs of the interleaved service.

  Scope.  The theorems of Lifecycle, Pool, Matcher, Engine, Workers, Api, Queue_Spec and Liveness are
  about operations that do not overlap, unless they say otherwise; what they say of every reachable
  core holds between whole operations.  The theorems of Atomic_Properties and Atomic_Leak hold with
  the tasks interleaved access by access.

  What the interleaved properties rest on is written into the runs they speak of.  A run is timely
  (\<open>timely_step\<close>) when no live worker takes longer than the claim timeout from reading the clock to
  marking its last player; theory Workers shows what a slower one does
  (\<open>stalled_worker_double_matches\<close>).  The clock meant is \<open>at_clock\<close>, an idealisation of the
  \<open>SystemTime\<close> that \<open>unix_ms\<close> reads: in the model it is never set back, on a real machine it may be, and
  then a worker that is quick may still look late to the Reaper, or a dead one fresh.
  A run is orderly (\<open>orderly_step\<close>) when moreover no identifier is
  used by two players who are both filed in the pool or about to be inserted or removed there.  The
  code does not enforce this.  Two enqueues of one identifier at the same time break it
  (\<open>racing_enqueues_lose_player\<close>), and so does joining again while the cancellation is between the two
  maps, which hides the new player for ever (\<open>rejoining_player_can_be_hidden\<close>).  Ownership
  and matches need no order.  A claim whose stamp is missing, because the worker died before
  the store or because the Reaper erased it (\<open>reaper_can_lose_claim\<close>), stays for ever
  (\<open>unstamped_dead_claim_lost\<close>).  A cancellation between the two insertions of an enqueue leaves
  an index entry for ever (\<open>index_can_outgrow_queue\<close>); scans skip it, so nobody is lost by that.

  In the interleaved model the seed is any waiting player of the primary store, since the iteration
  over the concurrent map may miss or see whoever comes and goes meanwhile; the state a worker
  keeps between its attempts (\<open>worker_state\<close>), which only matters for this choice, is left out there.
  The Reaper's list may be any players ever inserted.  Both cover more than the code does; the
  runs whose existence is claimed use seeds in the store, and a Reaper that visits the players of the store.
  A worker's window carries, for the proofs only, the seed and the instant it was computed for.
  A worker's report (\<open>make_report\<close>) is read in one step off the words of players only it may
  write.  The other accesses, the entries of a scan and the counters included, are steps of their own.

  Bounds and loops.  All loops of the code are structural recursions or folds over lists,
  \<open>evict_oldest\<close> has a measure; no fuel is used.  Integers have their width; \<open>Instant\<close> is a
  natural number of nanoseconds, and readings of it are not ordered by the model.
  A panic is \<open>None\<close>; errors are the left values of sums.

  Not modelled: memory orderings (atomic accesses are sequentially consistent here), the decoding of
  requests and encoding of responses (axum, serde), scheduling by tokio (the readiness of wake-up
  sources is an argument), log output, and src/src/lib.rs, which only declares modules.
\<close>

end
